theory Spec2Isabelle
  imports Main "HOL-Library.Multiset"
begin

section \<open>Scalars, records and errors\<close>

text \<open>
  A column value is a JavaScript string or integer; reading a property that a record does
  not have gives \<open>undefined\<close>. A record is a JavaScript object: its own properties in
  insertion order.
\<close>

datatype val = VNum int | VStr string | VUndef

type_synonym rcd = "(string \<times> val) list"

definition getField :: "rcd \<Rightarrow> string \<Rightarrow> val" where
  "getField r k = (case map_of r k of None \<Rightarrow> VUndef | Some v \<Rightarrow> v)"

fun setField :: "rcd \<Rightarrow> string \<Rightarrow> val \<Rightarrow> rcd" where
  "setField [] k v = [(k, v)]"
| "setField ((k', v') # r) k v =
     (if k' = k then (k, v) # r else (k', v') # setField r k v)"

definition hasKey :: "rcd \<Rightarrow> string \<Rightarrow> bool" where
  "hasKey r k = (k \<in> set (map fst r))"

text \<open>
  Every \<open>throw\<close> of the sources is a constructor; \<open>TypeError\<close> stands for the
  run-time error of JavaScript itself (a property read or a call on \<open>undefined\<close>).
\<close>

datatype error =
    PageFull
  | TableNotHashed
  | UnexpectedOperator
  | UnexpectedProjection
  | IndexOutOfBounds
  | TypeError

definition bindE :: "error + 'a \<Rightarrow> ('a \<Rightarrow> error + 'b) \<Rightarrow> error + 'b" where
  "bindE m f = (case m of Inl e \<Rightarrow> Inl e | Inr x \<Rightarrow> f x)"

subsection \<open>Loose equality and ordering of scalars\<close>

text \<open>
  \<open>==\<close> and \<open>>\<close> of JavaScript on the scalars above. The numbers of the model are
  the integers, which the doubles of the code represent exactly up to \<open>2^53\<close>. A
  string compared with a number is converted to a number first; the conversion is
  modelled on integer numerals (surrounding blanks, an optional sign, decimal digits;
  the empty string is 0), every other string converting to NaN: numerals with a
  fraction, an exponent or a radix prefix are outside the model. Two strings are
  ordered by their code units.
\<close>

definition isBlank :: "char \<Rightarrow> bool" where
  "isBlank c = (c = CHR '' '' \<or> c = CHR 0x09 \<or> c = CHR 0x0A \<or> c = CHR 0x0D)"

definition digitVal :: "char \<Rightarrow> nat option" where
  "digitVal c =
     (let n = (of_char c :: nat) in if 48 \<le> n \<and> n \<le> 57 then Some (n - 48) else None)"

fun digitsVal :: "nat \<Rightarrow> string \<Rightarrow> nat option" where
  "digitsVal acc [] = Some acc"
| "digitsVal acc (c # cs) =
     (case digitVal c of None \<Rightarrow> None | Some k \<Rightarrow> digitsVal (10 * acc + k) cs)"

definition stringToNumber :: "string \<Rightarrow> int option" where
  "stringToNumber s =
     (let t = rev (dropWhile isBlank (rev (dropWhile isBlank s))) in
      case t of
        [] \<Rightarrow> Some 0
      | c # cs \<Rightarrow>
          if c = CHR ''-'' then
            (if cs = [] then None else map_option (\<lambda>n. - int n) (digitsVal 0 cs))
          else if c = CHR ''+'' then
            (if cs = [] then None else map_option int (digitsVal 0 cs))
          else map_option int (digitsVal 0 t))"

fun looseEq :: "val \<Rightarrow> val \<Rightarrow> bool" where
  "looseEq (VNum a) (VNum b) = (a = b)"
| "looseEq (VStr s) (VStr t) = (s = t)"
| "looseEq (VNum a) (VStr s) = (stringToNumber s = Some a)"
| "looseEq (VStr s) (VNum a) = (stringToNumber s = Some a)"
| "looseEq VUndef VUndef = True"
| "looseEq _ _ = False"

fun strGt :: "string \<Rightarrow> string \<Rightarrow> bool" where
  "strGt [] _ = False"
| "strGt (a # as) [] = True"
| "strGt (a # as) (b # bs) =
     (if a = b then strGt as bs else (of_char b :: nat) < of_char a)"

fun jsGt :: "val \<Rightarrow> val \<Rightarrow> bool" where
  "jsGt (VNum a) (VNum b) = (b < a)"
| "jsGt (VStr s) (VStr t) = strGt s t"
| "jsGt (VNum a) (VStr s) = (case stringToNumber s of None \<Rightarrow> False | Some b \<Rightarrow> b < a)"
| "jsGt (VStr s) (VNum b) = (case stringToNumber s of None \<Rightarrow> False | Some a \<Rightarrow> b < a)"
| "jsGt _ _ = False"

section \<open>Configuration\<close>

definition maxNoOfRecsPerFile :: nat where
  "maxNoOfRecsPerFile = 100"

definition cacheMax :: nat where
  "cacheMax = 50"

definition blockJoinSize :: nat where
  "blockJoinSize = 100"

section \<open>Page\<close>

text \<open>
  A page object is its array \<open>_files\<close>; its capacity is the configured constant, its id
  is the key under which the store of the database below holds it.
\<close>

type_synonym page = "rcd list"

definition directAccess :: "page \<Rightarrow> nat \<Rightarrow> error + rcd" where
  "directAccess p i = (if length p \<le> i then Inl IndexOutOfBounds else Inr (p ! i))"

definition iterator :: "page \<Rightarrow> rcd list" where
  "iterator p = p"

definition pageInsertRecord :: "page \<Rightarrow> rcd \<Rightarrow> (page \<times> nat) option" where
  "pageInsertRecord p r =
     (if length p < maxNoOfRecsPerFile then Some (p @ [r], length p) else None)"

definition spacesLeft :: "page \<Rightarrow> nat" where
  "spacesLeft p = maxNoOfRecsPerFile - length p"

section \<open>Database state\<close>

text \<open>
  The page objects are shared between a table and the buffer, so they live in a store
  keyed by page id; a table is the list of its page ids in insertion order and the
  buffer is the list of resident page ids, most recently used first. Ids come from
  \<open>nanoid()\<close>, modelled by a counter: the page ids are its values, the names made from it
  are \<open>idString\<close> of them. The free-space queue is the list of its entries
  \<open>(pageId, spacesLeft)\<close>; \<open>peek\<close> and \<open>poll\<close> take an entry that no other entry
  exceeds: the first such, where the heap of the library takes the one its layout
  brings to the top, so among pages with equally many free slots the model may fill
  another one than the code. A hash index is the list of its entries in insertion
  order, each a key with its locators \<open>(pageId, slot)\<close>.
\<close>

type_synonym locator = "nat \<times> nat"

type_synonym hashIndex = "(val \<times> locator list) list"

type_synonym queue = "(nat \<times> nat) list"

record db =
  buf :: "nat list"
  pages :: "nat \<Rightarrow> page"
  tables :: "string \<rightharpoonup> nat list"
  tablePageSpaces :: "string \<rightharpoonup> queue"
  tableCols :: "string \<rightharpoonup> string list"
  tableHashes :: "string \<rightharpoonup> (string \<rightharpoonup> hashIndex)"
  nextId :: nat

definition emptyDB :: db where
  "emptyDB = \<lparr> buf = [], pages = (\<lambda>_. []), tables = Map.empty,
     tablePageSpaces = Map.empty, tableCols = Map.empty, tableHashes = Map.empty,
     nextId = 0 \<rparr>"

definition idString :: "nat \<Rightarrow> string" where
  "idString n = CHR ''~'' # replicate n (CHR ''i'')"

subsection \<open>Hash index and queue primitives\<close>

definition idxHas :: "hashIndex \<Rightarrow> val \<Rightarrow> bool" where
  "idxHas ix v = (map_of ix v \<noteq> None)"

definition idxGet :: "hashIndex \<Rightarrow> val \<Rightarrow> locator list option" where
  "idxGet ix v = map_of ix v"

fun idxSet :: "hashIndex \<Rightarrow> val \<Rightarrow> locator list \<Rightarrow> hashIndex" where
  "idxSet [] v ls = [(v, ls)]"
| "idxSet ((k, ls') # ix) v ls =
     (if k = v then (k, ls) # ix else (k, ls') # idxSet ix v ls)"

text \<open>
  The keys of an index, in the order in which the hashmap library enumerates them. It
  keeps the entries in an object under the hash of the key, and the hash of a number
  is its decimal text: the number keys that are array indices come first, in ascending
  order, and the other keys follow in insertion order.
\<close>

definition arrayIndexKey :: "val \<Rightarrow> bool" where
  "arrayIndexKey v =
     (case v of VNum n \<Rightarrow> 0 \<le> n \<and> n < 4294967295 | VStr s \<Rightarrow> False | VUndef \<Rightarrow> False)"

definition keyNumber :: "val \<Rightarrow> int" where
  "keyNumber v = (case v of VNum n \<Rightarrow> n | VStr s \<Rightarrow> 0 | VUndef \<Rightarrow> 0)"

definition idxKeys :: "hashIndex \<Rightarrow> val list" where
  "idxKeys ix =
     sort_key keyNumber (filter arrayIndexKey (map fst ix)) @
     filter (\<lambda>k. \<not> arrayIndexKey k) (map fst ix)"

fun qPeek :: "queue \<Rightarrow> (nat \<times> nat) option" where
  "qPeek [] = None"
| "qPeek (e # es) =
     (case qPeek es of
        None \<Rightarrow> Some e
      | Some m \<Rightarrow> if snd e < snd m then Some m else Some e)"

definition qAdd :: "queue \<Rightarrow> nat \<times> nat \<Rightarrow> queue" where
  "qAdd q e = q @ [e]"

definition qPoll :: "queue \<Rightarrow> ((nat \<times> nat) \<times> queue) option" where
  "qPoll q = (case qPeek q of None \<Rightarrow> None | Some e \<Rightarrow> Some (e, remove1 e q))"

section \<open>Page buffer\<close>

definition hasPage :: "db \<Rightarrow> nat \<Rightarrow> bool" where
  "hasPage d pid = (pid \<in> set (buf d))"

definition addPage :: "db \<Rightarrow> nat \<Rightarrow> db" where
  "addPage d pid = d\<lparr>buf := take cacheMax (pid # remove1 pid (buf d))\<rparr>"

definition cacheGet :: "db \<Rightarrow> nat \<Rightarrow> error + (page \<times> db)" where
  "cacheGet d pid =
     (if pid \<in> set (buf d) then Inr (pages d pid, d\<lparr>buf := pid # remove1 pid (buf d)\<rparr>)
      else Inl TypeError)"

definition getPageContents :: "db \<Rightarrow> nat \<Rightarrow> error + (rcd list \<times> db)" where
  "getPageContents d pid = bindE (cacheGet d pid) (\<lambda>(p, d1). Inr (iterator p, d1))"

definition clearPage :: "db \<Rightarrow> nat \<Rightarrow> error + db" where
  "clearPage d pid =
     bindE (cacheGet d pid) (\<lambda>(p, d1). Inr (d1\<lparr>pages := (pages d1)(pid := [])\<rparr>))"

definition insertRecord :: "db \<Rightarrow> nat \<Rightarrow> rcd \<Rightarrow> error + (nat \<times> db)" where
  "insertRecord d pid r =
     bindE (cacheGet d pid) (\<lambda>(p, d1).
       case pageInsertRecord p r of
         None \<Rightarrow> Inl PageFull
       | Some (p', i) \<Rightarrow> Inr (i, d1\<lparr>pages := (pages d1)(pid := p')\<rparr>))"

definition getPageRecord :: "db \<Rightarrow> nat \<Rightarrow> nat \<Rightarrow> error + (rcd \<times> db)" where
  "getPageRecord d pid i =
     bindE (cacheGet d pid) (\<lambda>(p, d1). bindE (directAccess p i) (\<lambda>r. Inr (r, d1)))"

text \<open>
  The recurring \<open>if (!buf.hasPage(pageId)) buf.addPage(table.get(pageId))\<close>, with
  \<open>table\<close> as the caller looked it up: a missing table or page makes \<open>addPage\<close> read
  \<open>id\<close> of \<open>undefined\<close>.
\<close>

definition ensurePage :: "db \<Rightarrow> nat list option \<Rightarrow> nat \<Rightarrow> error + db" where
  "ensurePage d table pid =
     (if hasPage d pid then Inr d
      else case table of
             None \<Rightarrow> Inl TypeError
           | Some pids \<Rightarrow> if pid \<in> set pids then Inr (addPage d pid) else Inl TypeError)"

lemma bindE_cong [fundef_cong]:
  "m = m' \<Longrightarrow> (\<And>x. m' = Inr x \<Longrightarrow> f x = f' x) \<Longrightarrow> bindE m f = bindE m' f'"
  by (cases m') (simp_all add: bindE_def)

section \<open>Table catalog\<close>

definition addNewPageToTable :: "db \<Rightarrow> string \<Rightarrow> error + db" where
  "addNewPageToTable d t =
     (let pid = nextId d;
          d1 = d\<lparr>nextId := Suc pid, pages := (pages d)(pid := [])\<rparr>
      in case tables d1 t of
           None \<Rightarrow> Inl TypeError
         | Some pids \<Rightarrow>
             (case tablePageSpaces d1 t of
                None \<Rightarrow> Inl TypeError
              | Some q \<Rightarrow>
                  Inr (d1\<lparr>tables := (tables d1)(t \<mapsto> pids @ [pid]),
                          tablePageSpaces :=
                            (tablePageSpaces d1)(t \<mapsto> qAdd q (pid, spacesLeft []))\<rparr>)))"

definition addTable :: "db \<Rightarrow> string \<Rightarrow> string list \<Rightarrow> error + (bool \<times> db)" where
  "addTable d t colNames =
     (if tables d t \<noteq> None then Inr (False, d)
      else
        bindE
          (addNewPageToTable
             (d\<lparr>tables := (tables d)(t \<mapsto> []),
                tableHashes := (tableHashes d)(t \<mapsto> Map.empty),
                tablePageSpaces := (tablePageSpaces d)(t \<mapsto> []),
                tableCols := (tableCols d)(t \<mapsto> colNames)\<rparr>) t)
          (\<lambda>d1. Inr (True, d1)))"

text \<open>
  \<open>_getPageToInsert\<close>: \<open>peek\<close> of an empty queue is \<open>undefined\<close>, whose
  \<open>spacesLeft\<close> is a type error; \<open>poll\<close> of an empty queue is \<open>undefined\<close>, which the
  callers destructure.
\<close>

definition getPageToInsert :: "db \<Rightarrow> string \<Rightarrow> error + ((nat \<times> nat) \<times> db)" where
  "getPageToInsert d t =
     (case tablePageSpaces d t of
        None \<Rightarrow> Inl TypeError
      | Some q \<Rightarrow>
          (case qPeek q of
             None \<Rightarrow> Inl TypeError
           | Some tp \<Rightarrow>
               bindE (if snd tp = 0 then addNewPageToTable d t else Inr d) (\<lambda>d1.
                 case tablePageSpaces d1 t of
                   None \<Rightarrow> Inl TypeError
                 | Some q1 \<Rightarrow>
                     (case qPoll q1 of
                        None \<Rightarrow> Inl TypeError
                      | Some (e, q2) \<Rightarrow>
                          Inr (e, d1\<lparr>tablePageSpaces := (tablePageSpaces d1)(t \<mapsto> q2)\<rparr>)))))"

definition queueAdd :: "db \<Rightarrow> string \<Rightarrow> nat \<Rightarrow> error + db" where
  "queueAdd d t pid =
     (case tablePageSpaces d t of
        None \<Rightarrow> Inl TypeError
      | Some q \<Rightarrow>
          Inr (d\<lparr>tablePageSpaces :=
                   (tablePageSpaces d)(t \<mapsto> qAdd q (pid, spacesLeft (pages d pid)))\<rparr>))"

text \<open>
  \<open>insertRecords\<close>: a record without \<open>_id\<close> gets \<open>tableName:nanoid()\<close> in front of
  its fields. \<open>fillPage\<close> is the inner \<open>for\<close> loop, which stores at most
  \<open>spacesLeft\<close> records in the chosen page and leaves the rest.
\<close>

definition withId :: "db \<Rightarrow> string \<Rightarrow> rcd \<Rightarrow> rcd \<times> db" where
  "withId d t r =
     (if hasKey r ''_id'' then (r, d)
      else ((''_id'', VStr (t @ '':'' @ idString (nextId d))) # r,
            d\<lparr>nextId := Suc (nextId d)\<rparr>))"

fun fillPage :: "string \<Rightarrow> nat \<Rightarrow> nat \<Rightarrow> rcd list \<Rightarrow> db \<Rightarrow> error + (rcd list \<times> db)" where
  "fillPage t pid 0 rs d = Inr (rs, d)"
| "fillPage t pid (Suc n) [] d = Inr ([], d)"
| "fillPage t pid (Suc n) (r # rs) d =
     (case withId d t r of
        (r', d1) \<Rightarrow> bindE (insertRecord d1 pid r') (\<lambda>(i, d2). fillPage t pid n rs d2))"

lemma fillPage_length:
  "fillPage t pid n rs d = Inr (rest, d') \<Longrightarrow> length rest = length rs - min n (length rs)"
proof (induction t pid n rs d rule: fillPage.induct)
  case (3 t pid n r rs d)
  then show ?case
    by (auto simp: bindE_def split: prod.splits sum.splits)
qed auto

lemma qPeek_mem: "qPeek q = Some m \<Longrightarrow> m \<in> set q"
  by (induction q arbitrary: m) (auto split: option.splits if_splits)

lemma qPeek_None: "qPeek q = None \<longleftrightarrow> q = []"
  by (cases q) (auto split: option.splits)

lemma qPeek_max: "qPeek q = Some m \<Longrightarrow> e \<in> set q \<Longrightarrow> snd e \<le> snd m"
proof (induction q arbitrary: m)
  case Nil
  then show ?case by simp
next
  case (Cons a q)
  show ?case
  proof (cases "qPeek q")
    case None
    then have "q = []" by (simp add: qPeek_None)
    with Cons.prems show ?thesis by auto
  next
    case (Some m')
    have ih: "e \<in> set q \<Longrightarrow> snd e \<le> snd m'" using Cons.IH[OF Some] .
    from Cons.prems Some show ?thesis
      using ih by (auto split: if_splits)
  qed
qed

lemma getPageToInsert_spaces:
  assumes "getPageToInsert d t = Inr ((pid, sl), d')"
  shows "0 < sl"
proof -
  from assms obtain q tp where q: "tablePageSpaces d t = Some q" and tp: "qPeek q = Some tp"
    by (auto simp: getPageToInsert_def split: option.splits)
  show ?thesis
  proof (cases "snd tp = 0")
    case False
    with assms q tp have "(pid, sl) = tp"
      by (auto simp: getPageToInsert_def qPoll_def bindE_def split: option.splits)
    with False show ?thesis by auto
  next
    case True
    with assms q tp obtain q1 where q1: "qPeek q1 = Some (pid, sl)"
      and mem: "(nextId d, spacesLeft []) \<in> set q1"
      by (auto simp: getPageToInsert_def qPoll_def bindE_def addNewPageToTable_def Let_def
          qAdd_def split: option.splits)
    from qPeek_max[OF q1 mem] show ?thesis
      by (simp add: spacesLeft_def maxNoOfRecsPerFile_def)
  qed
qed

function insertRecordsLoop :: "string \<Rightarrow> rcd list \<Rightarrow> db \<Rightarrow> error + db" where
  "insertRecordsLoop t rs d =
     (if rs = [] then Inr d
      else
        bindE (getPageToInsert d t) (\<lambda>((pid, sl), d1).
          bindE (ensurePage d1 (tables d1 t) pid) (\<lambda>d2.
            bindE (fillPage t pid sl rs d2) (\<lambda>(rest, d3).
              bindE (queueAdd d3 t pid) (\<lambda>d4. insertRecordsLoop t rest d4)))))"
  by pat_completeness auto
termination
  apply (relation "measure (\<lambda>(t, rs, d). length rs)")
   apply simp
  apply (clarsimp)
  apply (frule getPageToInsert_spaces)
  apply (drule fillPage_length)
  apply (case_tac rs)
   apply auto
  done

definition insertRecords :: "db \<Rightarrow> string \<Rightarrow> rcd list \<Rightarrow> error + db" where
  "insertRecords d t records = insertRecordsLoop t records d"

definition isTableHashed :: "db \<Rightarrow> string \<Rightarrow> string \<Rightarrow> error + bool" where
  "isTableHashed d t col =
     (case tableHashes d t of None \<Rightarrow> Inl TypeError | Some hashedCols \<Rightarrow> Inr (hashedCols col \<noteq> None))"

text \<open>
  \<open>hashTable\<close>: \<open>hashPage\<close> is the loop over the records of one page, \<open>hashPages\<close>
  the loop over the pages of the table. Every call of the repository passes
  \<open>isNew = true\<close>; with \<open>isNew = false\<close> the old index is extended. For a column that
  was never hashed the code then reads \<open>undefined\<close> as the old index: it fails at the
  first stored record and, when the table holds no record, stores \<open>undefined\<close> as the
  index. The model raises in both cases, so it has no state with such an index.
\<close>

fun hashPage :: "string \<Rightarrow> nat \<Rightarrow> nat \<Rightarrow> rcd list \<Rightarrow> hashIndex \<Rightarrow> hashIndex" where
  "hashPage col pid i [] ix = ix"
| "hashPage col pid i (r # rs) ix =
     (let colVal = getField r col in
      hashPage col pid (Suc i) rs
        (case idxGet ix colVal of
           None \<Rightarrow> idxSet ix colVal [(pid, i)]
         | Some ls \<Rightarrow> idxSet ix colVal (ls @ [(pid, i)])))"

fun hashPages ::
  "string \<Rightarrow> nat list option \<Rightarrow> nat list \<Rightarrow> hashIndex \<Rightarrow> db \<Rightarrow> error + (hashIndex \<times> db)" where
  "hashPages col table [] ix d = Inr (ix, d)"
| "hashPages col table (pid # pids) ix d =
     bindE (ensurePage d table pid) (\<lambda>d1.
       bindE (getPageContents d1 pid) (\<lambda>(rs, d2).
         hashPages col table pids (hashPage col pid 0 rs ix) d2))"

definition hashTable :: "db \<Rightarrow> string \<Rightarrow> string \<Rightarrow> bool \<Rightarrow> error + db" where
  "hashTable d t col isNew =
     bindE
       (if isNew then Inr []
        else case tableHashes d t of
               None \<Rightarrow> Inl TypeError
             | Some h \<Rightarrow> (case h col of None \<Rightarrow> Inl TypeError | Some ix \<Rightarrow> Inr ix))
       (\<lambda>ix0.
          case tables d t of
            None \<Rightarrow> Inl TypeError
          | Some pids \<Rightarrow>
              bindE (hashPages col (Some pids) pids ix0 d) (\<lambda>(ix, d1).
                case tableHashes d1 t of
                  None \<Rightarrow> Inl TypeError
                | Some h \<Rightarrow> Inr (d1\<lparr>tableHashes := (tableHashes d1)(t \<mapsto> h(col \<mapsto> ix))\<rparr>)))"

text \<open>
  \<open>insertUniqueRecordsById\<close>: \<open>insertUnique\<close> is the body of the \<open>forEach\<close>. The
  index is the live object held under \<open>_id\<close>, so each accepted record is visible to
  the test of the next one. The record is stored as it is.
\<close>

definition insertUnique :: "string \<Rightarrow> rcd \<Rightarrow> db \<Rightarrow> error + db" where
  "insertUnique t r d =
     (case tableHashes d t of
        None \<Rightarrow> Inl TypeError
      | Some h \<Rightarrow>
          (case h ''_id'' of
             None \<Rightarrow> Inl TypeError
           | Some hashIndex \<Rightarrow>
               if idxHas hashIndex (getField r ''_id'') then Inr d
               else
                 bindE (getPageToInsert d t) (\<lambda>((pid, sl), d1).
                   bindE (ensurePage d1 (tables d1 t) pid) (\<lambda>d2.
                     bindE (insertRecord d2 pid r) (\<lambda>(i, d3).
                       bindE (queueAdd d3 t pid) (\<lambda>d4.
                         Inr (d4\<lparr>tableHashes :=
                                   (tableHashes d4)(t \<mapsto>
                                     h(''_id'' \<mapsto>
                                       idxSet hashIndex (getField r ''_id'') [(pid, i)]))\<rparr>)))))))"

fun forEachE :: "('a \<Rightarrow> db \<Rightarrow> error + db) \<Rightarrow> 'a list \<Rightarrow> db \<Rightarrow> error + db" where
  "forEachE f [] d = Inr d"
| "forEachE f (x # xs) d = bindE (f x d) (forEachE f xs)"

definition insertUniqueRecordsById :: "db \<Rightarrow> string \<Rightarrow> rcd list \<Rightarrow> error + db" where
  "insertUniqueRecordsById d t records =
     bindE (isTableHashed d t ''_id'') (\<lambda>hashed.
       bindE (if \<not> hashed then hashTable d t ''_id'' True else Inr d) (\<lambda>d1.
         forEachE (insertUnique t) records d1))"

text \<open>\<open>clearTable\<close>: \<open>clearPages\<close> is the \<open>forEach\<close> over the pages of the table.\<close>

fun clearPages :: "nat list \<Rightarrow> queue \<Rightarrow> db \<Rightarrow> error + (queue \<times> db)" where
  "clearPages [] newTableSpaces d = Inr (newTableSpaces, d)"
| "clearPages (pid # pids) newTableSpaces d =
     bindE (clearPage (if hasPage d pid then d else addPage d pid) pid) (\<lambda>d1.
       clearPages pids (newTableSpaces @ [(pid, spacesLeft (pages d1 pid))]) d1)"

definition clearTable :: "db \<Rightarrow> string \<Rightarrow> error + db" where
  "clearTable d t =
     (case tables d t of
        None \<Rightarrow> Inl TypeError
      | Some pids \<Rightarrow>
          bindE (clearPages pids [] d) (\<lambda>(newTableSpaces, d1).
            case tablePageSpaces d1 t of
              None \<Rightarrow> Inl TypeError
            | Some q \<Rightarrow>
                Inr (d1\<lparr>tablePageSpaces := (tablePageSpaces d1)(t \<mapsto> newTableSpaces),
                        tableHashes := (tableHashes d1)(t \<mapsto> Map.empty)\<rparr>)))"

definition dropTable :: "db \<Rightarrow> string \<Rightarrow> error + db" where
  "dropTable d t =
     (if tables d t \<noteq> None then
        bindE (clearTable d t) (\<lambda>d1.
          Inr (d1\<lparr>tables := (tables d1)(t := None),
                  tablePageSpaces := (tablePageSpaces d1)(t := None),
                  tableHashes := (tableHashes d1)(t := None),
                  tableCols := (tableCols d1)(t := None)\<rparr>))
      else Inr d)"

text \<open>
  The generators are modelled by the list of the records they yield, together with the
  state after the buffer accesses they make. \<open>scanPages\<close> is the loop of
  \<open>getAllRecords\<close> over the page ids.
\<close>

fun scanPages :: "nat list option \<Rightarrow> nat list \<Rightarrow> db \<Rightarrow> error + (rcd list \<times> db)" where
  "scanPages table [] d = Inr ([], d)"
| "scanPages table (pid # pids) d =
     bindE (ensurePage d table pid) (\<lambda>d1.
       bindE (getPageContents d1 pid) (\<lambda>(rs, d2).
         bindE (scanPages table pids d2) (\<lambda>(rest, d3). Inr (rs @ rest, d3))))"

definition getAllRecords :: "db \<Rightarrow> string \<Rightarrow> error + (rcd list \<times> db)" where
  "getAllRecords d t =
     (case tables d t of None \<Rightarrow> Inl TypeError | Some pids \<Rightarrow> scanPages (Some pids) pids d)"

definition filterRecords :: "db \<Rightarrow> string \<Rightarrow> (rcd \<Rightarrow> bool) \<Rightarrow> error + (rcd list \<times> db)" where
  "filterRecords d t filterFunction =
     bindE (getAllRecords d t) (\<lambda>(rs, d1). Inr (filter filterFunction rs, d1))"

definition getTableKeys :: "db \<Rightarrow> string \<Rightarrow> error + string list" where
  "getTableKeys d t = (case tableCols d t of None \<Rightarrow> Inl TypeError | Some cs \<Rightarrow> Inr cs)"

definition getNumberOfEntries :: "db \<Rightarrow> string \<Rightarrow> error + int" where
  "getNumberOfEntries d t =
     (case tables d t of
        None \<Rightarrow> Inl TypeError
      | Some pids \<Rightarrow>
          (case tablePageSpaces d t of
             None \<Rightarrow> Inl TypeError
           | Some q \<Rightarrow>
               Inr (int (maxNoOfRecsPerFile * length pids) - (\<Sum>e\<leftarrow>q. int (snd e)))))"

text \<open>
  \<open>fetchLocs\<close> is the loop that turns a locator list into records through the buffer.
\<close>

fun fetchLocs :: "nat list option \<Rightarrow> locator list \<Rightarrow> db \<Rightarrow> error + (rcd list \<times> db)" where
  "fetchLocs table [] d = Inr ([], d)"
| "fetchLocs table ((pid, i) # ls) d =
     bindE (ensurePage d table pid) (\<lambda>d1.
       bindE (getPageRecord d1 pid i) (\<lambda>(r, d2).
         bindE (fetchLocs table ls d2) (\<lambda>(rest, d3). Inr (r # rest, d3))))"

fun fetchKeys ::
  "nat list option \<Rightarrow> hashIndex \<Rightarrow> val list \<Rightarrow> db \<Rightarrow> error + (rcd list \<times> db)" where
  "fetchKeys table ix [] d = Inr ([], d)"
| "fetchKeys table ix (v # vs) d =
     (case idxGet ix v of
        None \<Rightarrow> Inl TypeError
      | Some ls \<Rightarrow>
          bindE (fetchLocs table ls d) (\<lambda>(rs, d1).
            bindE (fetchKeys table ix vs d1) (\<lambda>(rest, d2). Inr (rs @ rest, d2))))"

definition getRecsFromHash ::
  "db \<Rightarrow> string \<Rightarrow> string \<Rightarrow> string \<Rightarrow> val \<Rightarrow> error + (rcd list \<times> db)" where
  "getRecsFromHash d t col op rhs =
     bindE (isTableHashed d t col) (\<lambda>hashed.
       if \<not> hashed then Inl TableNotHashed
       else
         case tableHashes d t of
           None \<Rightarrow> Inl TypeError
         | Some h \<Rightarrow>
             (case h col of
                None \<Rightarrow> Inl TypeError
              | Some hashIndex \<Rightarrow>
                  if op = ''='' then
                    (if \<not> idxHas hashIndex rhs then Inr ([], d)
                     else fetchKeys (tables d t) hashIndex [rhs] d)
                  else if op = ''>'' then
                    fetchKeys (tables d t) hashIndex
                      (filter (\<lambda>key. jsGt key rhs) (idxKeys hashIndex)) d
                  else Inl UnexpectedOperator))"

definition hasValue :: "db \<Rightarrow> string \<Rightarrow> string \<Rightarrow> val \<Rightarrow> error + bool" where
  "hasValue d t col v =
     bindE (isTableHashed d t col) (\<lambda>hashed.
       if \<not> hashed then Inl TableNotHashed
       else
         case tableHashes d t of
           None \<Rightarrow> Inl TypeError
         | Some h \<Rightarrow> (case h col of None \<Rightarrow> Inl TypeError | Some ix \<Rightarrow> Inr (idxHas ix v)))"

section \<open>Join engine\<close>

text \<open>
  A projection entry is \<open>(colNameDst, srcTName, srcCName)\<close>. \<open>projectInto\<close> is the
  \<open>forEach\<close> over the projection, with the \<open>switch\<close> on the source table name:
  the first operand is tested first.
\<close>

type_synonym projection = "(string \<times> string \<times> string) list"

fun projectInto :: "string \<Rightarrow> string \<Rightarrow> projection \<Rightarrow> rcd \<Rightarrow> rcd \<Rightarrow> rcd \<Rightarrow> error + rcd" where
  "projectInto t1 t2 [] rec1 rec2 res = Inr res"
| "projectInto t1 t2 ((colNameDst, srcTName, srcCName) # ps) rec1 rec2 res =
     (if srcTName = t1 then
        projectInto t1 t2 ps rec1 rec2 (setField res colNameDst (getField rec1 srcCName))
      else if srcTName = t2 then
        projectInto t1 t2 ps rec1 rec2 (setField res colNameDst (getField rec2 srcCName))
      else Inl UnexpectedProjection)"

text \<open>
  The text that a template literal makes of a scalar; for a number, the decimal digits
  that JavaScript writes for the integers below \<open>10^21\<close> in magnitude.
\<close>

fun digitsOf :: "nat \<Rightarrow> string" where
  "digitsOf n =
     (if n < 10 then [char_of (48 + n)] else digitsOf (n div 10) @ [char_of (48 + n mod 10)])"

definition toStr :: "val \<Rightarrow> string" where
  "toStr v =
     (case v of
        VStr s \<Rightarrow> s
      | VNum n \<Rightarrow> (if n < 0 then CHR ''-'' # digitsOf (nat (- n)) else digitsOf (nat n))
      | VUndef \<Rightarrow> ''undefined'')"

definition joinRow ::
  "string \<Rightarrow> string \<Rightarrow> projection \<Rightarrow> bool \<Rightarrow> rcd \<times> rcd \<Rightarrow> error + rcd" where
  "joinRow t1 t2 proj shouldGenPairId p =
     (case p of (rec1, rec2) \<Rightarrow>
        bindE (projectInto t1 t2 proj rec1 rec2 []) (\<lambda>res.
          Inr (if shouldGenPairId then
                 setField
                   (setField
                      (setField res ''_id''
                         (VStr (toStr (getField rec1 ''_id'') @ ''|'' @ toStr (getField rec2 ''_id''))))
                      (''_id'' @ t1) (getField rec1 ''_id''))
                   (''_id'' @ t2) (getField rec2 ''_id'')
               else res)))"

fun mapE :: "('a \<Rightarrow> error + 'b) \<Rightarrow> 'a list \<Rightarrow> error + 'b list" where
  "mapE f [] = Inr []"
| "mapE f (x # xs) = bindE (f x) (\<lambda>y. bindE (mapE f xs) (\<lambda>ys. Inr (y # ys)))"

definition opMatch :: "string \<Rightarrow> val \<Rightarrow> val \<Rightarrow> bool" where
  "opMatch op val1 val2 =
     (if op = ''>'' then jsGt val1 val2 else if op = ''='' then looseEq val1 val2 else False)"

text \<open>
  \<open>hashJoinLoop\<close> is the loop over the keys of the first index: the records of the key,
  the records of the matching keys of the second index, and one output for each pair.
\<close>

fun hashJoinLoop ::
  "string \<Rightarrow> string \<Rightarrow> nat list option \<Rightarrow> nat list option \<Rightarrow> hashIndex \<Rightarrow> hashIndex \<Rightarrow>
   projection \<Rightarrow> string \<Rightarrow> bool \<Rightarrow> val list \<Rightarrow> db \<Rightarrow> error + (rcd list \<times> db)" where
  "hashJoinLoop t1 t2 table1 table2 index1 index2 proj op g [] d = Inr ([], d)"
| "hashJoinLoop t1 t2 table1 table2 index1 index2 proj op g (val1 # vals1) d =
     (case idxGet index1 val1 of
        None \<Rightarrow> Inl TypeError
      | Some ls1 \<Rightarrow>
          bindE (fetchLocs table1 ls1 d) (\<lambda>(recs1, d1).
            bindE (fetchKeys table2 index2
                     (filter (\<lambda>val2. opMatch op val1 val2) (idxKeys index2)) d1) (\<lambda>(recs2, d2).
              bindE (mapE (joinRow t1 t2 proj g) (List.product recs1 recs2)) (\<lambda>out.
                bindE (hashJoinLoop t1 t2 table1 table2 index1 index2 proj op g vals1 d2)
                  (\<lambda>(rest, d3). Inr (out @ rest, d3))))))"

definition ensureHashed :: "db \<Rightarrow> string \<Rightarrow> string \<Rightarrow> error + db" where
  "ensureHashed d t col =
     bindE (isTableHashed d t col) (\<lambda>hashed.
       if \<not> hashed then hashTable d t col True else Inr d)"

definition hashJoin ::
  "db \<Rightarrow> string \<Rightarrow> string \<Rightarrow> string \<Rightarrow> string \<Rightarrow> projection \<Rightarrow> string \<Rightarrow> bool \<Rightarrow>
   error + (rcd list \<times> db)" where
  "hashJoin d t1 c1 t2 c2 proj op shouldGenPairId =
     bindE (ensureHashed d t1 c1) (\<lambda>d1.
       bindE (ensureHashed d1 t2 c2) (\<lambda>d2.
         case tableHashes d2 t1 of
           None \<Rightarrow> Inl TypeError
         | Some h1 \<Rightarrow>
             (case tableHashes d2 t2 of
                None \<Rightarrow> Inl TypeError
              | Some h2 \<Rightarrow>
                  (case h1 c1 of
                     None \<Rightarrow> Inl TypeError
                   | Some index1 \<Rightarrow>
                       (case h2 c2 of
                          None \<Rightarrow> Inl TypeError
                        | Some index2 \<Rightarrow>
                            hashJoinLoop t1 t2 (tables d2 t1) (tables d2 t2) index1 index2
                              proj op shouldGenPairId (idxKeys index1) d2)))))"

text \<open>
  \<open>blockJoin\<close> asks \<open>DB.getAllRecords\<close> for its two scans. Inside the module \<open>DB\<close> is
  the class, and \<open>getAllRecords\<close> is a method of its instances, so the class has no
  such property: \<open>receiverGetAllRecords\<close> is what the property read gives for the
  class and for an instance (\<open>this\<close>). Calling \<open>undefined\<close> is a type error, raised
  when the generator is first pulled.

  The loop is modelled on the list of the outer records. It pushes every value that
  the outer scan returns onto the block, also the \<open>undefined\<close> that comes with
  \<open>done\<close>; a block is processed when it has \<open>blockJoinSize\<close> values or the scan is
  done. For a block one inner scan is opened before the loop over the block, so the
  first value of the block consumes it and the other values of the block find it
  exhausted.
\<close>

datatype receiver = TheClass | AnInstance

definition receiverGetAllRecords ::
  "receiver \<Rightarrow> (db \<Rightarrow> string \<Rightarrow> error + (rcd list \<times> db)) option" where
  "receiverGetAllRecords r = (case r of TheClass \<Rightarrow> None | AnInstance \<Rightarrow> Some getAllRecords)"

fun blockProject ::
  "string \<Rightarrow> string \<Rightarrow> projection \<Rightarrow> rcd option \<Rightarrow> rcd \<Rightarrow> rcd \<Rightarrow> error + rcd" where
  "blockProject t1 t2 [] rec1 rec2 res = Inr res"
| "blockProject t1 t2 ((colNameDst, srcTName, srcCName) # ps) rec1 rec2 res =
     (if srcTName = t1 then
        (case rec1 of
           None \<Rightarrow> Inl TypeError
         | Some r1 \<Rightarrow> blockProject t1 t2 ps rec1 rec2 (setField res colNameDst (getField r1 srcCName)))
      else if srcTName = t2 then
        blockProject t1 t2 ps rec1 rec2 (setField res colNameDst (getField rec2 srcCName))
      else Inl UnexpectedProjection)"

definition blockRow ::
  "string \<Rightarrow> string \<Rightarrow> projection \<Rightarrow> bool \<Rightarrow> rcd option \<Rightarrow> rcd \<Rightarrow> error + rcd" where
  "blockRow t1 t2 proj shouldGenPairId rec1 rec2 =
     bindE (blockProject t1 t2 proj rec1 rec2 []) (\<lambda>res.
       if shouldGenPairId then
         (case rec1 of
            None \<Rightarrow> Inl TypeError
          | Some r1 \<Rightarrow>
              Inr (setField (setField res (''_id'' @ t1) (getField r1 ''_id''))
                     (''_id'' @ t2) (getField rec2 ''_id'')))
       else Inr res)"

definition processBlock ::
  "(db \<Rightarrow> string \<Rightarrow> error + (rcd list \<times> db)) \<Rightarrow> string \<Rightarrow> string \<Rightarrow> projection \<Rightarrow> bool \<Rightarrow>
   rcd option list \<Rightarrow> db \<Rightarrow> error + (rcd list \<times> db)" where
  "processBlock scan t1 t2 proj g block d =
     bindE (scan d t2) (\<lambda>(recs2, d1).
       case block of
         [] \<Rightarrow> Inr ([], d1)
       | rec1 # others \<Rightarrow>
           bindE (mapE (blockRow t1 t2 proj g rec1) recs2) (\<lambda>out. Inr (out, d1)))"

fun blockLoop ::
  "(db \<Rightarrow> string \<Rightarrow> error + (rcd list \<times> db)) \<Rightarrow> string \<Rightarrow> string \<Rightarrow> projection \<Rightarrow> bool \<Rightarrow>
   rcd option list \<Rightarrow> rcd list \<Rightarrow> db \<Rightarrow> error + (rcd list \<times> db)" where
  "blockLoop scan t1 t2 proj g block [] d =
     processBlock scan t1 t2 proj g (block @ [None]) d"
| "blockLoop scan t1 t2 proj g block (r # rs) d =
     (if length (block @ [Some r]) = blockJoinSize then
        bindE (processBlock scan t1 t2 proj g (block @ [Some r]) d) (\<lambda>(out, d1).
          bindE (blockLoop scan t1 t2 proj g [] rs d1) (\<lambda>(rest, d2). Inr (out @ rest, d2)))
      else blockLoop scan t1 t2 proj g (block @ [Some r]) rs d)"

definition blockJoinVia ::
  "receiver \<Rightarrow> db \<Rightarrow> string \<Rightarrow> string \<Rightarrow> projection \<Rightarrow> bool \<Rightarrow> error + (rcd list \<times> db)" where
  "blockJoinVia recv d tableName1 tableName2 proj shouldGenPairId =
     (case receiverGetAllRecords recv of
        None \<Rightarrow> Inl TypeError
      | Some scan \<Rightarrow>
          bindE (scan d tableName1) (\<lambda>(recs1, d1).
            blockLoop scan tableName1 tableName2 proj shouldGenPairId [] recs1 d1))"

definition blockJoin ::
  "db \<Rightarrow> string \<Rightarrow> string \<Rightarrow> projection \<Rightarrow> bool \<Rightarrow> error + (rcd list \<times> db)" where
  "blockJoin d tableName1 tableName2 proj shouldGenPairId =
     blockJoinVia TheClass d tableName1 tableName2 proj shouldGenPairId"

section \<open>Records as objects\<close>

text \<open>
  The definitions above treat a record as a value. That is what the catalog and the
  evaluator see, since neither assigns to a record after it was stored or yielded. A
  caller can, and then it matters which object a page holds and which object a read
  hands out. Here a record is an object in a heap, a page is the array of the
  references it holds, and each function is the path of one record through the
  operation of the same name: \<open>Object.assign({}, r)\<close> and an object literal allocate a
  new object, everything else passes the reference on.
\<close>

type_synonym ref = nat

record heap =
  objs :: "ref \<Rightarrow> rcd"
  nextRef :: ref

type_synonym refPage = "ref list"

definition newObject :: "heap \<Rightarrow> rcd \<Rightarrow> ref \<times> heap" where
  "newObject h r = (nextRef h, h\<lparr>objs := (objs h)(nextRef h := r), nextRef := Suc (nextRef h)\<rparr>)"

definition assignProperty :: "heap \<Rightarrow> ref \<Rightarrow> string \<Rightarrow> val \<Rightarrow> heap" where
  "assignProperty h a k v = h\<lparr>objs := (objs h)(a := setField (objs h a) k v)\<rparr>"

definition refDirectAccess :: "heap \<Rightarrow> refPage \<Rightarrow> nat \<Rightarrow> error + (ref \<times> heap)" where
  "refDirectAccess h p i =
     (if length p \<le> i then Inl IndexOutOfBounds else Inr (newObject h (objs h (p ! i))))"

definition refIterator :: "refPage \<Rightarrow> ref list" where
  "refIterator p = p"

definition refPageInsertRecord :: "refPage \<Rightarrow> ref \<Rightarrow> (refPage \<times> nat) option" where
  "refPageInsertRecord p a =
     (if length p < maxNoOfRecsPerFile then Some (p @ [a], length p) else None)"

text \<open>
  \<open>insertRecords\<close> stores a copy of the record it is given (with an \<open>_id\<close> in front
  when it has none; \<open>newId\<close> is the id that \<open>nanoid\<close> gives);
  \<open>insertUniqueRecordsById\<close> stores the object it is given. \<open>getAllRecords\<close> and
  \<open>filterRecords\<close> yield what the page iterator yields; \<open>getRecsFromHash\<close> yields what
  \<open>directAccess\<close> returns.
\<close>

definition refInsertRecords ::
  "heap \<Rightarrow> refPage \<Rightarrow> string \<Rightarrow> ref \<Rightarrow> error + (refPage \<times> heap)" where
  "refInsertRecords h p newId a =
     (let (c, h1) = newObject h (objs h a);
          (c', h2) = (if hasKey (objs h1 c) ''_id'' then (c, h1)
                      else newObject h1 ((''_id'', VStr newId) # objs h1 c))
      in case refPageInsertRecord p c' of
           None \<Rightarrow> Inl PageFull
         | Some (p', i) \<Rightarrow> Inr (p', h2))"

definition refInsertUnique :: "heap \<Rightarrow> refPage \<Rightarrow> ref \<Rightarrow> error + (refPage \<times> heap)" where
  "refInsertUnique h p a =
     (case refPageInsertRecord p a of
        None \<Rightarrow> Inl PageFull
      | Some (p', i) \<Rightarrow> Inr (p', h))"

definition refGetAllRecords :: "refPage \<Rightarrow> ref list" where
  "refGetAllRecords p = refIterator p"

definition refFilterRecords :: "heap \<Rightarrow> refPage \<Rightarrow> (rcd \<Rightarrow> bool) \<Rightarrow> ref list" where
  "refFilterRecords h p filterFunction = filter (\<lambda>a. filterFunction (objs h a)) (refGetAllRecords p)"

text \<open>What a full scan of the page reads.\<close>

definition contents :: "heap \<Rightarrow> refPage \<Rightarrow> rcd list" where
  "contents h p = map (objs h) (refGetAllRecords p)"

definition emptyHeap :: heap where
  "emptyHeap = \<lparr> objs = (\<lambda>_. []), nextRef = 0 \<rparr>"

section \<open>Query terms\<close>

text \<open>
  A column is \<open>*\<close> or \<open>table.name\<close>; the operands of an operation are columns of the
  form \<open>table.name\<close> on the left and such a column or a constant on the right, as the
  grammar gives them.
\<close>

datatype column = Star | Col string string

datatype operand = RCol string string | RConst val

record operation =
  lhsTable :: string
  lhsName :: string
  rhs :: operand
  operator :: string

record qterm =
  cols :: "column list"
  fromTables :: "string list"
  ops :: "operation list option"

record withDecl =
  declName :: string
  declColumns :: "string list"

record query =
  withDecl :: withDecl
  nonrecTerm :: qterm
  recTerm :: qterm
  resultTableName :: string

definition parentTable :: "column \<Rightarrow> string option" where
  "parentTable c = (case c of Star \<Rightarrow> None | Col t n \<Rightarrow> Some t)"

definition colName :: "column \<Rightarrow> string option" where
  "colName c = (case c of Star \<Rightarrow> None | Col t n \<Rightarrow> Some n)"

definition hasBothSidesCols :: "operation \<Rightarrow> bool" where
  "hasBothSidesCols op = (case rhs op of RCol t n \<Rightarrow> True | RConst v \<Rightarrow> False)"

section \<open>JSON text\<close>

text \<open>
  \<open>JSON.stringify\<close> of a string, of a record and of a pair of names: the quote, the
  backslash and the control characters are escaped. A property whose value is
  \<open>undefined\<close> is left out. A pair of names stands for the array that \<open>JSON.parse\<close>
  gives back.
\<close>

definition hexDigit :: "nat \<Rightarrow> char" where
  "hexDigit n = (if n < 10 then char_of (48 + n) else char_of (87 + n))"

definition jsonEscapeChar :: "char \<Rightarrow> string" where
  "jsonEscapeChar c =
     (if c = CHR 0x22 \<or> c = CHR 0x5C then [CHR 0x5C, c]
      else if c = CHR 0x08 then [CHR 0x5C, CHR ''b'']
      else if c = CHR 0x09 then [CHR 0x5C, CHR ''t'']
      else if c = CHR 0x0A then [CHR 0x5C, CHR ''n'']
      else if c = CHR 0x0C then [CHR 0x5C, CHR ''f'']
      else if c = CHR 0x0D then [CHR 0x5C, CHR ''r'']
      else if (of_char c :: nat) < 32 then
        [CHR 0x5C, CHR ''u'', CHR ''0'', CHR ''0'',
         hexDigit ((of_char c :: nat) div 16), hexDigit ((of_char c :: nat) mod 16)]
      else [c])"

definition jsonEscape :: "string \<Rightarrow> string" where
  "jsonEscape s = concat (map jsonEscapeChar s)"

definition jsonString :: "string \<Rightarrow> string" where
  "jsonString s = CHR 0x22 # jsonEscape s @ [CHR 0x22]"

definition jsonValue :: "val \<Rightarrow> string" where
  "jsonValue v = (case v of VStr s \<Rightarrow> jsonString s | VNum n \<Rightarrow> toStr (VNum n) | VUndef \<Rightarrow> [])"

fun jsonMembers :: "rcd \<Rightarrow> string list" where
  "jsonMembers [] = []"
| "jsonMembers ((k, v) # r) =
     (if v = VUndef then jsonMembers r else (jsonString k @ '':'' @ jsonValue v) # jsonMembers r)"

fun joinWith :: "string \<Rightarrow> string list \<Rightarrow> string" where
  "joinWith sep [] = []"
| "joinWith sep [x] = x"
| "joinWith sep (x # y # ys) = x @ sep @ joinWith sep (y # ys)"

definition jsonStringify :: "rcd \<Rightarrow> string" where
  "jsonStringify r = ''{'' @ joinWith '','' (jsonMembers r) @ ''}''"

definition sortPair :: "string \<Rightarrow> string \<Rightarrow> string \<times> string" where
  "sortPair a b = (if strGt a b then (b, a) else (a, b))"

definition compositeId :: "string \<times> string \<Rightarrow> string" where
  "compositeId p = ''['' @ jsonString (fst p) @ '','' @ jsonString (snd p) @ '']''"

section \<open>Recursive evaluator\<close>

definition startsWithId :: "string \<Rightarrow> bool" where
  "startsWithId key = (take 3 key = ''_id'')"

definition deleteIds :: "rcd \<Rightarrow> rcd" where
  "deleteIds record = filter (\<lambda>kv. \<not> startsWithId (fst kv)) record"

definition addRecordAsId :: "rcd \<Rightarrow> rcd" where
  "addRecordAsId record = setField record ''_id'' (VStr (jsonStringify record))"

text \<open>\<open>getNonIdCols\<close> reads the column list and returns nothing.\<close>

definition getNonIdCols :: "db \<Rightarrow> string \<Rightarrow> error + string list option" where
  "getNonIdCols d tName = bindE (getTableKeys d tName) (\<lambda>keys. Inr None)"

definition spread :: "'a list option \<Rightarrow> error + 'a list" where
  "spread xs = (case xs of None \<Rightarrow> Inl TypeError | Some ys \<Rightarrow> Inr ys)"

definition freshName :: "db \<Rightarrow> string \<times> db" where
  "freshName d = (idString (nextId d), d\<lparr>nextId := Suc (nextId d)\<rparr>)"

definition createRecursiveTable :: "db \<Rightarrow> withDecl \<Rightarrow> error + (string \<times> db)" where
  "createRecursiveTable d w =
     bindE (addTable d (declName w) (declColumns w)) (\<lambda>(b, d1). Inr (declName w, d1))"

text \<open>
  \<open>constructFilter\<close>, called with two arguments: the third, \<open>currObj\<close>, is the empty
  object, so a column on the right reads \<open>undefined\<close>. The column list is read once
  for every operation.
\<close>

fun constructFilter :: "db \<Rightarrow> operation list \<Rightarrow> string \<Rightarrow> error + (rcd \<Rightarrow> bool) list" where
  "constructFilter d [] tableName = Inr []"
| "constructFilter d (op # os) tableName =
     bindE (getTableKeys d tableName) (\<lambda>tableCols.
       bindE
         (if tableName = lhsTable op \<and> lhsName op \<in> set tableCols \<and> lhsName op \<noteq> [] then
            (let rhsVal = (case rhs op of RCol t n \<Rightarrow> VUndef | RConst v \<Rightarrow> v) in
             if operator op = ''='' then
               Inr [\<lambda>record. looseEq (getField record (lhsName op)) rhsVal]
             else if operator op = ''>'' then
               Inr [\<lambda>record. jsGt (getField record (lhsName op)) rhsVal]
             else Inl UnexpectedOperator)
          else Inr [])
         (\<lambda>f. bindE (constructFilter d os tableName) (\<lambda>fs. Inr (f @ fs))))"

definition filterOf :: "(rcd \<Rightarrow> bool) list \<Rightarrow> rcd \<Rightarrow> bool" where
  "filterOf filters record = list_all (\<lambda>f. f record) filters"

text \<open>
  A loop \<open>for (const rec of DB.getAllRecords(t))\<close> whose body writes to the database:
  the generator takes the page ids when it starts and the records of a page when it
  reaches the page, so the body runs between the reads.
\<close>

fun forPages ::
  "nat list option \<Rightarrow> nat list \<Rightarrow> (rcd \<Rightarrow> db \<Rightarrow> error + db) \<Rightarrow> db \<Rightarrow> error + db" where
  "forPages table [] f d = Inr d"
| "forPages table (pid # pids) f d =
     bindE (ensurePage d table pid) (\<lambda>d1.
       bindE (getPageContents d1 pid) (\<lambda>(rs, d2).
         bindE (forEachE f rs d2) (forPages table pids f)))"

definition forAllRecords :: "string \<Rightarrow> (rcd \<Rightarrow> db \<Rightarrow> error + db) \<Rightarrow> db \<Rightarrow> error + db" where
  "forAllRecords t f d =
     (case tables d t of None \<Rightarrow> Inl TypeError | Some pids \<Rightarrow> forPages (Some pids) pids f d)"

text \<open>The branch of \<open>executeTerm\<close> for a column list of length one.\<close>

definition emitRecord :: "string \<Rightarrow> string \<Rightarrow> rcd \<Rightarrow> db \<Rightarrow> error + db" where
  "emitRecord tempTableName resultName res d =
     bindE (insertUniqueRecordsById d tempTableName [res]) (\<lambda>d1.
       insertUniqueRecordsById d1 resultName [res])"

definition selectAll :: "qterm \<Rightarrow> string \<Rightarrow> string \<Rightarrow> db \<Rightarrow> error + db" where
  "selectAll tm tempTableName resultName d =
     (case fromTables tm of
        [] \<Rightarrow> Inl TypeError
      | tableName # others \<Rightarrow>
          bindE (case ops tm of
                   None \<Rightarrow> Inr []
                 | Some os \<Rightarrow> constructFilter d os tableName) (\<lambda>filters.
            bindE (clearTable d tempTableName) (\<lambda>d1.
              forAllRecords tableName
                (\<lambda>record d2.
                   if filterOf filters record then
                     emitRecord tempTableName resultName (addRecordAsId (deleteIds record)) d2
                   else Inr d2) d1)))"
section \<open>Terms with a column list\<close>

text \<open>
  The maps of the evaluator are association lists in insertion order. The key of
  \<open>compositeOps\<close> is kept as the sorted pair of table names; \<open>compositeId\<close> is its JSON
  text, the name of the pair table, and the pair is what \<open>JSON.parse\<close> gives back.
\<close>

fun mapPush :: "('k \<times> 'v list) list \<Rightarrow> 'k \<Rightarrow> 'v \<Rightarrow> ('k \<times> 'v list) list" where
  "mapPush [] k v = [(k, [v])]"
| "mapPush ((k', vs) # m) k v =
     (if k' = k then (k', vs @ [v]) # m else (k', vs) # mapPush m k v)"

text \<open>
  \<open>groupedCols\<close>: the test \<open>parentTable in groupedCols\<close> asks for a property of the
  Map object, not for a key of the map, so it holds for the names in \<open>mapProperties\<close>
  only, and for every other name the list is set anew.
\<close>

definition mapProperties :: "string list" where
  "mapProperties =
     [''constructor'', ''get'', ''set'', ''has'', ''delete'', ''clear'', ''entries'', ''forEach'',
      ''keys'', ''values'', ''size'', ''hasOwnProperty'', ''isPrototypeOf'',
      ''propertyIsEnumerable'', ''toLocaleString'', ''toString'', ''valueOf'', ''__proto__'',
      ''__defineGetter__'', ''__defineSetter__'', ''__lookupGetter__'', ''__lookupSetter__'']"

definition inMapObject :: "string option \<Rightarrow> bool" where
  "inMapObject key = (case key of None \<Rightarrow> False | Some t \<Rightarrow> t \<in> set mapProperties)"

fun groupCols ::
  "column list \<Rightarrow> (string option \<rightharpoonup> column list) \<Rightarrow> error + (string option \<rightharpoonup> column list)" where
  "groupCols [] g = Inr g"
| "groupCols (col # cs) g =
     (let g1 = (if \<not> inMapObject (parentTable col) then g(parentTable col \<mapsto> []) else g) in
      case g1 (parentTable col) of
        None \<Rightarrow> Inl TypeError
      | Some l \<Rightarrow> groupCols cs (g1(parentTable col \<mapsto> l @ [col])))"

text \<open>
  The column list of a table made from \<open>Column\<close> objects holds the objects; the model
  keeps their text.
\<close>

definition columnText :: "column \<Rightarrow> string" where
  "columnText c = (case c of Star \<Rightarrow> ''*'' | Col t n \<Rightarrow> t @ ''.'' @ n)"

definition rhsColumn :: "operation \<Rightarrow> (string \<times> string) option" where
  "rhsColumn op = (case rhs op of RCol t n \<Rightarrow> Some (t, n) | RConst v \<Rightarrow> None)"

definition rhsConst :: "operation \<Rightarrow> val" where
  "rhsConst op = (case rhs op of RCol t n \<Rightarrow> VUndef | RConst v \<Rightarrow> v)"

text \<open>\<open>sortOps\<close>: the loop over the operations, then the tables without operations.\<close>

type_synonym simpleOps = "(string \<times> operation list) list"

type_synonym compositeOps = "((string \<times> string) \<times> operation list) list"

fun sortOpsLoop ::
  "operation list \<Rightarrow> simpleOps \<times> compositeOps \<times> string list \<Rightarrow>
   simpleOps \<times> compositeOps \<times> string list" where
  "sortOpsLoop [] acc = acc"
| "sortOpsLoop (op # os) (simple, composite, tablesWithOps) =
     (case rhsColumn op of
        Some (rhsParentTable, rhsName) \<Rightarrow>
          sortOpsLoop os
            (simple, mapPush composite (sortPair (lhsTable op) rhsParentTable) op,
             tablesWithOps @ [lhsTable op, rhsParentTable])
      | None \<Rightarrow>
          sortOpsLoop os
            (mapPush simple (lhsTable op) op, composite, tablesWithOps @ [lhsTable op]))"

definition sortOps :: "qterm \<Rightarrow> simpleOps \<times> compositeOps \<times> string list" where
  "sortOps tm =
     (case sortOpsLoop (case ops tm of None \<Rightarrow> [] | Some os \<Rightarrow> os) ([], [], []) of
        (simple, composite, tablesWithOps) \<Rightarrow>
          (simple, composite, filter (\<lambda>tableName. tableName \<notin> set tablesWithOps) (fromTables tm)))"

text \<open>
  Merging the temporary tables of one table or pair into \<open>target\<close>: a copy of the only
  one, or the records of the first that every other one has under \<open>_id\<close>.
\<close>

definition copyUnique :: "string \<Rightarrow> rcd \<Rightarrow> db \<Rightarrow> error + db" where
  "copyUnique target rec d = insertUniqueRecordsById d target [rec]"

fun everyHasValue :: "db \<Rightarrow> string list \<Rightarrow> val \<Rightarrow> error + bool" where
  "everyHasValue d [] v = Inr True"
| "everyHasValue d (rtName # rts) v =
     bindE (hasValue d rtName ''_id'' v) (\<lambda>b. if b then everyHasValue d rts v else Inr False)"

definition mergeTemps :: "string list \<Rightarrow> string \<Rightarrow> db \<Rightarrow> error + db" where
  "mergeTemps tempTables target d =
     (case tempTables of
        [] \<Rightarrow> Inl TypeError
      | [only] \<Rightarrow> forAllRecords only (copyUnique target) d
      | firstTempTableName # remainingTables \<Rightarrow>
          forAllRecords firstTempTableName
            (\<lambda>rec d1.
               bindE (everyHasValue d1 remainingTables (getField rec ''_id'')) (\<lambda>b.
                 if b then copyUnique target rec d1 else Inr d1)) d)"

definition dropAll :: "string list \<Rightarrow> db \<Rightarrow> error + db" where
  "dropAll names d = forEachE (\<lambda>t d1. dropTable d1 t) names d"

text \<open>The simplification of one table by its operations against constants.\<close>

definition simpleOpTable :: "string \<Rightarrow> operation \<Rightarrow> db \<Rightarrow> error + (string \<times> db)" where
  "simpleOpTable tName op d =
     (case freshName d of (tTableName, d0) \<Rightarrow>
        bindE (getTableKeys d0 tName) (\<lambda>keys.
          bindE (addTable d0 tTableName keys) (\<lambda>(b, d1).
            bindE (ensureHashed d1 tName (lhsName op)) (\<lambda>d2.
              bindE (getRecsFromHash d2 tName (lhsName op) (operator op) (rhsConst op)) (\<lambda>(recs, d3).
                bindE (forEachE (copyUnique tTableName) recs d3) (\<lambda>d4. Inr (tTableName, d4)))))))"

fun simpleOpTables :: "string \<Rightarrow> operation list \<Rightarrow> db \<Rightarrow> error + (string list \<times> db)" where
  "simpleOpTables tName [] d = Inr ([], d)"
| "simpleOpTables tName (op # os) d =
     bindE (simpleOpTable tName op d) (\<lambda>(tTableName, d1).
       bindE (simpleOpTables tName os d1) (\<lambda>(rest, d2). Inr (tTableName # rest, d2)))"

definition simplifyTable :: "string \<Rightarrow> operation list \<Rightarrow> db \<Rightarrow> error + (string \<times> db)" where
  "simplifyTable tName os d =
     (case freshName d of (simplifiedTableId, d0) \<Rightarrow>
        bindE (getTableKeys d0 tName) (\<lambda>keys.
          bindE (addTable d0 simplifiedTableId keys) (\<lambda>(b, d1).
            bindE (simpleOpTables tName os d1) (\<lambda>(tempTables, d2).
              bindE (mergeTemps tempTables simplifiedTableId d2) (\<lambda>d3.
                bindE (dropAll tempTables d3) (\<lambda>d4. Inr (simplifiedTableId, d4)))))))"

fun simplifyTables ::
  "simpleOps \<Rightarrow> (string \<rightharpoonup> string) \<Rightarrow> db \<Rightarrow> error + ((string \<rightharpoonup> string) \<times> db)" where
  "simplifyTables [] tableNameMap d = Inr (tableNameMap, d)"
| "simplifyTables ((tName, os) # rest) tableNameMap d =
     bindE (simplifyTable tName os d) (\<lambda>(simplifiedTableId, d1).
       simplifyTables rest (tableNameMap(tName \<mapsto> simplifiedTableId)) d1)"

text \<open>
  The projection pairs the columns of the working table with the columns of the term
  by position; a working table with more columns than the term reads past the end.
\<close>

fun buildProj :: "string list \<Rightarrow> column list \<Rightarrow> error + (string \<times> column) list" where
  "buildProj [] columns = Inr []"
| "buildProj (tcName # tcs) [] = Inl TypeError"
| "buildProj (tcName # tcs) (c # cs) =
     bindE (buildProj tcs cs) (\<lambda>rest. Inr ((tcName, c) # rest))"

definition filterProj :: "(string \<times> column) list \<Rightarrow> string \<Rightarrow> string \<Rightarrow> projection" where
  "filterProj proj lhsParentTable rhsParentTable =
     concat (map (\<lambda>(colNameDst, c).
                    case c of
                      Star \<Rightarrow> []
                    | Col t n \<Rightarrow>
                        if t = lhsParentTable \<or> t = rhsParentTable then [(colNameDst, t, n)] else [])
              proj)"

text \<open>
  The loop over the joined records of one operation between two columns, with its
  guard: both operands are the table names after simplification.
\<close>

definition insertJoined :: "string \<Rightarrow> string \<Rightarrow> string \<Rightarrow> rcd \<Rightarrow> db \<Rightarrow> error + db" where
  "insertJoined src1 src2 tTableName joinedRec d =
     (if src1 = src2 \<and> getField joinedRec (''_id'' @ src1) \<noteq> getField joinedRec (''_id'' @ src2)
      then Inr d
      else insertRecords d tTableName [joinedRec])"

definition pairOpTable ::
  "(string option \<rightharpoonup> column list) \<Rightarrow> (string \<times> column) list \<Rightarrow> (string \<rightharpoonup> string) \<Rightarrow>
   operation \<Rightarrow> db \<Rightarrow> error + (string \<times> db)" where
  "pairOpTable groupedCols proj tableNameMap pairOp d =
     (case rhsColumn pairOp of
        None \<Rightarrow> Inl TypeError
      | Some (rhsParentTable, rhsName) \<Rightarrow>
          (case freshName d of (tTableName, d0) \<Rightarrow>
             bindE (spread (groupedCols (Some (lhsTable pairOp)))) (\<lambda>cs1.
               bindE (spread (groupedCols (Some rhsParentTable))) (\<lambda>cs2.
                 bindE (addTable d0 tTableName (map columnText (cs1 @ cs2))) (\<lambda>(b, d1).
                   case tableNameMap (lhsTable pairOp) of
                     None \<Rightarrow> Inl TypeError
                   | Some src1 \<Rightarrow>
                       (case tableNameMap rhsParentTable of
                          None \<Rightarrow> Inl TypeError
                        | Some src2 \<Rightarrow>
                            bindE (hashJoin d1 src1 (lhsName pairOp) src2 rhsName
                                     (filterProj proj (lhsTable pairOp) rhsParentTable)
                                     (operator pairOp) True) (\<lambda>(joined, d2).
                              bindE (forEachE (insertJoined src1 src2 tTableName) joined d2) (\<lambda>d3.
                                bindE (hashTable d3 tTableName ''_id'' True) (\<lambda>d4.
                                  Inr (tTableName, d4))))))))))"

fun pairOpTables ::
  "(string option \<rightharpoonup> column list) \<Rightarrow> (string \<times> column) list \<Rightarrow> (string \<rightharpoonup> string) \<Rightarrow>
   operation list \<Rightarrow> db \<Rightarrow> error + (string list \<times> db)" where
  "pairOpTables groupedCols proj tableNameMap [] d = Inr ([], d)"
| "pairOpTables groupedCols proj tableNameMap (pairOp # os) d =
     bindE (pairOpTable groupedCols proj tableNameMap pairOp d) (\<lambda>(tTableName, d1).
       bindE (pairOpTables groupedCols proj tableNameMap os d1) (\<lambda>(rest, d2).
         Inr (tTableName # rest, d2)))"

definition compositeTable ::
  "(string option \<rightharpoonup> column list) \<Rightarrow> (string \<times> column) list \<Rightarrow> (string \<rightharpoonup> string) \<Rightarrow>
   (string \<times> string) \<times> operation list \<Rightarrow> db \<Rightarrow> error + db" where
  "compositeTable groupedCols proj tableNameMap entry d =
     (case entry of (pair, pairOps) \<Rightarrow>
        bindE (pairOpTables groupedCols proj tableNameMap pairOps d) (\<lambda>(tempNames, d1).
          case pairOps of
            [] \<Rightarrow> Inl TypeError
          | op0 # others \<Rightarrow>
              (case rhsColumn op0 of
                 None \<Rightarrow> Inl TypeError
               | Some (t2, n2) \<Rightarrow>
                   bindE (spread (groupedCols (Some (lhsTable op0)))) (\<lambda>cs1.
                     bindE (spread (groupedCols (Some t2))) (\<lambda>cs2.
                       bindE (addTable d1 (compositeId pair) (map columnText (cs1 @ cs2))) (\<lambda>(b, d2).
                         bindE (mergeTemps tempNames (compositeId pair) d2) (\<lambda>d3.
                           bindE (hashTable d3 (compositeId pair) (''_id'' @ lhsTable op0) True) (\<lambda>d4.
                             bindE (hashTable d4 (compositeId pair) (''_id'' @ t2) True) (\<lambda>d5.
                               dropAll tempNames d5)))))))))"

section \<open>Join trees\<close>

text \<open>
  \<open>joinMap\<close> lists for every table of the term the pairs it belongs to; a pair with
  a table that the term does not list finds no entry to push to.
\<close>

fun pushJoin ::
  "(string \<times> (string \<times> string) list) list \<Rightarrow> string \<Rightarrow> string \<times> string \<Rightarrow>
   error + (string \<times> (string \<times> string) list) list" where
  "pushJoin [] t pair = Inl TypeError"
| "pushJoin ((t', ps) # m) t pair =
     (if t' = t then Inr ((t', ps @ [pair]) # m)
      else bindE (pushJoin m t pair) (\<lambda>m'. Inr ((t', ps) # m')))"

fun fillJoinMap ::
  "(string \<times> string) list \<Rightarrow> (string \<times> (string \<times> string) list) list \<Rightarrow>
   error + (string \<times> (string \<times> string) list) list" where
  "fillJoinMap [] m = Inr m"
| "fillJoinMap (pair # ps) m =
     bindE (pushJoin m (fst pair) pair) (\<lambda>m1.
       bindE (pushJoin m1 (snd pair) pair) (\<lambda>m2. fillJoinMap ps m2))"

fun mapSet :: "('k \<times> 'v) list \<Rightarrow> 'k \<Rightarrow> 'v \<Rightarrow> ('k \<times> 'v) list" where
  "mapSet [] k v = [(k, v)]"
| "mapSet ((k', v') # m) k v = (if k' = k then (k', v) # m else (k', v') # mapSet m k v)"

definition buildJoinMap ::
  "string list \<Rightarrow> (string \<times> string) list \<Rightarrow> error + (string \<times> (string \<times> string) list) list" where
  "buildJoinMap tbls pairs = fillJoinMap pairs (fold (\<lambda>t m. mapSet m t []) tbls [])"

definition joinsOf ::
  "(string \<times> (string \<times> string) list) list \<Rightarrow> string \<Rightarrow> (string \<times> string) list" where
  "joinsOf joinMap t = (case map_of joinMap t of None \<Rightarrow> [] | Some ps \<Rightarrow> ps)"

datatype tree = Tree "string \<times> string" "tree list"
text \<open>
  \<open>constructJoinTableTree\<close> with the set \<open>ids\<close> it consumes passed through;
  \<open>constructChildren\<close> is the \<open>forEach\<close> over the pairs of one table, and also the loop
  that starts a tree at every pair still in \<open>ids\<close>.
\<close>

function constructJoinTableTree ::
  "(string \<times> (string \<times> string) list) list \<Rightarrow> string \<times> string \<Rightarrow> (string \<times> string) list \<Rightarrow>
   tree option \<times> (string \<times> string) list"
and constructChildren ::
  "(string \<times> (string \<times> string) list) list \<Rightarrow> (string \<times> string) list \<Rightarrow>
   (string \<times> string) list \<Rightarrow> tree list \<times> (string \<times> string) list" where
  "constructJoinTableTree joinMap tid ids =
     (if tid \<notin> set ids then (None, ids)
      else (case constructChildren joinMap (joinsOf joinMap (fst tid)) (removeAll tid ids) of
              (c1, ids1) \<Rightarrow>
                (case constructChildren joinMap (joinsOf joinMap (snd tid)) ids1 of
                   (c2, ids2) \<Rightarrow> (Some (Tree tid (c1 @ c2)), ids2))))"
| "constructChildren joinMap [] ids = ([], ids)"
| "constructChildren joinMap (cId # cIds) ids =
     (case constructJoinTableTree joinMap cId ids of
        (childNode, ids1) \<Rightarrow>
          (case constructChildren joinMap cIds ids1 of
             (rest, ids2) \<Rightarrow> ((case childNode of None \<Rightarrow> rest | Some n \<Rightarrow> n # rest), ids2)))"
  by pat_completeness auto

lemma construct_shrinks:
  "constructJoinTableTree_constructChildren_dom (Inl (joinMap, tid, ids)) \<Longrightarrow>
     length (snd (constructJoinTableTree joinMap tid ids)) \<le> length ids"
  "constructJoinTableTree_constructChildren_dom (Inr (joinMap, cIds, ids)) \<Longrightarrow>
     length (snd (constructChildren joinMap cIds ids)) \<le> length ids"
proof (induct rule: constructJoinTableTree_constructChildren.pinduct)
  case (1 joinMap tid ids)
  show ?case
  proof (cases "tid \<in> set ids")
    case False
    with 1(1) show ?thesis by (simp add: constructJoinTableTree.psimps)
  next
    case True
    obtain c1 ids1 where e1:
      "constructChildren joinMap (joinsOf joinMap (fst tid)) (removeAll tid ids) = (c1, ids1)"
      by (cases "constructChildren joinMap (joinsOf joinMap (fst tid)) (removeAll tid ids)")
    obtain c2 ids2 where e2:
      "constructChildren joinMap (joinsOf joinMap (snd tid)) ids1 = (c2, ids2)"
      by (cases "constructChildren joinMap (joinsOf joinMap (snd tid)) ids1")
    from 1(2)[of ] True e1 have l1: "length ids1 \<le> length (removeAll tid ids)" by simp
    from 1(3)[OF _ e1[symmetric]] True e2 have l2: "length ids2 \<le> length ids1" by simp
    have "length ids2 \<le> length ids"
      using l1 l2 length_removeAll_less_eq[of tid ids] by linarith
    with 1(1) True e1 e2 show ?thesis by (simp add: constructJoinTableTree.psimps)
  qed
next
  case (2 joinMap ids)
  then show ?case by (simp add: constructChildren.psimps)
next
  case (3 joinMap cId cIds ids)
  obtain n ids1 where e1: "constructJoinTableTree joinMap cId ids = (n, ids1)"
    by (cases "constructJoinTableTree joinMap cId ids")
  obtain r ids2 where e2: "constructChildren joinMap cIds ids1 = (r, ids2)"
    by (cases "constructChildren joinMap cIds ids1")
  from 3(2) e1 have l1: "length ids1 \<le> length ids" by simp
  from 3(3)[OF e1[symmetric]] e2 have l2: "length ids2 \<le> length ids1" by simp
  from l1 l2 3(1) e1 e2 show ?case by (simp add: constructChildren.psimps)
qed

termination constructJoinTableTree
proof (relation "measures
    [\<lambda>x. case x of Inl (jm, t, ids) \<Rightarrow> length ids | Inr (jm, cs, ids) \<Rightarrow> length ids,
     \<lambda>x. case x of Inl (jm, t, ids) \<Rightarrow> 0 | Inr (jm, cs, ids) \<Rightarrow> Suc (length cs)]", goal_cases)
  case 1
  show ?case by simp
next
  case (2 joinMap tid ids)
  then show ?case by (simp add: length_removeAll_less)
next
  case (3 joinMap tid ids x xa)
  from construct_shrinks(2)[OF 3(3)] 3(2) have "length xa \<le> length (removeAll tid ids)"
    by (metis snd_conv)
  moreover from 3(1) have "length (removeAll tid ids) < length ids" by (simp add: length_removeAll_less)
  ultimately show ?case by simp
next
  case (4 joinMap cId cIds ids)
  show ?case by simp
next
  case (5 joinMap cId cIds ids x xa)
  from construct_shrinks(1)[OF 5(2)] 5(1) have "length xa \<le> length ids"
    by (metis snd_conv)
  then show ?case by auto
qed
section \<open>Common values of a join tree\<close>

text \<open>
  The table of a node is named by the JSON text of its pair. The table that a parent
  and a child share is the first table of the parent that the child has; a template
  literal writes \<open>undefined\<close> when there is none.
\<close>

definition intersectionTable :: "string \<times> string \<Rightarrow> string \<times> string \<Rightarrow> string" where
  "intersectionTable parentTables childTables =
     (case filter (\<lambda>parentTable. parentTable = fst childTables \<or> parentTable = snd childTables)
             [fst parentTables, snd parentTables] of
        [] \<Rightarrow> ''undefined''
      | t # ts \<Rightarrow> t)"

fun everyE :: "('a \<Rightarrow> error + bool) \<Rightarrow> 'a list \<Rightarrow> error + bool" where
  "everyE f [] = Inr True"
| "everyE f (x # xs) = bindE (f x) (\<lambda>b. if b then everyE f xs else Inr False)"

text \<open>
  The callback of \<open>childrenTables.every\<close>: it evaluates \<open>DB.hasValue\<close> and has no
  \<open>return\<close>, so its value is \<open>undefined\<close>, which \<open>every\<close> takes as false.
\<close>

definition childTest ::
  "db \<Rightarrow> string \<times> string \<Rightarrow> rcd \<Rightarrow> string \<times> string \<Rightarrow> error + bool" where
  "childTest d parentTables parentRec cName =
     bindE (hasValue d (compositeId cName) (''_id'' @ intersectionTable parentTables cName)
              (getField parentRec (''_id'' @ intersectionTable parentTables cName)))
       (\<lambda>found. Inr False)"

definition assign :: "rcd \<Rightarrow> rcd \<Rightarrow> rcd" where
  "assign r childRec = fold (\<lambda>kv res. setField res (fst kv) (snd kv)) childRec r"

fun composeChildren ::
  "string \<times> string \<Rightarrow> rcd \<Rightarrow> (string \<times> string) list \<Rightarrow> rcd list \<Rightarrow> db \<Rightarrow>
   error + (rcd list \<times> db)" where
  "composeChildren parentTables parentRec [] recs d = Inr (recs, d)"
| "composeChildren parentTables parentRec (cName # cs) recs d =
     bindE (getRecsFromHash d (compositeId cName) (''_id'' @ intersectionTable parentTables cName)
              ''='' (getField parentRec (''_id'' @ intersectionTable parentTables cName)))
       (\<lambda>(childRecs, d1).
          composeChildren parentTables parentRec cs
            (concat (map (\<lambda>childRec. map (\<lambda>r. assign r childRec) recs) childRecs)) d1)"

definition nameKey :: "column \<Rightarrow> string" where
  "nameKey c = (case colName c of None \<Rightarrow> ''null'' | Some n \<Rightarrow> n)"

definition keepKeys :: "string list \<Rightarrow> rcd \<Rightarrow> rcd" where
  "keepKeys keysToKeep rec =
     fold (\<lambda>key res. if hasKey rec key then setField res key (getField rec key) else res)
       keysToKeep []"

definition parentStep ::
  "column list \<Rightarrow> string \<times> string \<Rightarrow> (string \<times> string) list \<Rightarrow> rcd \<Rightarrow> rcd list \<times> db \<Rightarrow>
   error + (rcd list \<times> db)" where
  "parentStep columns parentTables childrenTables parentRec s =
     (case s of (results, d) \<Rightarrow>
        bindE (everyE (childTest d parentTables parentRec) childrenTables) (\<lambda>keep.
          if keep then
            bindE (composeChildren parentTables parentRec childrenTables [parentRec] d)
              (\<lambda>(recs, d1).
                 Inr (results @
                        map (keepKeys ([''_id'' @ fst parentTables, ''_id'' @ snd parentTables] @
                                         map nameKey columns)) recs, d1))
          else Inr (results, d)))"

text \<open>The scan of \<open>getAllRecords\<close> with a body that collects results.\<close>

fun foldE :: "('x \<Rightarrow> 's \<Rightarrow> error + 's) \<Rightarrow> 'x list \<Rightarrow> 's \<Rightarrow> error + 's" where
  "foldE f [] s = Inr s"
| "foldE f (x # xs) s = bindE (f x s) (foldE f xs)"

fun collectPages ::
  "nat list option \<Rightarrow> nat list \<Rightarrow> (rcd \<Rightarrow> 'a \<times> db \<Rightarrow> error + ('a \<times> db)) \<Rightarrow> 'a \<times> db \<Rightarrow>
   error + ('a \<times> db)" where
  "collectPages table [] f s = Inr s"
| "collectPages table (pid # pids) f s =
     bindE (ensurePage (snd s) table pid) (\<lambda>d1.
       bindE (getPageContents d1 pid) (\<lambda>(rs, d2).
         bindE (foldE f rs (fst s, d2)) (collectPages table pids f)))"

definition collectRecords ::
  "string \<Rightarrow> (rcd \<Rightarrow> 'a \<times> db \<Rightarrow> error + ('a \<times> db)) \<Rightarrow> 'a \<times> db \<Rightarrow> error + ('a \<times> db)" where
  "collectRecords t f s =
     (case tables (snd s) t of
        None \<Rightarrow> Inl TypeError
      | Some pids \<Rightarrow> collectPages (Some pids) pids f s)"

fun getCommonTreeVals :: "column list \<Rightarrow> tree \<Rightarrow> db \<Rightarrow> error + ((string \<times> string) \<times> db)"
and commonOfChildren ::
  "column list \<Rightarrow> tree list \<Rightarrow> db \<Rightarrow> error + ((string \<times> string) list \<times> db)" where
  "getCommonTreeVals columns (Tree parentId children) d =
     (if children = [] then Inr (parentId, d)
      else
        bindE (commonOfChildren columns children d) (\<lambda>(childrenTables, d1).
          bindE (collectRecords (compositeId parentId)
                   (parentStep columns parentId childrenTables) ([], d1)) (\<lambda>(results, d2).
            bindE (clearTable d2 (compositeId parentId)) (\<lambda>d3.
              bindE (insertRecords d3 (compositeId parentId) results) (\<lambda>d4.
                bindE (forEachE (\<lambda>t d5. hashTable d5 (compositeId parentId) (''_id'' @ t) True)
                         [fst parentId, snd parentId] d4) (\<lambda>d6.
                  Inr (parentId, d6)))))))"
| "commonOfChildren columns [] d = Inr ([], d)"
| "commonOfChildren columns (child # others) d =
     bindE (getCommonTreeVals columns child d) (\<lambda>(cName, d1).
       bindE (commonOfChildren columns others d1) (\<lambda>(rest, d2). Inr (cName # rest, d2)))"

section \<open>Cross product of the independent tables and the result of a term\<close>

definition moveIntoFinal :: "column list \<Rightarrow> string \<Rightarrow> db \<Rightarrow> error + (string \<times> db)" where
  "moveIntoFinal columns table d =
     (case freshName d of (finalTableName, d0) \<Rightarrow>
        bindE (addTable d0 finalTableName (map columnText columns)) (\<lambda>(b, d1).
          bindE (forAllRecords table
                   (\<lambda>finalRec. copyUnique finalTableName (addRecordAsId (deleteIds finalRec))) d1)
            (\<lambda>d2. Inr (finalTableName, d2))))"

text \<open>
  One round of the \<open>do ... while\<close> loop for the table \<open>t1\<close> joined so far and the
  tables still to join; \<open>shift\<close> on the empty list gives \<open>undefined\<close>, which has no
  column list.
\<close>

fun blockJoinTables :: "string \<Rightarrow> string list \<Rightarrow> db \<Rightarrow> error + (string \<times> db)" where
  "blockJoinTables t1 [] d = bindE (getNonIdCols d t1) (\<lambda>c1. Inl TypeError)"
| "blockJoinTables t1 (t2 # independentTables) d =
     bindE (getNonIdCols d t1) (\<lambda>c1.
       bindE (getNonIdCols d t2) (\<lambda>c2.
         bindE (spread c1) (\<lambda>t1NonIdCols.
           bindE (spread c2) (\<lambda>t2NonIdCols.
             case freshName d of (tTableName, d0) \<Rightarrow>
               bindE (addTable d0 tTableName (t1NonIdCols @ t2NonIdCols)) (\<lambda>(b, d1).
                 bindE (blockJoin d1 t1 t2
                          (map (\<lambda>c. (c, t1, c)) t1NonIdCols @ map (\<lambda>c. (c, t2, c)) t2NonIdCols)
                          False) (\<lambda>(joined, d2).
                   bindE (forEachE (\<lambda>joinedRec. copyUnique tTableName (addRecordAsId joinedRec))
                            joined d2) (\<lambda>d3.
                     bindE (dropTable d3 t1) (\<lambda>d4.
                       if independentTables \<noteq> [] then blockJoinTables tTableName independentTables d4
                       else Inr (tTableName, d4)))))))))"

definition blockJoinIndependentTables ::
  "column list \<Rightarrow> string list \<Rightarrow> db \<Rightarrow> error + (string \<times> db)" where
  "blockJoinIndependentTables columns independentTables d =
     (case independentTables of
        [] \<Rightarrow> Inl TypeError
      | [table] \<Rightarrow> moveIntoFinal columns table d
      | t1 # rest \<Rightarrow> blockJoinTables t1 rest d)"

fun treeTables ::
  "column list \<Rightarrow> tree list \<Rightarrow> string list \<Rightarrow> db \<Rightarrow> error + (string list \<times> db)" where
  "treeTables columns [] independentTables d = Inr (independentTables, d)"
| "treeTables columns (tr # trees) independentTables d =
     bindE (getCommonTreeVals columns tr d) (\<lambda>(tid, d1).
       treeTables columns trees (independentTables @ [compositeId tid]) d1)"

definition emitFinal :: "string \<Rightarrow> string \<Rightarrow> string \<Rightarrow> (string \<times> string) list \<Rightarrow> db \<Rightarrow> error + db" where
  "emitFinal tempTableName resultName finalTempTable pairs d =
     bindE (clearTable d tempTableName) (\<lambda>d1.
       bindE (forAllRecords finalTempTable (emitRecord tempTableName resultName) d1) (\<lambda>d2.
         bindE (dropTable d2 finalTempTable) (\<lambda>d3.
           dropAll (map compositeId pairs) d3)))"

text \<open>
  \<open>execute\<close>. \<open>compositeJoins\<close> is its first part, up to the end of the loop over the
  pairs of tables: the simplified tables, the projection and the pair tables.
\<close>

definition compositeJoins ::
  "qterm \<Rightarrow> string \<Rightarrow> (string option \<rightharpoonup> column list) \<Rightarrow>
   simpleOps \<times> compositeOps \<times> string list \<Rightarrow> db \<Rightarrow> error + db" where
  "compositeJoins tm tempTableName groupedCols sortedOps d =
     (case sortedOps of (simple, composite, noOps) \<Rightarrow>
        bindE (simplifyTables simple (map_of (zip (fromTables tm) (fromTables tm))) d)
          (\<lambda>(tableNameMap, d1).
             bindE (getTableKeys d1 tempTableName) (\<lambda>keys.
               bindE (buildProj keys (cols tm)) (\<lambda>proj.
                 forEachE (compositeTable groupedCols proj tableNameMap) composite d1))))"

definition execute ::
  "qterm \<Rightarrow> string \<Rightarrow> string \<Rightarrow> (string option \<rightharpoonup> column list) \<Rightarrow>
   simpleOps \<times> compositeOps \<times> string list \<Rightarrow> db \<Rightarrow> error + db" where
  "execute tm tempTableName resultName groupedCols sortedOps d =
     (case sortedOps of (simple, composite, noOps) \<Rightarrow>
        bindE (compositeJoins tm tempTableName groupedCols sortedOps d) (\<lambda>d2.
          bindE (buildJoinMap (fromTables tm) (map fst composite)) (\<lambda>joinMap.
            bindE (treeTables (cols tm)
                     (fst (constructChildren joinMap (map fst composite) (map fst composite)))
                     (noOps @
                      filter (\<lambda>tName. list_all (\<lambda>pair. tName \<noteq> fst pair \<and> tName \<noteq> snd pair)
                                         (map fst composite))
                        (map fst simple)) d2) (\<lambda>(independentTables, d3).
              bindE (blockJoinIndependentTables (cols tm) independentTables d3)
                (\<lambda>(finalTempTable, d4).
                   emitFinal tempTableName resultName finalTempTable
                     (map fst composite) d4)))))"

text \<open>
  \<open>executeTerm\<close>. The test for \<open>SELECT *\<close> reads \<open>columns[0].shouldFetchAllColumns\<close>
  without calling it; the method is an object, so the test holds for every column
  list of length one.
\<close>

definition executeTerm :: "qterm \<Rightarrow> string \<Rightarrow> string \<Rightarrow> db \<Rightarrow> error + (int \<times> db)" where
  "executeTerm tm tempTableName resultName d =
     bindE (getNumberOfEntries d resultName) (\<lambda>initialNumberOfEntries.
       bindE (if length (cols tm) = 1 then selectAll tm tempTableName resultName d
              else bindE (groupCols (cols tm) Map.empty) (\<lambda>groupedCols.
                     execute tm tempTableName resultName groupedCols (sortOps tm) d)) (\<lambda>d1.
         bindE (getNumberOfEntries d1 resultName) (\<lambda>finalNumberOfEntries.
           Inr (finalNumberOfEntries - initialNumberOfEntries, d1))))"

text \<open>
  The driver. The loop \<open>do ... while (recordsInserted > 0)\<close> need not end, so it gets
  a bound on the number of rounds: \<open>None\<close> is a run that is still looping after that
  many rounds. \<open>startQuery\<close> is the part of \<open>executeSingleQuery\<close> before the loop,
  and \<open>makeTables\<close> the part of it before the first term is executed.
\<close>

fun recursiveRounds :: "nat \<Rightarrow> qterm \<Rightarrow> string \<Rightarrow> string \<Rightarrow> db \<Rightarrow> (error + db) option" where
  "recursiveRounds 0 recTm recTableName resultName d = None"
| "recursiveRounds (Suc k) recTm recTableName resultName d =
     (case executeTerm recTm recTableName resultName d of
        Inl e \<Rightarrow> Some (Inl e)
      | Inr (recordsInserted, d1) \<Rightarrow>
          if recordsInserted > 0 then recursiveRounds k recTm recTableName resultName d1
          else Some (Inr d1))"

definition makeTables :: "query \<Rightarrow> db \<Rightarrow> error + (string \<times> db)" where
  "makeTables q d =
     bindE (createRecursiveTable d (withDecl q)) (\<lambda>(recTableName, d1).
       bindE (getTableKeys d1 recTableName) (\<lambda>keys.
         bindE (addTable d1 (resultTableName q) keys) (\<lambda>(b, d2). Inr (recTableName, d2))))"

definition startQuery :: "query \<Rightarrow> db \<Rightarrow> error + (string \<times> db)" where
  "startQuery q d =
     bindE (makeTables q d) (\<lambda>(recTableName, d2).
       bindE (executeTerm (nonrecTerm q) recTableName (resultTableName q) d2)
         (\<lambda>(n, d3). Inr (recTableName, d3)))"

definition executeSingleQuery :: "nat \<Rightarrow> query \<Rightarrow> db \<Rightarrow> (error + db) option" where
  "executeSingleQuery k q d =
     (case startQuery q d of
        Inl e \<Rightarrow> Some (Inl e)
      | Inr (recTableName, d3) \<Rightarrow>
          (case recursiveRounds k (recTerm q) recTableName (resultTableName q) d3 of
             None \<Rightarrow> None
           | Some (Inl e) \<Rightarrow> Some (Inl e)
           | Some (Inr d4) \<Rightarrow> Some (dropTable d4 recTableName)))"

section \<open>Well-formed states\<close>

text \<open>
  The states that the catalog operations reach from \<open>emptyDB\<close>. For every table: it has
  at least one page, its page ids are distinct and were handed out by the counter, no
  page holds more records than the capacity, the free-space queue has exactly one
  entry per page and every entry carries the current \<open>spacesLeft\<close> of its page, and
  every locator of every hash index addresses a stored record of the table. No page
  belongs to two tables. \<open>hole\<close> is the set of pages of table \<open>t0\<close> whose queue entry
  is polled at the moment (empty between two operations).
\<close>

definition locsValid :: "(nat \<Rightarrow> page) \<Rightarrow> nat list \<Rightarrow> locator list \<Rightarrow> bool" where
  "locsValid pgs pids ls = (\<forall>l\<in>set ls. fst l \<in> set pids \<and> snd l < length (pgs (fst l)))"

definition idxValid :: "(nat \<Rightarrow> page) \<Rightarrow> nat list \<Rightarrow> hashIndex \<Rightarrow> bool" where
  "idxValid pgs pids ix = (\<forall>e\<in>set ix. locsValid pgs pids (snd e))"

definition queueInv :: "(nat \<Rightarrow> page) \<Rightarrow> nat set \<Rightarrow> queue \<Rightarrow> bool" where
  "queueInv pgs P q =
     (distinct (map fst q) \<and> fst ` set q = P \<and>
      (\<forall>e\<in>set q. snd e = spacesLeft (pgs (fst e))))"

definition tableInv :: "db \<Rightarrow> nat set \<Rightarrow> string \<Rightarrow> bool" where
  "tableInv d hole t =
     (case tables d t of
        None \<Rightarrow> tablePageSpaces d t = None \<and> tableHashes d t = None
      | Some pids \<Rightarrow>
          pids \<noteq> [] \<and> distinct pids \<and>
          (\<forall>pid\<in>set pids. pid < nextId d \<and> length (pages d pid) \<le> maxNoOfRecsPerFile) \<and>
          (case tablePageSpaces d t of
             None \<Rightarrow> False
           | Some q \<Rightarrow> queueInv (pages d) (set pids - hole) q) \<and>
          (case tableHashes d t of
             None \<Rightarrow> False
           | Some h \<Rightarrow> \<forall>col ix. h col = Some ix \<longrightarrow> idxValid (pages d) pids ix))"

definition disjointTables :: "db \<Rightarrow> bool" where
  "disjointTables d =
     (\<forall>t t' pids pids'. t \<noteq> t' \<longrightarrow> tables d t = Some pids \<longrightarrow> tables d t' = Some pids' \<longrightarrow>
        set pids \<inter> set pids' = {})"

definition dbInvH :: "db \<Rightarrow> string \<Rightarrow> nat set \<Rightarrow> bool" where
  "dbInvH d t0 hole =
     ((\<forall>t. tableInv d (if t = t0 then hole else {}) t) \<and> disjointTables d)"

definition dbInv :: "db \<Rightarrow> bool" where
  "dbInv d = dbInvH d [] {}"

text \<open>The records of a table, page by page in page-insertion order.\<close>

definition tableRecs :: "db \<Rightarrow> string \<Rightarrow> rcd list" where
  "tableRecs d t =
     (case tables d t of None \<Rightarrow> [] | Some pids \<Rightarrow> concat (map (pages d) pids))"

text \<open>Two states that differ in the buffer only.\<close>

definition sameData :: "db \<Rightarrow> db \<Rightarrow> bool" where
  "sameData d d' =
     (pages d' = pages d \<and> tables d' = tables d \<and> tablePageSpaces d' = tablePageSpaces d \<and>
      tableCols d' = tableCols d \<and> tableHashes d' = tableHashes d \<and> nextId d' = nextId d)"

text \<open>
  What an operation on the tables in \<open>T\<close> leaves alone: every other table keeps its
  pages, their contents, its queue, its columns and its indexes, and the counter does
  not go back.
\<close>

definition frameExcept :: "string set \<Rightarrow> db \<Rightarrow> db \<Rightarrow> bool" where
  "frameExcept T d d' =
     (nextId d \<le> nextId d' \<and>
      (\<forall>t. t \<notin> T \<longrightarrow>
         tables d' t = tables d t \<and> tablePageSpaces d' t = tablePageSpaces d t \<and>
         tableCols d' t = tableCols d t \<and> tableHashes d' t = tableHashes d t \<and>
         (\<forall>pids. tables d t = Some pids \<longrightarrow> (\<forall>pid\<in>set pids. pages d' pid = pages d pid))))"

definition hashedOn :: "db \<Rightarrow> string \<Rightarrow> string \<Rightarrow> hashIndex \<Rightarrow> bool" where
  "hashedOn d t col ix = (\<exists>h. tableHashes d t = Some h \<and> h col = Some ix)"

definition pidsOf :: "db \<Rightarrow> string \<Rightarrow> nat set" where
  "pidsOf d t = (case tables d t of None \<Rightarrow> {} | Some pids \<Rightarrow> set pids)"

text \<open>
  A step on table \<open>t\<close>: the other tables are left alone and the pages that \<open>t\<close> gains
  are fresh.
\<close>

definition stepOn :: "string \<Rightarrow> db \<Rightarrow> db \<Rightarrow> bool" where
  "stepOn t d d' =
     (frameExcept {t} d d' \<and> pidsOf d' t \<subseteq> pidsOf d t \<union> {n. nextId d \<le> n})"

text \<open>
  Table \<open>t\<close> gains the records \<open>M\<close>: a step on \<open>t\<close> that keeps its pages, appends to
  them, and touches neither the indexes nor the column lists.
\<close>

definition growsBy :: "string \<Rightarrow> rcd multiset \<Rightarrow> db \<Rightarrow> db \<Rightarrow> bool" where
  "growsBy t M d d' =
     (stepOn t d d' \<and> pidsOf d t \<subseteq> pidsOf d' t \<and> tables d' t \<noteq> None \<and>
      (\<forall>pid\<in>pidsOf d t. \<exists>ys. pages d' pid = pages d pid @ ys) \<and>
      mset (tableRecs d' t) = mset (tableRecs d t) + M \<and>
      tableHashes d' = tableHashes d \<and> tableCols d' = tableCols d)"

text \<open>What \<open>insertRecords\<close> stores for a record: the record, with an \<open>_id\<close> in front if it had none.\<close>

definition storedAs :: "rcd \<Rightarrow> rcd \<Rightarrow> bool" where
  "storedAs s r = (if hasKey r ''_id'' then s = r else (\<exists>v. s = (''_id'', v) # r))"

text \<open>The index that \<open>hashTable\<close> computes from the pages, without the buffer.\<close>

fun hashAll :: "string \<Rightarrow> (nat \<Rightarrow> page) \<Rightarrow> nat list \<Rightarrow> hashIndex \<Rightarrow> hashIndex" where
  "hashAll col pgs [] ix = ix"
| "hashAll col pgs (pid # pids) ix = hashAll col pgs pids (hashPage col pid 0 (pgs pid) ix)"

text \<open>
  Unique-by-id: the \<open>_id\<close> values of the stored records are pairwise distinct, and the
  \<open>_id\<close> index, once it exists, has exactly these values as keys, each with the one
  locator of its record. Before the index exists the table is still empty.
\<close>

definition idOf :: "rcd \<Rightarrow> val" where
  "idOf r = getField r ''_id''"

definition idIndexOk :: "db \<Rightarrow> string \<Rightarrow> hashIndex \<Rightarrow> bool" where
  "idIndexOk d t ix =
     (set (idxKeys ix) = idOf ` set (tableRecs d t) \<and>
      (\<forall>e\<in>set ix. \<exists>pid i. snd e = [(pid, i)] \<and> pid \<in> pidsOf d t \<and>
         i < length (pages d pid) \<and> idOf (pages d pid ! i) = fst e))"

definition uniqueById :: "db \<Rightarrow> string \<Rightarrow> bool" where
  "uniqueById d t =
     (distinct (map idOf (tableRecs d t)) \<and>
      (case tableHashes d t of
         None \<Rightarrow> True
       | Some h \<Rightarrow>
           (case h ''_id'' of
              None \<Rightarrow> tableRecs d t = []
            | Some ix \<Rightarrow> idIndexOk d t ix)))"

text \<open>A sequence of public write operations of the catalog; it stops at the first error.\<close>

datatype catalogOp =
    AddTable string "string list"
  | InsertRecords string "rcd list"
  | InsertUniqueRecordsById string "rcd list"
  | ClearTable string
  | Drop string

fun applyOp :: "catalogOp \<Rightarrow> db \<Rightarrow> error + db" where
  "applyOp (AddTable t colNames) d = bindE (addTable d t colNames) (\<lambda>(b, d'). Inr d')"
| "applyOp (InsertRecords t rs) d = insertRecords d t rs"
| "applyOp (InsertUniqueRecordsById t rs) d = insertUniqueRecordsById d t rs"
| "applyOp (ClearTable t) d = clearTable d t"
| "applyOp (Drop t) d = dropTable d t"

definition runOps :: "catalogOp list \<Rightarrow> db \<Rightarrow> error + db" where
  "runOps steps d = forEachE applyOp steps d"

definition insertBatches :: "string \<Rightarrow> rcd list list \<Rightarrow> db \<Rightarrow> error + db" where
  "insertBatches t batches d = forEachE (\<lambda>rs d'. insertUniqueRecordsById d' t rs) batches d"

section \<open>Example states\<close>

text \<open>
  Table \<open>a\<close> with two records, filled by \<open>insertUniqueRecordsById\<close> (so it has an
  \<open>_id\<close> index).
\<close>

definition exampleA :: "error + db" where
  "exampleA =
     runOps [AddTable ''a'' [''c1'', ''c2''],
             InsertUniqueRecordsById ''a''
               [[(''c1'', VStr ''1''), (''c2'', VStr ''2''), (''_id'', VStr ''r1'')],
                [(''c1'', VStr ''2''), (''c2'', VStr ''3''), (''_id'', VStr ''r2'')]]] emptyDB"

text \<open>Tables \<open>a\<close> and \<open>b\<close>, two records each.\<close>

definition exampleAB :: "error + db" where
  "exampleAB =
     runOps [AddTable ''a'' [''c1'', ''c2''],
             InsertUniqueRecordsById ''a''
               [[(''c1'', VStr ''1''), (''c2'', VStr ''2''), (''_id'', VStr ''r1'')],
                [(''c1'', VStr ''2''), (''c2'', VStr ''3''), (''_id'', VStr ''r2'')]],
             AddTable ''b'' [''c1'', ''c2''],
             InsertUniqueRecordsById ''b''
               [[(''c1'', VStr ''2''), (''c2'', VStr ''7''), (''_id'', VStr ''s1'')],
                [(''c1'', VNum 2), (''c2'', VStr ''8''), (''_id'', VStr ''s2'')]]] emptyDB"

text \<open>The records that a stream yields, when it does not end in an error.\<close>

definition outputsOf :: "error + (rcd list \<times> db) \<Rightarrow> rcd list option" where
  "outputsOf m = (case m of Inl e \<Rightarrow> None | Inr (out, d) \<Rightarrow> Some out)"

text \<open>Tables \<open>a\<close> and \<open>b\<close> with one record each.\<close>

definition exampleTiny :: "error + db" where
  "exampleTiny =
     runOps [AddTable ''a'' [''c1'', ''c2''],
             InsertUniqueRecordsById ''a''
               [[(''c1'', VStr ''1''), (''c2'', VStr ''2''), (''_id'', VStr ''r1'')]],
             AddTable ''b'' [''c1'', ''c2''],
             InsertUniqueRecordsById ''b''
               [[(''c1'', VStr ''2''), (''c2'', VStr ''7''), (''_id'', VStr ''s1'')]]] emptyDB"

text \<open>
  Runs of a query from a state \<open>base\<close>. \<open>firstJoins\<close> is the state in the execution
  of the first term when its composite joins are done, \<open>loopStart\<close> the state in
  which the driver enters its loop. \<open>firstRound\<close> is one round of the loop from
  there: the number of entries of the result table before the round, the number the
  round returns, the number of entries after it, and whether the loop ends with this
  round.
\<close>

definition selectStar :: "string \<Rightarrow> qterm" where
  "selectStar t = \<lparr>cols = [Star], fromTables = [t], ops = None\<rparr>"

definition firstJoins :: "error + db \<Rightarrow> query \<Rightarrow> error + db" where
  "firstJoins base q =
     bindE base (\<lambda>d.
       bindE (makeTables q d) (\<lambda>(recTableName, d2).
         bindE (groupCols (cols (nonrecTerm q)) Map.empty) (\<lambda>groupedCols.
           compositeJoins (nonrecTerm q) recTableName groupedCols (sortOps (nonrecTerm q)) d2)))"

definition loopStart :: "error + db \<Rightarrow> query \<Rightarrow> error + db" where
  "loopStart base q =
     bindE base (\<lambda>d. bindE (startQuery q d) (\<lambda>(recTableName, d3). Inr d3))"

definition firstRound :: "error + db \<Rightarrow> query \<Rightarrow> error + (int \<times> int \<times> int \<times> bool)" where
  "firstRound base q =
     bindE (loopStart base q) (\<lambda>d.
       bindE (getNumberOfEntries d (resultTableName q)) (\<lambda>before.
         bindE (executeTerm (recTerm q) (declName (withDecl q)) (resultTableName q) d)
           (\<lambda>(recordsInserted, d1).
              bindE (getNumberOfEntries d1 (resultTableName q)) (\<lambda>after.
                Inr (before, recordsInserted, after,
                     (case recursiveRounds 1 (recTerm q) (declName (withDecl q))
                             (resultTableName q) d of
                        None \<Rightarrow> False
                      | Some r \<Rightarrow> (case r of Inl e \<Rightarrow> False | Inr d2 \<Rightarrow> True)))))))"



text \<open>
  \<open>WITH RECURSIVE t(c1, c2) AS (SELECT a.c1, b.c2 FROM a, b WHERE a.c2 = b.c1 AND
  a.c2 > a.c1 UNION SELECT * FROM t) SELECT * INTO n FROM t\<close>. On the tables of
  \<open>exampleTiny\<close> the composite joins of its first term make the table of the pair
  \<open>(a, b)\<close> with the one joined record of \<open>r1\<close> and \<open>s1\<close> and the table of the
  pair \<open>(a, a)\<close> with the one joined record of \<open>r1\<close> with itself, each with the
  indexes on its \<open>_id\<close> columns: \<open>pairTables\<close> is a state with just these two
  tables, and \<open>pairTree\<close> the join tree of the two pairs.
\<close>

definition treeQuery :: query where
  "treeQuery =
     \<lparr>withDecl = \<lparr>declName = ''t'', declColumns = [''c1'', ''c2'']\<rparr>,
      nonrecTerm =
        \<lparr>cols = [Col ''a'' ''c1'', Col ''b'' ''c2''], fromTables = [''a'', ''b''],
         ops = Some [\<lparr>lhsTable = ''a'', lhsName = ''c2'', rhs = RCol ''b'' ''c1'',
                      operator = ''=''\<rparr>,
                     \<lparr>lhsTable = ''a'', lhsName = ''c2'', rhs = RCol ''a'' ''c1'',
                      operator = ''>''\<rparr>]\<rparr>,
      recTerm = selectStar ''t'',
      resultTableName = ''n''\<rparr>"

definition pairTables :: "error + db" where
  "pairTables =
     bindE (runOps [AddTable (compositeId (''a'', ''b'')) [''a.c1'', ''b.c2''],
                    InsertUniqueRecordsById (compositeId (''a'', ''b''))
                      [[(''c1'', VStr ''1''), (''c2'', VStr ''7''), (''_id'', VStr ''r1|s1''),
                        (''_ida'', VStr ''r1''), (''_idb'', VStr ''s1'')]],
                    AddTable (compositeId (''a'', ''a'')) [''a.c1'', ''a.c1''],
                    InsertUniqueRecordsById (compositeId (''a'', ''a''))
                      [[(''c1'', VStr ''1''), (''_id'', VStr ''r1|r1''), (''_ida'', VStr ''r1'')]]]
              emptyDB) (\<lambda>d.
       bindE (hashTable d (compositeId (''a'', ''b'')) ''_ida'' True) (\<lambda>d1.
         bindE (hashTable d1 (compositeId (''a'', ''b'')) ''_idb'' True) (\<lambda>d2.
           hashTable d2 (compositeId (''a'', ''a'')) ''_ida'' True)))"

definition pairTree :: tree where
  "pairTree = Tree (''a'', ''b'') [Tree (''a'', ''a'') []]"

text \<open>
  \<open>WITH RECURSIVE t(c1, c2) AS (SELECT * FROM a UNION SELECT * FROM b)
  SELECT * INTO n FROM t\<close>, and
  \<open>WITH RECURSIVE t(c1, c2) AS (SELECT * FROM a UNION SELECT * FROM t)
  SELECT * INTO t FROM t\<close>, whose result table is its working table.
\<close>

definition unionQuery :: query where
  "unionQuery =
     \<lparr>withDecl = \<lparr>declName = ''t'', declColumns = [''c1'', ''c2'']\<rparr>,
      nonrecTerm = selectStar ''a'', recTerm = selectStar ''b'', resultTableName = ''n''\<rparr>"

definition aliasedQuery :: query where
  "aliasedQuery =
     \<lparr>withDecl = \<lparr>declName = ''t'', declColumns = [''c1'', ''c2'']\<rparr>,
      nonrecTerm = selectStar ''a'', recTerm = selectStar ''t'', resultTableName = ''t''\<rparr>"

section \<open>What a hash join reads\<close>

text \<open>
  The records behind a key of an index, the pairs of records that \<open>hashJoinLoop\<close>
  projects (in its order), and the index that \<open>hashJoin\<close> uses for a column: the one
  in place, or the one it builds.
\<close>

definition recsAt :: "(nat \<Rightarrow> page) \<Rightarrow> hashIndex \<Rightarrow> val \<Rightarrow> rcd list" where
  "recsAt pgs ix v =
     (case idxGet ix v of None \<Rightarrow> [] | Some ls \<Rightarrow> map (\<lambda>l. pgs (fst l) ! snd l) ls)"

definition joinPairs ::
  "(nat \<Rightarrow> page) \<Rightarrow> hashIndex \<Rightarrow> hashIndex \<Rightarrow> string \<Rightarrow> val list \<Rightarrow> (rcd \<times> rcd) list" where
  "joinPairs pgs ix1 ix2 op vs =
     concat (map (\<lambda>v1. List.product (recsAt pgs ix1 v1)
                         (concat (map (recsAt pgs ix2)
                                    (filter (\<lambda>v2. opMatch op v1 v2) (idxKeys ix2))))) vs)"

definition ixFor :: "db \<Rightarrow> string \<Rightarrow> string \<Rightarrow> hashIndex" where
  "ixFor d t c =
     (case tableHashes d t of
        None \<Rightarrow> []
      | Some h \<Rightarrow>
          (case h c of
             Some ix \<Rightarrow> ix
           | None \<Rightarrow>
               (case tables d t of None \<Rightarrow> [] | Some pids \<Rightarrow> hashAll c (pages d) pids [])))"

definition withState :: "error + 'a \<Rightarrow> db \<Rightarrow> error + ('a \<times> db)" where
  "withState m d = bindE m (\<lambda>x. Inr (x, d))"

section \<open>What a run leaves of a table\<close>

text \<open>
  \<open>keeps R d d'\<close>: the state \<open>d'\<close> is well formed and table \<open>R\<close>, if \<open>d\<close> has it, is
  still there with at least the records it had. \<open>reservedName\<close> holds for the names
  the evaluator makes up for its own tables: the generated ones (the model hands out
  \<open>idString n\<close> where the code calls \<open>nanoid\<close>) and the JSON texts of the pairs.
\<close>

definition keeps :: "string \<Rightarrow> db \<Rightarrow> db \<Rightarrow> bool" where
  "keeps R d d' =
     (dbInv d' \<and>
      (tables d R \<noteq> None \<longrightarrow>
         tables d' R \<noteq> None \<and> mset (tableRecs d R) \<subseteq># mset (tableRecs d' R)))"

definition reservedName :: "string \<Rightarrow> bool" where
  "reservedName s = ((\<exists>n. s = idString n) \<or> (\<exists>p. s = compositeId p))"

section \<open>Basic facts\<close>

lemma bindE_Inl [simp]: "bindE (Inl e) f = Inl e"
  by (simp add: bindE_def)

lemma bindE_Inr [simp]: "bindE (Inr x) f = f x"
  by (simp add: bindE_def)

lemma bindE_eq_Inr: "bindE m f = Inr y \<longleftrightarrow> (\<exists>x. m = Inr x \<and> f x = Inr y)"
  by (cases m) simp_all

lemma bindE_eq_Inl: "bindE m f = Inl e \<longleftrightarrow> (m = Inl e \<or> (\<exists>x. m = Inr x \<and> f x = Inl e))"
  by (cases m) auto

lemma cacheMax_pos: "0 < cacheMax"
  by (simp add: cacheMax_def)

lemma maxNoOfRecsPerFile_pos: "0 < maxNoOfRecsPerFile"
  by (simp add: maxNoOfRecsPerFile_def)

lemma sameData_refl [simp]: "sameData d d"
  by (simp add: sameData_def)

lemma sameData_trans: "sameData d d' \<Longrightarrow> sameData d' d'' \<Longrightarrow> sameData d d''"
  by (simp add: sameData_def)

lemma sameData_buf [simp]: "sameData d (d\<lparr>buf := b\<rparr>)"
  by (simp add: sameData_def)

lemma sameData_addPage [simp]: "sameData d (addPage d pid)"
  by (simp add: addPage_def)

lemma hasPage_addPage [simp]: "hasPage (addPage d pid) pid"
  by (simp add: hasPage_def addPage_def cacheMax_def)

lemma tableInv_sameData: "sameData d d' \<Longrightarrow> tableInv d' hole t = tableInv d hole t"
  by (simp add: sameData_def tableInv_def cong: option.case_cong)

lemma dbInvH_sameData: "sameData d d' \<Longrightarrow> dbInvH d' t hole = dbInvH d t hole"
  using tableInv_sameData[of d d'] by (simp add: dbInvH_def disjointTables_def sameData_def)

lemma dbInv_sameData: "sameData d d' \<Longrightarrow> dbInv d' = dbInv d"
  using dbInvH_sameData[of d d'] by (simp add: dbInv_def)

lemma tableRecs_sameData: "sameData d d' \<Longrightarrow> tableRecs d' t = tableRecs d t"
  by (simp add: sameData_def tableRecs_def cong: option.case_cong)

lemma ensurePage_ok:
  assumes "pid \<in> set pids"
  shows "\<exists>d'. ensurePage d (Some pids) pid = Inr d' \<and> sameData d d' \<and> hasPage d' pid"
  using assms by (auto simp: ensurePage_def)

lemma cacheGet_ok:
  assumes "hasPage d pid"
  shows "cacheGet d pid = Inr (pages d pid, d\<lparr>buf := pid # remove1 pid (buf d)\<rparr>)"
  using assms by (simp add: cacheGet_def hasPage_def)

lemma getPageContents_ok:
  assumes "hasPage d pid"
  shows "\<exists>d'. getPageContents d pid = Inr (pages d pid, d') \<and> sameData d d' \<and> hasPage d' pid"
  using assms by (simp add: getPageContents_def cacheGet_ok iterator_def hasPage_def)

lemma getPageRecord_ok:
  assumes "hasPage d pid" "i < length (pages d pid)"
  shows "\<exists>d'. getPageRecord d pid i = Inr (pages d pid ! i, d') \<and> sameData d d'"
  using assms by (simp add: getPageRecord_def cacheGet_ok directAccess_def)

lemma insertRecord_ok:
  assumes "hasPage d pid" "length (pages d pid) < maxNoOfRecsPerFile"
  shows "insertRecord d pid r =
           Inr (length (pages d pid),
                d\<lparr>buf := pid # remove1 pid (buf d), pages := (pages d)(pid := pages d pid @ [r])\<rparr>)"
  using assms by (simp add: insertRecord_def cacheGet_ok pageInsertRecord_def)

lemma clearPage_ok:
  assumes "hasPage d pid"
  shows "clearPage d pid = Inr (d\<lparr>buf := pid # remove1 pid (buf d), pages := (pages d)(pid := [])\<rparr>)"
  using assms by (simp add: clearPage_def cacheGet_ok)

lemma dbInv_emptyDB: "dbInv emptyDB"
  by (simp add: dbInv_def dbInvH_def tableInv_def disjointTables_def emptyDB_def)

section \<open>Frames\<close>

lemma frameExcept_refl [simp]: "frameExcept T d d"
  by (simp add: frameExcept_def)

lemma frameExcept_sameData: "sameData d d' \<Longrightarrow> frameExcept T d d'"
  by (simp add: frameExcept_def sameData_def)

lemma frameExcept_trans:
  "frameExcept T d d' \<Longrightarrow> frameExcept T d' d'' \<Longrightarrow> frameExcept T d d''"
  unfolding frameExcept_def by (auto simp: le_trans)

lemma frameExcept_mono: "frameExcept T d d' \<Longrightarrow> T \<subseteq> T' \<Longrightarrow> frameExcept T' d d'"
  unfolding frameExcept_def by auto

lemma tableInv_frame:
  assumes "frameExcept T d d'" "t \<notin> T" "tableInv d hole t"
  shows "tableInv d' hole t"
proof (cases "tables d t")
  case None
  with assms show ?thesis by (simp add: frameExcept_def tableInv_def)
next
  case (Some pids)
  from assms(1,2) have eqs: "tables d' t = tables d t" "tablePageSpaces d' t = tablePageSpaces d t"
    "tableHashes d' t = tableHashes d t" "nextId d \<le> nextId d'"
    and pg: "\<And>pid. pid \<in> set pids \<Longrightarrow> pages d' pid = pages d pid"
    using Some by (auto simp: frameExcept_def)
  from assms(3) Some obtain q h where q: "tablePageSpaces d t = Some q" and h: "tableHashes d t = Some h"
    by (auto simp: tableInv_def split: option.splits)
  have qi: "queueInv (pages d') (set pids - hole) q = queueInv (pages d) (set pids - hole) q"
    unfolding queueInv_def using pg by (metis (no_types, lifting) Diff_iff imageI)
  have ii: "\<And>ix. idxValid (pages d') pids ix = idxValid (pages d) pids ix"
    unfolding idxValid_def locsValid_def using pg by (metis (no_types, lifting))
  from assms(3) show ?thesis
    using Some q h eqs pg qi ii by (auto simp: tableInv_def)
qed

lemma stepOn_refl [simp]: "stepOn t d d"
  by (simp add: stepOn_def)

lemma stepOn_sameData: "sameData d d' \<Longrightarrow> stepOn t d d'"
  by (auto simp: stepOn_def frameExcept_sameData pidsOf_def sameData_def)

lemma stepOn_trans:
  assumes "stepOn t d d'" "stepOn t d' d''"
  shows "stepOn t d d''"
proof -
  have "nextId d \<le> nextId d'" using assms(1) by (simp add: stepOn_def frameExcept_def)
  then have "{n. nextId d' \<le> n} \<subseteq> {n. nextId d \<le> n}" by auto
  with assms show ?thesis
    unfolding stepOn_def using frameExcept_trans[of "{t}" d d' d''] by blast
qed

lemma tableInv_pid_less:
  "tableInv d hole t \<Longrightarrow> pid \<in> pidsOf d t \<Longrightarrow> pid < nextId d"
  by (auto simp: tableInv_def pidsOf_def split: option.splits)

lemma dbInvH_step:
  assumes inv: "dbInvH d t h" and st: "stepOn t d d'" and ti: "tableInv d' h' t"
  shows "dbInvH d' t h'"
proof -
  have fr: "frameExcept {t} d d'" using st by (simp add: stepOn_def)
  have other: "tableInv d' {} t'" if "t' \<noteq> t" for t'
  proof -
    from inv have "tableInv d (if t' = t then h else {}) t'" unfolding dbInvH_def by blast
    with that have "tableInv d {} t'" by simp
    with fr that show ?thesis using tableInv_frame[of "{t}" d d' t' "{}"] by simp
  qed
  have less: "pid < nextId d" if "pid \<in> pidsOf d t'" for pid t'
  proof -
    from inv have "tableInv d (if t' = t then h else {}) t'" by (simp add: dbInvH_def)
    with that show ?thesis by (rule tableInv_pid_less[rotated])
  qed
  have same: "pidsOf d' t' = pidsOf d t'" if "t' \<noteq> t" for t'
    using fr that by (simp add: frameExcept_def pidsOf_def)
  have sub: "pidsOf d' t \<subseteq> pidsOf d t \<union> {n. nextId d \<le> n}" using st by (simp add: stepOn_def)
  have dj: "disjointTables d" using inv by (simp add: dbInvH_def)
  have djp: "pidsOf d a \<inter> pidsOf d b = {}" if "a \<noteq> b" for a b
    using dj that by (auto simp: disjointTables_def pidsOf_def split: option.splits)
  have djp': "pidsOf d' a \<inter> pidsOf d' b = {}" if ab: "a \<noteq> b" for a b
  proof (cases "a = t")
    case True
    then have bt: "b \<noteq> t" using ab by simp
    have "pidsOf d' b = pidsOf d b" using same bt by simp
    moreover have "pidsOf d b \<inter> {n. nextId d \<le> n} = {}" using less[of _ b] by fastforce
    moreover have "pidsOf d t \<inter> pidsOf d b = {}" using djp bt by blast
    ultimately show ?thesis using sub True by blast
  next
    case False
    show ?thesis
    proof (cases "b = t")
      case True
      have "pidsOf d' a = pidsOf d a" using same False by simp
      moreover have "pidsOf d a \<inter> {n. nextId d \<le> n} = {}" using less[of _ a] by fastforce
      moreover have "pidsOf d a \<inter> pidsOf d t = {}" using djp False by blast
      ultimately show ?thesis using sub True by blast
    next
      case bf: False
      then show ?thesis using same[of a] same[of b] False djp[OF ab] by simp
    qed
  qed
  have "disjointTables d'"
    unfolding disjointTables_def
  proof (intro allI impI)
    fix a b pa pb
    assume "a \<noteq> b" "tables d' a = Some pa" "tables d' b = Some pb"
    then show "set pa \<inter> set pb = {}" using djp'[of a b] by (simp add: pidsOf_def)
  qed
  with other ti show ?thesis by (simp add: dbInvH_def)
qed

section \<open>The invariant under the primitive updates\<close>

lemma tableInv_SomeD:
  assumes "tableInv d hole t" "tables d t = Some pids"
  shows "pids \<noteq> []" "distinct pids" "\<And>pid. pid \<in> set pids \<Longrightarrow> pid < nextId d"
    "\<And>pid. pid \<in> set pids \<Longrightarrow> length (pages d pid) \<le> maxNoOfRecsPerFile"
    "\<exists>q. tablePageSpaces d t = Some q \<and> queueInv (pages d) (set pids - hole) q"
    "\<exists>h. tableHashes d t = Some h \<and> (\<forall>col ix. h col = Some ix \<longrightarrow> idxValid (pages d) pids ix)"
  using assms by (auto simp: tableInv_def split: option.splits)

lemma tableInvI:
  assumes "tables d t = Some pids" "pids \<noteq> []" "distinct pids"
    "\<And>pid. pid \<in> set pids \<Longrightarrow> pid < nextId d"
    "\<And>pid. pid \<in> set pids \<Longrightarrow> length (pages d pid) \<le> maxNoOfRecsPerFile"
    "tablePageSpaces d t = Some q" "queueInv (pages d) (set pids - hole) q"
    "tableHashes d t = Some h" "\<And>col ix. h col = Some ix \<Longrightarrow> idxValid (pages d) pids ix"
  shows "tableInv d hole t"
  using assms by (auto simp: tableInv_def)

lemma idxValid_mono:
  assumes "idxValid pgs pids ix" "set pids \<subseteq> set pids'"
    "\<And>pid. pid \<in> set pids \<Longrightarrow> length (pgs pid) \<le> length (pgs' pid)"
  shows "idxValid pgs' pids' ix"
  using assms unfolding idxValid_def locsValid_def
  by (meson less_le_trans subsetD)

lemma queueInv_cong:
  assumes "queueInv pgs P q" "\<And>pid. pid \<in> P \<Longrightarrow> pgs' pid = pgs pid"
  shows "queueInv pgs' P q"
  using assms unfolding queueInv_def by (metis imageI)

lemma tableInv_newPage:
  assumes ti: "tableInv d {} t" and tb: "tables d t = Some pids" and tq: "tablePageSpaces d t = Some q"
  shows "tableInv (d\<lparr>nextId := Suc (nextId d), pages := (pages d)(nextId d := []),
            tables := (tables d)(t \<mapsto> pids @ [nextId d]),
            tablePageSpaces := (tablePageSpaces d)(t \<mapsto> qAdd q (nextId d, spacesLeft []))\<rparr>) {} t"
    (is "tableInv ?d' {} t")
proof -
  let ?n = "nextId d"
  note D = tableInv_SomeD[OF ti tb]
  have nin: "?n \<notin> set pids" using D(3) by blast
  from D(5) tq have qi: "queueInv (pages d) (set pids) q" by simp
  from D(6) obtain h where h: "tableHashes d t = Some h"
    and hv: "\<And>col ix. h col = Some ix \<Longrightarrow> idxValid (pages d) pids ix" by blast
  show ?thesis
  proof (rule tableInvI[where pids = "pids @ [?n]" and q = "qAdd q (?n, spacesLeft [])" and h = h])
    show "tables ?d' t = Some (pids @ [?n])" by simp
    show "pids @ [?n] \<noteq> []" by simp
    show "distinct (pids @ [?n])" using D(2) nin by simp
    show "pid < nextId ?d'" if "pid \<in> set (pids @ [?n])" for pid
      using that D(3)[of pid] by auto
    show "length (pages ?d' pid) \<le> maxNoOfRecsPerFile" if "pid \<in> set (pids @ [?n])" for pid
      using that D(4)[of pid] by auto
    show "tablePageSpaces ?d' t = Some (qAdd q (?n, spacesLeft []))" by simp
    have nq: "(?n, b) \<notin> set q" for b
    proof
      assume "(?n, b) \<in> set q"
      then have "fst (?n, b) \<in> fst ` set q" by (rule imageI)
      then show False using qi nin by (simp add: queueInv_def)
    qed
    show "queueInv (pages ?d') (set (pids @ [?n]) - {}) (qAdd q (?n, spacesLeft []))"
      using qi nq nin unfolding queueInv_def qAdd_def by (auto simp: image_Un)
    show "tableHashes ?d' t = Some h" using h by simp
    show "idxValid (pages ?d') (pids @ [?n]) ix" if "h col = Some ix" for col ix
    proof (rule idxValid_mono[OF hv[OF that]])
      show "set pids \<subseteq> set (pids @ [?n])" by auto
      show "length (pages d pid) \<le> length (pages ?d' pid)" if "pid \<in> set pids" for pid
        using that nin by auto
    qed
  qed
qed

lemma qPoll_SomeD:
  assumes "qPoll q = Some (e, q2)"
  shows "e \<in> set q" "q2 = remove1 e q" "\<And>x. x \<in> set q \<Longrightarrow> snd x \<le> snd e"
  using assms qPeek_mem[of q e] qPeek_max[of q e]
  by (auto simp: qPoll_def split: option.splits)

lemma qPoll_nonempty: "q \<noteq> [] \<Longrightarrow> \<exists>e q2. qPoll q = Some (e, q2)"
  by (cases "qPeek q") (auto simp: qPoll_def qPeek_None)

lemma tableInv_poll:
  assumes ti: "tableInv d {} t" and tb: "tables d t = Some pids" and tq: "tablePageSpaces d t = Some q"
    and pl: "qPoll q = Some (e, q2)"
  shows "tableInv (d\<lparr>tablePageSpaces := (tablePageSpaces d)(t \<mapsto> q2)\<rparr>) {fst e} t"
    and "fst e \<in> set pids" and "snd e = spacesLeft (pages d (fst e))"
proof -
  note D = tableInv_SomeD[OF ti tb]
  note P = qPoll_SomeD[OF pl]
  from D(5) tq have qi: "queueInv (pages d) (set pids) q" by simp
  from D(6) obtain h where h: "tableHashes d t = Some h"
    and hv: "\<And>col ix. h col = Some ix \<Longrightarrow> idxValid (pages d) pids ix" by blast
  show mem: "fst e \<in> set pids" using qi P(1) unfolding queueInv_def by force
  show "snd e = spacesLeft (pages d (fst e))" using qi P(1) unfolding queueInv_def by blast
  have dq: "distinct (map fst q)" using qi by (simp add: queueInv_def)
  have set2: "fst ` set q2 = set pids - {fst e}"
  proof -
    have "set q2 = set q - {e}" using dq P(2) by (simp add: distinct_map)
    moreover have "inj_on fst (set q)" using dq by (simp add: distinct_map)
    ultimately have "fst ` set q2 = fst ` set q - {fst e}"
      using P(1) by (auto simp: inj_on_def; force)
    then show ?thesis using qi by (simp add: queueInv_def)
  qed
  have q2i: "queueInv (pages d) (set pids - {fst e}) q2"
    unfolding queueInv_def
  proof (intro conjI)
    show "distinct (map fst q2)" using dq P(2)
      by (metis distinct_map distinct_remove1 inj_on_subset set_remove1_subset)
    show "fst ` set q2 = set pids - {fst e}" by (rule set2)
    show "\<forall>x\<in>set q2. snd x = spacesLeft (pages d (fst x))"
      using qi P(2) unfolding queueInv_def by (metis notin_set_remove1)
  qed
  show "tableInv (d\<lparr>tablePageSpaces := (tablePageSpaces d)(t \<mapsto> q2)\<rparr>) {fst e} t"
    by (rule tableInvI[where pids = pids and q = q2 and h = h])
       (use tb D h hv q2i in auto)
qed

lemma tableInv_insert:
  assumes ti: "tableInv d {pid} t" and tb: "tables d t = Some pids" and mem: "pid \<in> set pids"
    and len: "length (pages d pid) < maxNoOfRecsPerFile"
  shows "tableInv (d\<lparr>buf := b, pages := (pages d)(pid := pages d pid @ [r])\<rparr>) {pid} t"
    (is "tableInv ?d' _ t")
proof -
  note D = tableInv_SomeD[OF ti tb]
  from D(5) obtain q where q: "tablePageSpaces d t = Some q"
    and qi: "queueInv (pages d) (set pids - {pid}) q" by blast
  from D(6) obtain h where h: "tableHashes d t = Some h"
    and hv: "\<And>col ix. h col = Some ix \<Longrightarrow> idxValid (pages d) pids ix" by blast
  show ?thesis
  proof (rule tableInvI[where pids = pids and q = q and h = h])
    show "queueInv (pages ?d') (set pids - {pid}) q"
      by (rule queueInv_cong[OF qi]) simp
    show "idxValid (pages ?d') pids ix" if "h col = Some ix" for col ix
      by (rule idxValid_mono[OF hv[OF that]]) auto
    show "length (pages ?d' p) \<le> maxNoOfRecsPerFile" if "p \<in> set pids" for p
      using that D(4)[of p] len by auto
  qed (use tb D q h in auto)
qed

lemma tableInv_queueAdd:
  assumes ti: "tableInv d {pid} t" and tb: "tables d t = Some pids" and mem: "pid \<in> set pids"
    and tq: "tablePageSpaces d t = Some q"
  shows "tableInv (d\<lparr>tablePageSpaces :=
            (tablePageSpaces d)(t \<mapsto> qAdd q (pid, spacesLeft (pages d pid)))\<rparr>) {} t"
    (is "tableInv ?d' _ t")
proof -
  note D = tableInv_SomeD[OF ti tb]
  from D(5) tq have qi: "queueInv (pages d) (set pids - {pid}) q" by simp
  from D(6) obtain h where h: "tableHashes d t = Some h"
    and hv: "\<And>col ix. h col = Some ix \<Longrightarrow> idxValid (pages d) pids ix" by blast
  have "queueInv (pages d) (set pids) (qAdd q (pid, spacesLeft (pages d pid)))"
    using qi mem unfolding queueInv_def qAdd_def by (auto simp: image_Un)
  then show ?thesis
    by (intro tableInvI[where pids = pids and h = h
          and q = "qAdd q (pid, spacesLeft (pages d pid))"])
       (use tb D h hv in auto)
qed

lemma tableInv_nextId:
  assumes "tableInv d hole t"
  shows "tableInv (d\<lparr>nextId := Suc (nextId d)\<rparr>) hole t"
  using assms by (auto simp: tableInv_def split: option.splits intro: less_SucI)

lemma tableInv_setIndex:
  assumes ti: "tableInv d hole t" and tb: "tables d t = Some pids" and th: "tableHashes d t = Some h"
    and iv: "idxValid (pages d) pids ix"
  shows "tableInv (d\<lparr>tableHashes := (tableHashes d)(t \<mapsto> h(col \<mapsto> ix))\<rparr>) hole t"
proof -
  note D = tableInv_SomeD[OF ti tb]
  from D(5) obtain q where q: "tablePageSpaces d t = Some q"
    and qi: "queueInv (pages d) (set pids - hole) q" by blast
  from D(6) th have hv: "\<And>c i. h c = Some i \<Longrightarrow> idxValid (pages d) pids i" by auto
  show ?thesis
    by (rule tableInvI[where pids = pids and q = q and h = "h(col \<mapsto> ix)"])
       (use tb D q qi hv iv in \<open>auto split: if_splits\<close>)
qed

section \<open>The catalog operations keep the invariant\<close>

lemma dbInvH_empty: "dbInvH d t {} = dbInv d"
  by (simp add: dbInv_def dbInvH_def)

lemma dbInvH_tableInv: "dbInvH d t hole \<Longrightarrow> tableInv d hole t"
  unfolding dbInvH_def by (metis (full_types))

lemma dbInv_tableInv: "dbInv d \<Longrightarrow> tableInv d {} t"
  unfolding dbInv_def dbInvH_def by (metis (full_types))

lemma dbInvH_other_pages:
  assumes "dbInvH d t hole" "tables d t = Some pids" "pid \<in> set pids"
    "t' \<noteq> t" "tables d t' = Some pids'"
  shows "pid \<notin> set pids'"
  using assms unfolding dbInvH_def disjointTables_def by blast

lemma growsBy_refl [simp]: "tables d t \<noteq> None \<Longrightarrow> growsBy t {#} d d"
  by (simp add: growsBy_def)

lemma growsBy_sameData: "sameData d d' \<Longrightarrow> tables d t \<noteq> None \<Longrightarrow> growsBy t {#} d d'"
  using tableRecs_sameData[of d d' t]
  by (simp add: growsBy_def stepOn_sameData) (simp add: sameData_def pidsOf_def)

lemma growsBy_trans:
  assumes "growsBy t M d d'" "growsBy t N d' d''"
  shows "growsBy t (M + N) d d''"
proof -
  have ext: "\<exists>ys. pages d'' pid = pages d pid @ ys" if "pid \<in> pidsOf d t" for pid
  proof -
    from assms(1) that obtain ys where 1: "pages d' pid = pages d pid @ ys"
      and "pid \<in> pidsOf d' t" by (auto simp: growsBy_def)
    with assms(2) obtain zs where "pages d'' pid = pages d' pid @ zs" by (auto simp: growsBy_def)
    with 1 show ?thesis by simp
  qed
  from assms show ?thesis
    unfolding growsBy_def using stepOn_trans[of t d d' d''] ext
    by (auto simp: ac_simps)
qed

lemma mset_concat_upd_gen:
  assumes "distinct pids" "pid \<in> set pids" "g pid = f pid @ [r]" "\<And>p. p \<noteq> pid \<Longrightarrow> g p = f p"
  shows "mset (concat (map g pids)) = mset (concat (map f pids)) + {#r#}"
  using assms(1,2)
proof (induction pids)
  case Nil
  then show ?case by simp
next
  case (Cons a pids)
  show ?case
  proof (cases "a = pid")
    case True
    with Cons.prems have "pid \<notin> set pids" by simp
    then have eq: "map g pids = map f pids" using assms(4) by (intro map_cong) (auto, metis)
    show ?thesis unfolding True list.map concat.simps eq assms(3) by simp
  next
    case False
    with Cons assms(4) show ?thesis by simp
  qed
qed

lemma mset_concat_upd:
  assumes "distinct pids" "pid \<in> set pids"
  shows "mset (concat (map (f(pid := f pid @ [r])) pids)) = mset (concat (map f pids)) + {#r#}"
  by (rule mset_concat_upd_gen[OF assms]) auto

lemma addNewPageToTable_ok:
  assumes inv: "dbInv d" and tb: "tables d t = Some pids"
  shows "\<exists>d'. addNewPageToTable d t = Inr d' \<and> dbInv d' \<and> growsBy t {#} d d' \<and>
           tables d' t = Some (pids @ [nextId d]) \<and> pages d' (nextId d) = [] \<and> buf d' = buf d \<and>
           (\<exists>q. tablePageSpaces d t = Some q \<and>
                 tablePageSpaces d' t = Some (qAdd q (nextId d, spacesLeft [])))"
proof -
  have ti: "tableInv d {} t" using inv by (rule dbInv_tableInv)
  note D = tableInv_SomeD[OF ti tb]
  from D(5) obtain q where q: "tablePageSpaces d t = Some q" by blast
  let ?d' = "d\<lparr>nextId := Suc (nextId d), pages := (pages d)(nextId d := []),
            tables := (tables d)(t \<mapsto> pids @ [nextId d]),
            tablePageSpaces := (tablePageSpaces d)(t \<mapsto> qAdd q (nextId d, spacesLeft []))\<rparr>"
  have run: "addNewPageToTable d t = Inr ?d'"
    using tb q by (simp add: addNewPageToTable_def Let_def)
  have fresh: "nextId d \<notin> set pids'" if "tables d t' = Some pids'" for t' pids'
    using tableInv_SomeD(3)[OF dbInv_tableInv[OF inv] that, of "nextId d"] by auto
  have fr: "frameExcept {t} d ?d'"
    unfolding frameExcept_def using fresh by auto
  have st: "stepOn t d ?d'"
    unfolding stepOn_def using fr tb by (auto simp: pidsOf_def)
  have ti': "tableInv ?d' {} t" by (rule tableInv_newPage[OF ti tb q])
  have "dbInvH d t {}" using inv by (simp add: dbInvH_empty)
  from dbInvH_step[OF this st ti'] have inv': "dbInv ?d'" by (simp add: dbInvH_empty)
  have recs: "tableRecs ?d' t = tableRecs d t"
  proof -
    have eq: "map ((pages d)(nextId d := [])) pids = map (pages d) pids"
      using fresh[OF tb] by (intro map_cong) auto
    show ?thesis using tb by (simp add: tableRecs_def eq)
  qed
  have gr: "growsBy t {#} d ?d'"
    unfolding growsBy_def using st tb recs fresh[OF tb] by (auto simp: pidsOf_def)
  show ?thesis using run inv' gr q by auto
qed

lemma getPageToInsert_ok:
  assumes inv: "dbInv d" and tb: "tables d t = Some pids"
  shows "\<exists>pid sl d' pids'. getPageToInsert d t = Inr ((pid, sl), d') \<and> dbInvH d' t {pid} \<and>
           growsBy t {#} d d' \<and> tables d' t = Some pids' \<and> pid \<in> set pids' \<and>
           sl = spacesLeft (pages d' pid) \<and> 0 < sl \<and> buf d' = buf d"
proof -
  have ti: "tableInv d {} t" using inv by (rule dbInv_tableInv)
  note D = tableInv_SomeD[OF ti tb]
  from D(5) obtain q where q: "tablePageSpaces d t = Some q"
    and qi: "queueInv (pages d) (set pids) q" by auto
  have qne: "q \<noteq> []" using qi D(1) by (auto simp: queueInv_def)
  then obtain tp where tp: "qPeek q = Some tp" by (cases "qPeek q") (auto simp: qPeek_None)
  define d1 where "d1 = (if snd tp = 0 then addNewPageToTable d t else Inr d)"
  have "\<exists>d1' pids1 q1. d1 = Inr d1' \<and> dbInv d1' \<and> growsBy t {#} d d1' \<and>
          tables d1' t = Some pids1 \<and> tablePageSpaces d1' t = Some q1 \<and> q1 \<noteq> [] \<and> buf d1' = buf d"
  proof (cases "snd tp = 0")
    case True
    from addNewPageToTable_ok[OF inv tb] True show ?thesis
      unfolding d1_def by (auto simp: qAdd_def)
  next
    case False
    then show ?thesis unfolding d1_def using inv tb q qne by auto
  qed
  then obtain d1' pids1 q1 where d1: "d1 = Inr d1'" and inv1: "dbInv d1'"
    and gr1: "growsBy t {#} d d1'" and tb1: "tables d1' t = Some pids1"
    and q1: "tablePageSpaces d1' t = Some q1" and q1ne: "q1 \<noteq> []" and b1: "buf d1' = buf d"
    by blast
  from qPoll_nonempty[OF q1ne] obtain e q2 where pl: "qPoll q1 = Some (e, q2)" by blast
  let ?d' = "d1'\<lparr>tablePageSpaces := (tablePageSpaces d1')(t \<mapsto> q2)\<rparr>"
  have run: "getPageToInsert d t = Inr (e, ?d')"
    using q tp d1 q1 pl by (simp add: getPageToInsert_def d1_def[symmetric])
  have ti1: "tableInv d1' {} t" using inv1 by (rule dbInv_tableInv)
  note P = tableInv_poll[OF ti1 tb1 q1 pl]
  have fr: "frameExcept {t} d1' ?d'" unfolding frameExcept_def by auto
  have st: "stepOn t d1' ?d'" unfolding stepOn_def using fr by (auto simp: pidsOf_def)
  have "dbInvH d1' t {}" using inv1 by (simp add: dbInvH_empty)
  from dbInvH_step[OF this st P(1)] have inv': "dbInvH ?d' t {fst e}" .
  have gr2: "growsBy t {#} d1' ?d'"
    unfolding growsBy_def using st tb1 by (auto simp: pidsOf_def tableRecs_def)
  have gr: "growsBy t {#} d ?d'" using growsBy_trans[OF gr1 gr2] by simp
  have pos: "0 < snd e" using getPageToInsert_spaces[of d t "fst e" "snd e" ?d'] run by simp
  have "getPageToInsert d t = Inr ((fst e, snd e), ?d') \<and> dbInvH ?d' t {fst e} \<and>
           growsBy t {#} d ?d' \<and> tables ?d' t = Some pids1 \<and> fst e \<in> set pids1 \<and>
           snd e = spacesLeft (pages ?d' (fst e)) \<and> 0 < snd e \<and> buf ?d' = buf d"
    using run inv' gr tb1 P(2,3) pos b1 by (cases e) auto
  then show ?thesis by blast
qed

lemma insertRecord_step:
  assumes inv: "dbInvH d t {pid}" and tb: "tables d t = Some pids" and mem: "pid \<in> set pids"
    and hp: "hasPage d pid" and len: "length (pages d pid) < maxNoOfRecsPerFile"
  shows "\<exists>d'. insertRecord d pid r = Inr (length (pages d pid), d') \<and> dbInvH d' t {pid} \<and>
           growsBy t {#r#} d d' \<and> tables d' = tables d \<and> hasPage d' pid \<and>
           pages d' pid = pages d pid @ [r] \<and> tablePageSpaces d' = tablePageSpaces d"
proof -
  let ?d' = "d\<lparr>buf := pid # remove1 pid (buf d), pages := (pages d)(pid := pages d pid @ [r])\<rparr>"
  have run: "insertRecord d pid r = Inr (length (pages d pid), ?d')"
    by (rule insertRecord_ok[OF hp len])
  have ti: "tableInv d {pid} t" using inv by (rule dbInvH_tableInv)
  note D = tableInv_SomeD[OF ti tb]
  have ti': "tableInv ?d' {pid} t" by (rule tableInv_insert[OF ti tb mem len])
  have fr: "frameExcept {t} d ?d'"
    unfolding frameExcept_def using dbInvH_other_pages[OF inv tb mem] by auto
  have st: "stepOn t d ?d'" unfolding stepOn_def using fr by (auto simp: pidsOf_def)
  have inv': "dbInvH ?d' t {pid}" by (rule dbInvH_step[OF inv st ti'])
  have recs: "mset (tableRecs ?d' t) = mset (tableRecs d t) + {#r#}"
    using tb mset_concat_upd[OF D(2) mem, of "pages d" r] by (simp add: tableRecs_def)
  have gr: "growsBy t {#r#} d ?d'"
    unfolding growsBy_def using st tb recs by (auto simp: pidsOf_def)
  show ?thesis using run inv' gr by (auto simp: hasPage_def)
qed

lemma queueAdd_ok:
  assumes inv: "dbInvH d t {pid}" and tb: "tables d t = Some pids" and mem: "pid \<in> set pids"
  shows "\<exists>d'. queueAdd d t pid = Inr d' \<and> dbInv d' \<and> growsBy t {#} d d' \<and> buf d' = buf d"
proof -
  have ti: "tableInv d {pid} t" using inv by (rule dbInvH_tableInv)
  from tableInv_SomeD(5)[OF ti tb] obtain q where q: "tablePageSpaces d t = Some q" by blast
  let ?d' = "d\<lparr>tablePageSpaces :=
            (tablePageSpaces d)(t \<mapsto> qAdd q (pid, spacesLeft (pages d pid)))\<rparr>"
  have run: "queueAdd d t pid = Inr ?d'" using q by (simp add: queueAdd_def)
  have ti': "tableInv ?d' {} t" by (rule tableInv_queueAdd[OF ti tb mem q])
  have fr: "frameExcept {t} d ?d'" unfolding frameExcept_def by auto
  have st: "stepOn t d ?d'" unfolding stepOn_def using fr by (auto simp: pidsOf_def)
  have inv': "dbInv ?d'" using dbInvH_step[OF inv st ti'] by (simp add: dbInvH_empty)
  have gr: "growsBy t {#} d ?d'"
    unfolding growsBy_def using st tb by (auto simp: pidsOf_def tableRecs_def)
  show ?thesis using run inv' gr by auto
qed

lemma dbInvH_nextId:
  assumes "dbInvH d t hole"
  shows "dbInvH (d\<lparr>nextId := Suc (nextId d)\<rparr>) t hole"
  using assms tableInv_nextId unfolding dbInvH_def disjointTables_def by simp

lemma growsBy_nextId:
  assumes "tables d t \<noteq> None"
  shows "growsBy t {#} d (d\<lparr>nextId := Suc (nextId d)\<rparr>)"
  using assms
  by (auto simp: growsBy_def stepOn_def frameExcept_def pidsOf_def tableRecs_def)

lemma withId_ok:
  assumes "dbInvH d t hole" "tables d t \<noteq> None"
  shows "\<exists>r' d1. withId d t r = (r', d1) \<and> dbInvH d1 t hole \<and> growsBy t {#} d d1 \<and>
           storedAs r' r \<and> tables d1 = tables d \<and> pages d1 = pages d \<and> buf d1 = buf d"
proof (cases "hasKey r ''_id''")
  case True
  with assms show ?thesis by (simp add: withId_def storedAs_def)
next
  case False
  with assms dbInvH_nextId[OF assms(1)] growsBy_nextId[OF assms(2)] show ?thesis
    by (simp add: withId_def storedAs_def)
qed

lemma spacesLeft_less: "0 < spacesLeft p \<Longrightarrow> length p < maxNoOfRecsPerFile"
  by (simp add: spacesLeft_def)

lemma spacesLeft_append: "spacesLeft (p @ [r]) = spacesLeft p - 1"
  by (simp add: spacesLeft_def)

lemma fillPage_ok:
  assumes "dbInvH d t {pid}" "tables d t = Some pids" "pid \<in> set pids" "hasPage d pid"
    "n \<le> spacesLeft (pages d pid)"
  shows "\<exists>d' stored. fillPage t pid n rs d = Inr (drop n rs, d') \<and> dbInvH d' t {pid} \<and>
           growsBy t (mset stored) d d' \<and> list_all2 storedAs stored (take n rs) \<and>
           tables d' t = Some pids"
  using assms
proof (induction t pid n rs d rule: fillPage.induct)
  case (1 t pid rs d)
  then show ?case by (intro exI[of _ d] exI[of _ "[]"]) simp
next
  case (2 t pid n d)
  then show ?case by (intro exI[of _ d] exI[of _ "[]"]) simp
next
  case (3 t pid n r rs d)
  have tn: "tables d t \<noteq> None" using "3.prems"(2) by simp
  from withId_ok[OF "3.prems"(1) tn, of r] obtain r' d1 where
    w: "withId d t r = (r', d1)" and inv1: "dbInvH d1 t {pid}" and gr1: "growsBy t {#} d d1"
    and sa: "storedAs r' r" and tb1: "tables d1 = tables d" and pg1: "pages d1 = pages d"
    and b1: "buf d1 = buf d" by blast
  have tb1': "tables d1 t = Some pids" using tb1 "3.prems"(2) by simp
  have hp1: "hasPage d1 pid" using "3.prems"(4) b1 by (simp add: hasPage_def)
  have len1: "length (pages d1 pid) < maxNoOfRecsPerFile"
    using "3.prems"(5) pg1 by (intro spacesLeft_less) simp
  from insertRecord_step[OF inv1 tb1' "3.prems"(3) hp1 len1, of r'] obtain d2 where
    ins: "insertRecord d1 pid r' = Inr (length (pages d1 pid), d2)" and inv2: "dbInvH d2 t {pid}"
    and gr2: "growsBy t {#r'#} d1 d2" and tb2: "tables d2 = tables d1" and hp2: "hasPage d2 pid"
    and pg2: "pages d2 pid = pages d1 pid @ [r']" by blast
  have tb2': "tables d2 t = Some pids" using tb2 tb1' by simp
  have n2: "n \<le> spacesLeft (pages d2 pid)"
    using "3.prems"(5) pg1 pg2 by (simp add: spacesLeft_append)
  from "3.IH"[OF w[symmetric] ins refl inv2 tb2' "3.prems"(3) hp2 n2]
  obtain d' stored where
    run: "fillPage t pid n rs d2 = Inr (drop n rs, d')" and inv': "dbInvH d' t {pid}"
    and gr3: "growsBy t (mset stored) d2 d'" and la: "list_all2 storedAs stored (take n rs)"
    and tb': "tables d' t = Some pids" by auto
  have gr: "growsBy t (mset (r' # stored)) d d'"
    using growsBy_trans[OF growsBy_trans[OF gr1 gr2] gr3] by simp
  have "fillPage t pid (Suc n) (r # rs) d = Inr (drop (Suc n) (r # rs), d')"
    using w ins run by simp
  with inv' gr la sa tb' show ?case
    by (intro exI[of _ d'] exI[of _ "r' # stored"]) simp
qed

lemma insertRecordsLoop_ok:
  assumes "dbInv d" "tables d t \<noteq> None"
  shows "\<exists>d' stored. insertRecordsLoop t rs d = Inr d' \<and> dbInv d' \<and>
           growsBy t (mset stored) d d' \<and> list_all2 storedAs stored rs"
  using assms
proof (induction "length rs" arbitrary: rs d rule: less_induct)
  case less
  show ?case
  proof (cases "rs = []")
    case True
    with less.prems show ?thesis
      by (intro exI[of _ d] exI[of _ "[]"]) simp
  next
    case False
    from less.prems(2) obtain pids where tb: "tables d t = Some pids" by auto
    from getPageToInsert_ok[OF less.prems(1) tb] obtain pid sl d1 pids1 where
      g: "getPageToInsert d t = Inr ((pid, sl), d1)" and inv1: "dbInvH d1 t {pid}"
      and gr1: "growsBy t {#} d d1" and tb1: "tables d1 t = Some pids1" and mem: "pid \<in> set pids1"
      and sl: "sl = spacesLeft (pages d1 pid)" and pos: "0 < sl" by blast
    from ensurePage_ok[OF mem, of d1] obtain d2 where
      e: "ensurePage d1 (Some pids1) pid = Inr d2" and sd: "sameData d1 d2" and hp: "hasPage d2 pid"
      by blast
    have inv2: "dbInvH d2 t {pid}" using inv1 dbInvH_sameData[OF sd] by simp
    have tb2: "tables d2 t = Some pids1" using tb1 sd by (simp add: sameData_def)
    have sl2: "sl \<le> spacesLeft (pages d2 pid)" using sl sd by (simp add: sameData_def)
    have gr2: "growsBy t {#} d1 d2" using growsBy_sameData[OF sd] tb1 by simp
    from fillPage_ok[OF inv2 tb2 mem hp sl2, of rs] obtain d3 stored1 where
      f: "fillPage t pid sl rs d2 = Inr (drop sl rs, d3)" and inv3: "dbInvH d3 t {pid}"
      and gr3: "growsBy t (mset stored1) d2 d3" and la1: "list_all2 storedAs stored1 (take sl rs)"
      and tb3: "tables d3 t = Some pids1" by blast
    from queueAdd_ok[OF inv3 tb3 mem] obtain d4 where
      qa: "queueAdd d3 t pid = Inr d4" and inv4: "dbInv d4" and gr4: "growsBy t {#} d3 d4"
      by blast
    have tb4: "tables d4 t \<noteq> None" using gr4 by (simp add: growsBy_def)
    have shorter: "length (drop sl rs) < length rs" using False pos by simp
    from less.hyps[OF shorter inv4 tb4] obtain d' stored2 where
      rec: "insertRecordsLoop t (drop sl rs) d4 = Inr d'" and inv': "dbInv d'"
      and gr5: "growsBy t (mset stored2) d4 d'" and la2: "list_all2 storedAs stored2 (drop sl rs)"
      by blast
    have run: "insertRecordsLoop t rs d = Inr d'"
      using False g tb1 e f qa rec by (subst insertRecordsLoop.simps) simp
    have gr: "growsBy t (mset (stored1 @ stored2)) d d'"
      using growsBy_trans[OF growsBy_trans[OF growsBy_trans[OF growsBy_trans[OF gr1 gr2] gr3] gr4] gr5]
      by simp
    have la: "list_all2 storedAs (stored1 @ stored2) rs"
      using list_all2_appendI[OF la1 la2] by simp
    from run inv' gr la show ?thesis by blast
  qed
qed

lemma insertRecords_ok:
  assumes "dbInv d" "tables d t \<noteq> None"
  shows "\<exists>d' stored. insertRecords d t rs = Inr d' \<and> dbInv d' \<and>
           growsBy t (mset stored) d d' \<and> list_all2 storedAs stored rs"
  using insertRecordsLoop_ok[OF assms] by (simp add: insertRecords_def)

section \<open>Creating, clearing, dropping and hashing a table\<close>

lemma addTable_existing: "tables d t \<noteq> None \<Longrightarrow> addTable d t colNames = Inr (False, d)"
  by (simp add: addTable_def)

lemma addTable_new:
  assumes inv: "dbInv d" and tb: "tables d t = None"
  shows "\<exists>d'. addTable d t colNames = Inr (True, d') \<and> dbInv d' \<and> frameExcept {t} d d' \<and>
           tables d' t = Some [nextId d] \<and> tableRecs d' t = [] \<and>
           tableHashes d' t = Some Map.empty \<and> tableCols d' t = Some colNames \<and>
           nextId d' = Suc (nextId d) \<and> buf d' = buf d"
proof -
  let ?n = "nextId d"
  let ?d' = "d\<lparr>tables := (tables d)(t \<mapsto> []),
                tableHashes := (tableHashes d)(t \<mapsto> Map.empty),
                tablePageSpaces := (tablePageSpaces d)(t \<mapsto> []),
                tableCols := (tableCols d)(t \<mapsto> colNames),
                nextId := Suc ?n, pages := (pages d)(?n := []),
                tables := ((tables d)(t \<mapsto> []))(t \<mapsto> [] @ [?n]),
                tablePageSpaces := ((tablePageSpaces d)(t \<mapsto> []))(t \<mapsto> qAdd [] (?n, spacesLeft []))\<rparr>"
  have run: "addTable d t colNames = Inr (True, ?d')"
    using tb by (simp add: addTable_def addNewPageToTable_def Let_def)
  have fresh: "?n \<notin> set pids'" if "tables d t' = Some pids'" for t' pids'
    using tableInv_SomeD(3)[OF dbInv_tableInv[OF inv] that, of ?n] by auto
  have fr: "frameExcept {t} d ?d'"
    unfolding frameExcept_def using fresh by auto
  have st: "stepOn t d ?d'"
    unfolding stepOn_def using fr by (auto simp: pidsOf_def)
  have ti': "tableInv ?d' {} t"
    by (rule tableInvI[where pids = "[?n]" and q = "[(?n, spacesLeft [])]" and h = Map.empty])
       (auto simp: queueInv_def qAdd_def)
  have "dbInvH d t {}" using inv by (simp add: dbInvH_empty)
  from dbInvH_step[OF this st ti'] have inv': "dbInv ?d'" by (simp add: dbInvH_empty)
  show ?thesis using run inv' fr by (auto simp: tableRecs_def)
qed

lemma addTable_ok:
  assumes "dbInv d"
  shows "\<exists>b d'. addTable d t colNames = Inr (b, d') \<and> dbInv d' \<and> frameExcept {t} d d' \<and>
           tables d' t \<noteq> None"
proof (cases "tables d t")
  case None
  from addTable_new[OF assms None, of colNames] show ?thesis by auto
next
  case (Some a)
  with assms show ?thesis by (auto simp: addTable_existing)
qed

lemma clearPages_ok:
  "\<exists>d'. clearPages ps acc d = Inr (acc @ map (\<lambda>p. (p, spacesLeft [])) ps, d') \<and>
         pages d' = (\<lambda>p. if p \<in> set ps then [] else pages d p) \<and> tables d' = tables d \<and>
         tablePageSpaces d' = tablePageSpaces d \<and> tableCols d' = tableCols d \<and>
         tableHashes d' = tableHashes d \<and> nextId d' = nextId d"
proof (induction ps arbitrary: acc d)
  case Nil
  then show ?case by simp
next
  case (Cons p ps)
  let ?d0 = "if hasPage d p then d else addPage d p"
  have hp: "hasPage ?d0 p" by simp
  let ?d1 = "?d0\<lparr>buf := p # remove1 p (buf ?d0), pages := (pages ?d0)(p := [])\<rparr>"
  have c: "clearPage ?d0 p = Inr ?d1" by (rule clearPage_ok[OF hp])
  have pg0: "pages ?d0 = pages d" by (simp add: addPage_def)
  from Cons.IH[of "acc @ [(p, spacesLeft (pages ?d1 p))]" ?d1] obtain d' where
    run: "clearPages ps (acc @ [(p, spacesLeft (pages ?d1 p))]) ?d1 =
            Inr ((acc @ [(p, spacesLeft (pages ?d1 p))]) @ map (\<lambda>p. (p, spacesLeft [])) ps, d')"
    and pg: "pages d' = (\<lambda>x. if x \<in> set ps then [] else pages ?d1 x)"
    and rest: "tables d' = tables ?d1" "tablePageSpaces d' = tablePageSpaces ?d1"
      "tableCols d' = tableCols ?d1" "tableHashes d' = tableHashes ?d1" "nextId d' = nextId ?d1"
    by blast
  have "clearPages (p # ps) acc d = Inr (acc @ map (\<lambda>p. (p, spacesLeft [])) (p # ps), d')"
    using c run by simp
  moreover have "pages d' = (\<lambda>x. if x \<in> set (p # ps) then [] else pages d x)"
    using pg pg0 by (auto simp: fun_eq_iff)
  ultimately show ?case using rest by (auto simp: addPage_def)
qed

lemma clearTable_ok:
  assumes inv: "dbInv d" and tb: "tables d t = Some pids"
  shows "\<exists>d'. clearTable d t = Inr d' \<and> dbInv d' \<and> frameExcept {t} d d' \<and>
           tables d' t = Some pids \<and> tableRecs d' t = [] \<and>
           tableHashes d' t = Some Map.empty \<and> nextId d' = nextId d \<and>
           tableCols d' = tableCols d"
proof -
  have ti: "tableInv d {} t" using inv by (rule dbInv_tableInv)
  note D = tableInv_SomeD[OF ti tb]
  from D(5) obtain q where q: "tablePageSpaces d t = Some q" by blast
  from clearPages_ok[of pids "[]" d] obtain d1 where
    cp: "clearPages pids [] d = Inr (map (\<lambda>p. (p, spacesLeft [])) pids, d1)"
    and pg: "pages d1 = (\<lambda>p. if p \<in> set pids then [] else pages d p)"
    and rest: "tables d1 = tables d" "tablePageSpaces d1 = tablePageSpaces d"
      "tableCols d1 = tableCols d" "tableHashes d1 = tableHashes d" "nextId d1 = nextId d"
    by auto
  let ?q = "map (\<lambda>p. (p, spacesLeft [])) pids"
  let ?d' = "d1\<lparr>tablePageSpaces := (tablePageSpaces d1)(t \<mapsto> ?q),
                tableHashes := (tableHashes d1)(t \<mapsto> Map.empty)\<rparr>"
  have run: "clearTable d t = Inr ?d'"
    using tb cp q rest by (simp add: clearTable_def)
  have other: "pid \<notin> set pids" if "t' \<noteq> t" "tables d t' = Some pids'" "pid \<in> set pids'"
    for t' pids' pid
    using inv tb that unfolding dbInv_def dbInvH_def disjointTables_def by blast
  have fr: "frameExcept {t} d ?d'"
    unfolding frameExcept_def using rest pg other by auto
  have st: "stepOn t d ?d'" unfolding stepOn_def using fr rest tb by (auto simp: pidsOf_def)
  have ti': "tableInv ?d' {} t"
  proof (rule tableInvI[where pids = pids and q = ?q and h = Map.empty])
    show "queueInv (pages ?d') (set pids - {}) ?q"
      using D(2) pg by (auto simp: queueInv_def comp_def image_image)
  qed (use tb rest D pg in auto)
  have "dbInvH d t {}" using inv by (simp add: dbInvH_empty)
  from dbInvH_step[OF this st ti'] have inv': "dbInv ?d'" by (simp add: dbInvH_empty)
  have "tableRecs ?d' t = []" using tb rest pg by (simp add: tableRecs_def)
  with run inv' fr tb rest show ?thesis by auto
qed

lemma dropTable_ok:
  assumes inv: "dbInv d"
  shows "\<exists>d'. dropTable d t = Inr d' \<and> dbInv d' \<and> frameExcept {t} d d' \<and> tables d' t = None"
proof (cases "tables d t")
  case None
  with inv show ?thesis by (simp add: dropTable_def)
next
  case (Some pids)
  from clearTable_ok[OF inv Some] obtain d1 where
    c: "clearTable d t = Inr d1" and inv1: "dbInv d1" and fr1: "frameExcept {t} d d1" by blast
  let ?d' = "d1\<lparr>tables := (tables d1)(t := None),
                  tablePageSpaces := (tablePageSpaces d1)(t := None),
                  tableHashes := (tableHashes d1)(t := None),
                  tableCols := (tableCols d1)(t := None)\<rparr>"
  have run: "dropTable d t = Inr ?d'" using Some c by (simp add: dropTable_def)
  have fr2: "frameExcept {t} d1 ?d'" unfolding frameExcept_def by auto
  have st: "stepOn t d1 ?d'" unfolding stepOn_def using fr2 by (auto simp: pidsOf_def)
  have ti': "tableInv ?d' {} t" by (simp add: tableInv_def)
  have "dbInvH d1 t {}" using inv1 by (simp add: dbInvH_empty)
  from dbInvH_step[OF this st ti'] have inv': "dbInv ?d'" by (simp add: dbInvH_empty)
  from run inv' frameExcept_trans[OF fr1 fr2] show ?thesis by auto
qed

section \<open>Hash indexes\<close>

lemma idxGet_idxSet: "idxGet (idxSet ix v ls) v' = (if v' = v then Some ls else idxGet ix v')"
  by (induction ix) (auto simp: idxGet_def)

lemma set_idxKeys: "set (idxKeys ix) = fst ` set ix"
  by (auto simp: idxKeys_def)

lemma idxHas_keys: "idxHas ix v \<longleftrightarrow> v \<in> set (idxKeys ix)"
  by (simp add: idxHas_def set_idxKeys map_of_eq_None_iff)

lemma idxHas_idxGet: "idxHas ix v \<longleftrightarrow> idxGet ix v \<noteq> None"
  by (simp add: idxHas_def idxGet_def)

lemma idxKeys_idxSet: "set (idxKeys (idxSet ix v ls)) = insert v (set (idxKeys ix))"
proof (induction ix)
  case Nil
  then show ?case by (simp add: set_idxKeys)
next
  case (Cons a ix)
  then show ?case by (cases a) (auto simp: set_idxKeys)
qed

lemma set_idxSet: "set (idxSet ix v ls) \<subseteq> insert (v, ls) (set ix)"
proof (induction ix)
  case Nil
  then show ?case by simp
next
  case (Cons a ix)
  then show ?case by (cases a) auto
qed

lemma idxGet_mem: "idxGet ix v = Some ls \<Longrightarrow> (v, ls) \<in> set ix"
  by (simp add: idxGet_def map_of_SomeD)

lemma idxValid_idxSet:
  assumes "idxValid pgs pids ix" "locsValid pgs pids ls"
  shows "idxValid pgs pids (idxSet ix v ls)"
  using assms set_idxSet[of ix v ls] unfolding idxValid_def by auto

lemma idxValid_idxGet: "idxValid pgs pids ix \<Longrightarrow> idxGet ix v = Some ls \<Longrightarrow> locsValid pgs pids ls"
  using idxGet_mem[of ix v ls] unfolding idxValid_def by auto

lemma hashPage_keys:
  "set (idxKeys (hashPage col pid i rs ix)) = set (idxKeys ix) \<union> (\<lambda>r. getField r col) ` set rs"
  by (induction col pid i rs ix rule: hashPage.induct)
     (auto simp: Let_def idxKeys_idxSet split: option.splits)

lemma hashPage_valid:
  assumes "idxValid pgs pids ix" "pid \<in> set pids" "i + length rs \<le> length (pgs pid)"
  shows "idxValid pgs pids (hashPage col pid i rs ix)"
  using assms
proof (induction col pid i rs ix rule: hashPage.induct)
  case (1 col pid i ix)
  then show ?case by simp
next
  case (2 col pid i r rs ix)
  let ?v = "getField r col"
  have new: "locsValid pgs pids [(pid, i)]" using "2.prems" by (simp add: locsValid_def)
  have step: "idxValid pgs pids
      (case idxGet ix ?v of None \<Rightarrow> idxSet ix ?v [(pid, i)] | Some ls \<Rightarrow> idxSet ix ?v (ls @ [(pid, i)]))"
  proof (cases "idxGet ix ?v")
    case None
    then show ?thesis using idxValid_idxSet[OF "2.prems"(1) new] by simp
  next
    case (Some ls)
    from idxValid_idxGet[OF "2.prems"(1) Some] new have "locsValid pgs pids (ls @ [(pid, i)])"
      by (auto simp: locsValid_def)
    then show ?thesis using idxValid_idxSet[OF "2.prems"(1)] Some by simp
  qed
  show ?case using "2.IH"[OF refl step "2.prems"(2)] "2.prems"(3) by (simp add: Let_def)
qed

lemma hashAll_keys:
  "set (idxKeys (hashAll col pgs ps ix)) =
     set (idxKeys ix) \<union> (\<lambda>r. getField r col) ` set (concat (map pgs ps))"
  by (induction ps arbitrary: ix) (auto simp: hashPage_keys)

lemma hashAll_valid:
  assumes "idxValid pgs pids ix" "set ps \<subseteq> set pids"
  shows "idxValid pgs pids (hashAll col pgs ps ix)"
  using assms by (induction ps arbitrary: ix) (auto simp: hashPage_valid)

lemma hashAll_empty: "concat (map pgs ps) = [] \<Longrightarrow> hashAll col pgs ps ix = ix"
  by (induction ps arbitrary: ix) auto

lemma hashPages_ok:
  assumes "set ps \<subseteq> set pids"
  shows "\<exists>d'. hashPages col (Some pids) ps ix d = Inr (hashAll col (pages d) ps ix, d') \<and>
           sameData d d'"
  using assms
proof (induction ps arbitrary: ix d)
  case Nil
  then show ?case by simp
next
  case (Cons p ps)
  then have mem: "p \<in> set pids" by simp
  from ensurePage_ok[OF mem, of d] obtain d1 where
    e: "ensurePage d (Some pids) p = Inr d1" and sd1: "sameData d d1" and hp: "hasPage d1 p"
    by blast
  from getPageContents_ok[OF hp] obtain d2 where
    g: "getPageContents d1 p = Inr (pages d1 p, d2)" and sd2: "sameData d1 d2" by blast
  from Cons.IH[of "hashPage col p 0 (pages d1 p) ix" d2] Cons.prems obtain d' where
    r: "hashPages col (Some pids) ps (hashPage col p 0 (pages d1 p) ix) d2 =
          Inr (hashAll col (pages d2) ps (hashPage col p 0 (pages d1 p) ix), d')"
    and sd3: "sameData d2 d'" by auto
  have pg: "pages d1 = pages d" "pages d2 = pages d" using sd1 sd2 by (simp_all add: sameData_def)
  have "hashPages col (Some pids) (p # ps) ix d = Inr (hashAll col (pages d) (p # ps) ix, d')"
    using e g r pg by simp
  with sameData_trans[OF sameData_trans[OF sd1 sd2] sd3] show ?case by blast
qed

lemma hashTable_ok:
  assumes inv: "dbInv d" and tb: "tables d t = Some pids"
  shows "\<exists>d1 h. hashTable d t col True =
             Inr (d1\<lparr>tableHashes := (tableHashes d)(t \<mapsto> h(col \<mapsto> hashAll col (pages d) pids []))\<rparr>) \<and>
           sameData d d1 \<and> tableHashes d t = Some h \<and>
           dbInv (d1\<lparr>tableHashes := (tableHashes d)(t \<mapsto> h(col \<mapsto> hashAll col (pages d) pids []))\<rparr>)"
proof -
  have ti: "tableInv d {} t" using inv by (rule dbInv_tableInv)
  from tableInv_SomeD(6)[OF ti tb] obtain h where h: "tableHashes d t = Some h" by blast
  from hashPages_ok[of pids pids col "[]" d] obtain d1 where
    hp: "hashPages col (Some pids) pids [] d = Inr (hashAll col (pages d) pids [], d1)"
    and sd: "sameData d d1" by auto
  let ?ix = "hashAll col (pages d) pids []"
  let ?d' = "d1\<lparr>tableHashes := (tableHashes d)(t \<mapsto> h(col \<mapsto> ?ix))\<rparr>"
  have eqs: "tableHashes d1 = tableHashes d" "tables d1 = tables d" "pages d1 = pages d"
    using sd by (simp_all add: sameData_def)
  have run: "hashTable d t col True = Inr ?d'"
    using tb hp h eqs by (simp add: hashTable_def)
  have inv1: "dbInv d1" using inv dbInv_sameData[OF sd] by simp
  have ti1: "tableInv d1 {} t" using inv1 by (rule dbInv_tableInv)
  have iv: "idxValid (pages d1) pids ?ix"
    unfolding eqs by (rule hashAll_valid) (simp_all add: idxValid_def)
  have ti': "tableInv ?d' {} t"
    using tableInv_setIndex[OF ti1 _ _ iv, of h col] tb h eqs by simp
  have fr: "frameExcept {t} d1 ?d'" unfolding frameExcept_def using eqs by auto
  have st: "stepOn t d1 ?d'" unfolding stepOn_def using fr by (auto simp: pidsOf_def)
  have "dbInvH d1 t {}" using inv1 by (simp add: dbInvH_empty)
  from dbInvH_step[OF this st ti'] have inv': "dbInv ?d'" by (simp add: dbInvH_empty)
  from run sd h inv' show ?thesis by blast
qed

section \<open>Inserting unique records\<close>

lemma growsBy_idxValid:
  assumes gr: "growsBy t M d d'" and tb: "tables d t = Some pids" and tb': "tables d' t = Some pids'"
    and iv: "idxValid (pages d) pids ix"
  shows "idxValid (pages d') pids' ix"
proof (rule idxValid_mono[OF iv])
  show "set pids \<subseteq> set pids'" using gr tb tb' by (simp add: growsBy_def pidsOf_def)
  show "length (pages d pid) \<le> length (pages d' pid)" if "pid \<in> set pids" for pid
  proof -
    from gr tb that obtain ys where "pages d' pid = pages d pid @ ys"
      by (auto simp: growsBy_def pidsOf_def)
    then show ?thesis by simp
  qed
qed

lemma insertUnique_skip:
  assumes "hashedOn d t ''_id'' ix" "idxHas ix (getField r ''_id'')"
  shows "insertUnique t r d = Inr d"
  using assms by (auto simp: insertUnique_def hashedOn_def)

lemma insertUnique_accept:
  assumes inv: "dbInv d" and tb: "tables d t = Some pids" and hs: "hashedOn d t ''_id'' ix"
    and new: "\<not> idxHas ix (getField r ''_id'')"
  shows "\<exists>d4 h pid i. insertUnique t r d =
             Inr (d4\<lparr>tableHashes := (tableHashes d4)(t \<mapsto>
                        h(''_id'' \<mapsto> idxSet ix (getField r ''_id'') [(pid, i)]))\<rparr>) \<and>
           dbInv (d4\<lparr>tableHashes := (tableHashes d4)(t \<mapsto>
                        h(''_id'' \<mapsto> idxSet ix (getField r ''_id'') [(pid, i)]))\<rparr>) \<and>
           dbInv d4 \<and> growsBy t {#r#} d d4 \<and> tableHashes d t = Some h \<and>
           pid \<in> pidsOf d4 t \<and> i < length (pages d4 pid) \<and> pages d4 pid ! i = r"
proof -
  from hs obtain h where h: "tableHashes d t = Some h" and hix: "h ''_id'' = Some ix"
    by (auto simp: hashedOn_def)
  from getPageToInsert_ok[OF inv tb] obtain pid sl d1 pids1 where
    g: "getPageToInsert d t = Inr ((pid, sl), d1)" and inv1: "dbInvH d1 t {pid}"
    and gr1: "growsBy t {#} d d1" and tb1: "tables d1 t = Some pids1" and mem: "pid \<in> set pids1"
    and sl: "sl = spacesLeft (pages d1 pid)" and pos: "0 < sl" by blast
  from ensurePage_ok[OF mem, of d1] obtain d2 where
    e: "ensurePage d1 (Some pids1) pid = Inr d2" and sd: "sameData d1 d2" and hp: "hasPage d2 pid"
    by blast
  have inv2: "dbInvH d2 t {pid}" using inv1 dbInvH_sameData[OF sd] by simp
  have tb2: "tables d2 t = Some pids1" using tb1 sd by (simp add: sameData_def)
  have len2: "length (pages d2 pid) < maxNoOfRecsPerFile"
    using sl pos sd by (intro spacesLeft_less) (simp add: sameData_def)
  have gr2: "growsBy t {#} d1 d2" using growsBy_sameData[OF sd] tb1 by simp
  let ?i = "length (pages d2 pid)"
  from insertRecord_step[OF inv2 tb2 mem hp len2, of r] obtain d3 where
    ins: "insertRecord d2 pid r = Inr (?i, d3)" and inv3: "dbInvH d3 t {pid}"
    and gr3: "growsBy t {#r#} d2 d3" and tb3: "tables d3 = tables d2"
    and pg3: "pages d3 pid = pages d2 pid @ [r]" by blast
  have tb3': "tables d3 t = Some pids1" using tb3 tb2 by simp
  from queueAdd_ok[OF inv3 tb3' mem] obtain d4 where
    qa: "queueAdd d3 t pid = Inr d4" and inv4: "dbInv d4" and gr4: "growsBy t {#} d3 d4"
    by blast
  have gr: "growsBy t {#r#} d d4"
    using growsBy_trans[OF growsBy_trans[OF growsBy_trans[OF gr1 gr2] gr3] gr4] by simp
  from gr obtain pids4 where tb4: "tables d4 t = Some pids4" by (auto simp: growsBy_def)
  have mem4: "pid \<in> pidsOf d4 t"
    using gr4 tb3' mem by (auto simp: growsBy_def pidsOf_def)
  from gr4 tb3' mem obtain ys where pg4: "pages d4 pid = pages d3 pid @ ys"
    by (auto simp: growsBy_def pidsOf_def)
  have lt: "?i < length (pages d4 pid)" using pg4 pg3 by simp
  have nth: "pages d4 pid ! ?i = r" using pg4 pg3 by (simp add: nth_append)
  let ?ix' = "idxSet ix (getField r ''_id'') [(pid, ?i)]"
  let ?d' = "d4\<lparr>tableHashes := (tableHashes d4)(t \<mapsto> h(''_id'' \<mapsto> ?ix'))\<rparr>"
  have th4: "tableHashes d4 = tableHashes d" using gr by (simp add: growsBy_def)
  have run: "insertUnique t r d = Inr ?d'"
    using h hix new g tb1 e ins qa by (simp add: insertUnique_def)
  have iv0: "idxValid (pages d) pids ix"
    using tableInv_SomeD(6)[OF dbInv_tableInv[OF inv] tb] h hix by auto
  have iv4: "idxValid (pages d4) pids4 ix" by (rule growsBy_idxValid[OF gr tb tb4 iv0])
  have "locsValid (pages d4) pids4 [(pid, ?i)]"
    using mem4 tb4 lt by (simp add: locsValid_def pidsOf_def)
  from idxValid_idxSet[OF iv4 this] have iv': "idxValid (pages d4) pids4 ?ix'" .
  have ti4: "tableInv d4 {} t" using inv4 by (rule dbInv_tableInv)
  have h4: "tableHashes d4 t = Some h" using th4 h by simp
  have ti': "tableInv ?d' {} t" by (rule tableInv_setIndex[OF ti4 tb4 h4 iv'])
  have fr: "frameExcept {t} d4 ?d'" unfolding frameExcept_def by auto
  have st: "stepOn t d4 ?d'" unfolding stepOn_def using fr by (auto simp: pidsOf_def)
  have "dbInvH d4 t {}" using inv4 by (simp add: dbInvH_empty)
  from dbInvH_step[OF this st ti'] have inv': "dbInv ?d'" by (simp add: dbInvH_empty)
  from run inv' inv4 gr h mem4 lt nth show ?thesis by blast
qed

lemma insertUnique_inv:
  assumes inv: "dbInv d" and tb: "tables d t \<noteq> None" and hs: "hashedOn d t ''_id'' ix"
  shows "\<exists>d' ix'. insertUnique t r d = Inr d' \<and> dbInv d' \<and> tables d' t \<noteq> None \<and>
           hashedOn d' t ''_id'' ix' \<and> frameExcept {t} d d'"
proof (cases "idxHas ix (getField r ''_id'')")
  case True
  with insertUnique_skip[OF hs True] inv tb hs show ?thesis by auto
next
  case False
  from tb obtain pids where tb': "tables d t = Some pids" by auto
  from insertUnique_accept[OF inv tb' hs False] obtain d4 h pid i where
    run: "insertUnique t r d = Inr (d4\<lparr>tableHashes := (tableHashes d4)(t \<mapsto>
                        h(''_id'' \<mapsto> idxSet ix (getField r ''_id'') [(pid, i)]))\<rparr>)"
    and inv': "dbInv (d4\<lparr>tableHashes := (tableHashes d4)(t \<mapsto>
                        h(''_id'' \<mapsto> idxSet ix (getField r ''_id'') [(pid, i)]))\<rparr>)"
    and gr: "growsBy t {#r#} d d4" by blast
  have fr: "frameExcept {t} d d4" using gr by (simp add: growsBy_def stepOn_def)
  have fr2: "frameExcept {t} d4 (d4\<lparr>tableHashes := (tableHashes d4)(t \<mapsto>
                        h(''_id'' \<mapsto> idxSet ix (getField r ''_id'') [(pid, i)]))\<rparr>)"
    unfolding frameExcept_def by auto
  have "tables d4 t \<noteq> None" using gr by (simp add: growsBy_def)
  with run inv' frameExcept_trans[OF fr fr2] show ?thesis
    by (auto simp: hashedOn_def)
qed

lemma forEach_insertUnique_inv:
  assumes "dbInv d" "tables d t \<noteq> None" "hashedOn d t ''_id'' ix"
  shows "\<exists>d' ix'. forEachE (insertUnique t) rs d = Inr d' \<and> dbInv d' \<and> tables d' t \<noteq> None \<and>
           hashedOn d' t ''_id'' ix' \<and> frameExcept {t} d d'"
  using assms
proof (induction rs arbitrary: d ix)
  case Nil
  then show ?case by auto
next
  case (Cons r rs)
  from insertUnique_inv[OF Cons.prems, of r] obtain d1 ix1 where
    1: "insertUnique t r d = Inr d1" "dbInv d1" "tables d1 t \<noteq> None" "hashedOn d1 t ''_id'' ix1"
    and fr1: "frameExcept {t} d d1" by blast
  from Cons.IH[OF 1(2,3,4)] obtain d' ix' where
    2: "forEachE (insertUnique t) rs d1 = Inr d'" "dbInv d'" "tables d' t \<noteq> None"
      "hashedOn d' t ''_id'' ix'" and fr2: "frameExcept {t} d1 d'" by blast
  from 1(1) 2 frameExcept_trans[OF fr1 fr2] show ?case by auto
qed

lemma ensureHashed_inv:
  assumes inv: "dbInv d" and tb: "tables d t = Some pids"
  shows "\<exists>hashed d1 ix. isTableHashed d t col = Inr hashed \<and>
           (if \<not> hashed then hashTable d t col True else Inr d) = Inr d1 \<and> dbInv d1 \<and>
           tables d1 = tables d \<and> pages d1 = pages d \<and> hashedOn d1 t col ix \<and>
           frameExcept {t} d d1 \<and> tablePageSpaces d1 = tablePageSpaces d \<and>
           tableCols d1 = tableCols d \<and> nextId d1 = nextId d"
proof -
  from tableInv_SomeD(6)[OF dbInv_tableInv[OF inv] tb] obtain h where h: "tableHashes d t = Some h"
    by blast
  show ?thesis
  proof (cases "h col")
    case None
    from hashTable_ok[OF inv tb, of col] obtain d1 h' where
      run: "hashTable d t col True =
             Inr (d1\<lparr>tableHashes := (tableHashes d)(t \<mapsto> h'(col \<mapsto> hashAll col (pages d) pids []))\<rparr>)"
      and sd: "sameData d d1"
      and inv': "dbInv (d1\<lparr>tableHashes := (tableHashes d)(t \<mapsto> h'(col \<mapsto> hashAll col (pages d) pids []))\<rparr>)"
      by blast
    have fr: "frameExcept {t} d (d1\<lparr>tableHashes := (tableHashes d)(t \<mapsto> h'(col \<mapsto> hashAll col (pages d) pids []))\<rparr>)"
      using sd unfolding frameExcept_def sameData_def by auto
    from None h run inv' sd fr show ?thesis
      by (auto simp: isTableHashed_def hashedOn_def sameData_def)
  next
    case (Some ix)
    with h inv show ?thesis by (auto simp: isTableHashed_def hashedOn_def)
  qed
qed

lemma insertUniqueRecordsById_inv:
  assumes inv: "dbInv d" and tb: "tables d t \<noteq> None"
  shows "\<exists>d'. insertUniqueRecordsById d t rs = Inr d' \<and> dbInv d' \<and> tables d' t \<noteq> None \<and>
           frameExcept {t} d d'"
proof -
  from tb obtain pids where tb': "tables d t = Some pids" by auto
  from ensureHashed_inv[OF inv tb', of "''_id''"] obtain hashed d1 ix where
    1: "isTableHashed d t ''_id'' = Inr hashed"
       "(if \<not> hashed then hashTable d t ''_id'' True else Inr d) = Inr d1"
       "dbInv d1" "tables d1 = tables d" "hashedOn d1 t ''_id'' ix" and fr1: "frameExcept {t} d d1"
    by blast
  have tb1: "tables d1 t \<noteq> None" using 1(4) tb by simp
  from forEach_insertUnique_inv[OF 1(3) tb1 1(5), of rs] obtain d' where
    2: "forEachE (insertUnique t) rs d1 = Inr d'" "dbInv d'" "tables d' t \<noteq> None"
    and fr2: "frameExcept {t} d1 d'" by blast
  from 1(1,2) 2 frameExcept_trans[OF fr1 fr2] show ?thesis
    by (auto simp: insertUniqueRecordsById_def)
qed

section \<open>Unique-by-id is kept\<close>

lemma tableRecs_hashes_upd [simp]: "tableRecs (d\<lparr>tableHashes := x\<rparr>) t = tableRecs d t"
  by (simp add: tableRecs_def cong: option.case_cong)

lemma pidsOf_hashes_upd [simp]: "pidsOf (d\<lparr>tableHashes := x\<rparr>) t = pidsOf d t"
  by (simp add: pidsOf_def cong: option.case_cong)

lemma insertUnique_uniq:
  assumes inv: "dbInv d" and tb: "tables d t \<noteq> None" and hs: "hashedOn d t ''_id'' ix"
    and ok: "idIndexOk d t ix" and dist: "distinct (map idOf (tableRecs d t))"
  shows "\<exists>d' ix'. insertUnique t r d = Inr d' \<and> dbInv d' \<and> tables d' t \<noteq> None \<and>
           hashedOn d' t ''_id'' ix' \<and> idIndexOk d' t ix' \<and>
           distinct (map idOf (tableRecs d' t)) \<and>
           mset (tableRecs d' t) =
             mset (tableRecs d t) + (if idxHas ix (idOf r) then {#} else {#r#})"
proof (cases "idxHas ix (idOf r)")
  case True
  then have "insertUnique t r d = Inr d" using insertUnique_skip[OF hs] by (simp add: idOf_def)
  with True assms show ?thesis by auto
next
  case False
  from tb obtain pids where tb': "tables d t = Some pids" by auto
  have new: "\<not> idxHas ix (getField r ''_id'')" using False by (simp add: idOf_def)
  from insertUnique_accept[OF inv tb' hs new] obtain d4 h pid i where
    run: "insertUnique t r d = Inr (d4\<lparr>tableHashes := (tableHashes d4)(t \<mapsto>
                        h(''_id'' \<mapsto> idxSet ix (getField r ''_id'') [(pid, i)]))\<rparr>)"
    and inv': "dbInv (d4\<lparr>tableHashes := (tableHashes d4)(t \<mapsto>
                        h(''_id'' \<mapsto> idxSet ix (getField r ''_id'') [(pid, i)]))\<rparr>)"
    and gr: "growsBy t {#r#} d d4" and mem: "pid \<in> pidsOf d4 t"
    and lt: "i < length (pages d4 pid)" and nth: "pages d4 pid ! i = r" by blast
  let ?ix' = "idxSet ix (getField r ''_id'') [(pid, i)]"
  let ?d' = "d4\<lparr>tableHashes := (tableHashes d4)(t \<mapsto> h(''_id'' \<mapsto> ?ix'))\<rparr>"
  have ms: "mset (tableRecs d4 t) = mset (tableRecs d t) + {#r#}" using gr by (simp add: growsBy_def)
  then have ms2: "mset (tableRecs d4 t) = mset (tableRecs d t @ [r])" by simp
  have st: "set (tableRecs d4 t) = insert r (set (tableRecs d t))"
    using mset_eq_setD[OF ms2] by simp
  have keys: "set (idxKeys ix) = idOf ` set (tableRecs d t)" using ok by (simp add: idIndexOk_def)
  have notin: "idOf r \<notin> idOf ` set (tableRecs d t)" using False keys by (simp add: idxHas_keys)
  have "mset (map idOf (tableRecs d4 t)) = mset (map idOf (tableRecs d t @ [r]))"
    using ms2 by (metis mset_map)
  moreover have "distinct (map idOf (tableRecs d t @ [r]))" using dist notin by simp
  ultimately have dist': "distinct (map idOf (tableRecs d4 t))"
    using mset_eq_imp_distinct_iff by blast
  have keys': "set (idxKeys ?ix') = idOf ` set (tableRecs d4 t)"
    using keys st by (simp add: idxKeys_idxSet idOf_def)
  have ent: "\<exists>p j. snd e = [(p, j)] \<and> p \<in> pidsOf d4 t \<and> j < length (pages d4 p) \<and>
               idOf (pages d4 p ! j) = fst e" if e: "e \<in> set ?ix'" for e
  proof (cases "e = (getField r ''_id'', [(pid, i)])")
    case True
    with mem lt nth show ?thesis by (auto simp: idOf_def)
  next
    case False
    with e set_idxSet[of ix "getField r ''_id''" "[(pid, i)]"] have "e \<in> set ix" by auto
    with ok obtain p j where pj: "snd e = [(p, j)]" "p \<in> pidsOf d t" "j < length (pages d p)"
      "idOf (pages d p ! j) = fst e" unfolding idIndexOk_def by blast
    from gr pj(2) obtain ys where ys: "pages d4 p = pages d p @ ys" and "p \<in> pidsOf d4 t"
      by (auto simp: growsBy_def)
    with pj show ?thesis by (auto simp: nth_append)
  qed
  have ok': "idIndexOk ?d' t ?ix'"
    unfolding idIndexOk_def using keys' ent by simp
  have "tables d4 t \<noteq> None" using gr by (simp add: growsBy_def)
  with run inv' ok' dist' ms False show ?thesis
    by (intro exI[of _ ?d'] exI[of _ ?ix']) (simp add: hashedOn_def)
qed

lemma forEach_insertUnique_uniq:
  assumes "dbInv d" "tables d t \<noteq> None" "hashedOn d t ''_id'' ix" "idIndexOk d t ix"
    "distinct (map idOf (tableRecs d t))"
  shows "\<exists>d' ix' added. forEachE (insertUnique t) rs d = Inr d' \<and> dbInv d' \<and>
           tables d' t \<noteq> None \<and> hashedOn d' t ''_id'' ix' \<and> idIndexOk d' t ix' \<and>
           distinct (map idOf (tableRecs d' t)) \<and>
           mset (tableRecs d' t) = mset (tableRecs d t) + mset added \<and> set added \<subseteq> set rs \<and>
           idOf ` set (tableRecs d' t) = idOf ` set (tableRecs d t) \<union> idOf ` set rs"
  using assms
proof (induction rs arbitrary: d ix)
  case Nil
  then show ?case by (intro exI[of _ d] exI[of _ ix] exI[of _ "[]"]) simp
next
  case (Cons r rs)
  from insertUnique_uniq[OF Cons.prems, of r] obtain d1 ix1 where
    1: "insertUnique t r d = Inr d1" "dbInv d1" "tables d1 t \<noteq> None" "hashedOn d1 t ''_id'' ix1"
       "idIndexOk d1 t ix1" "distinct (map idOf (tableRecs d1 t))"
    and ms1: "mset (tableRecs d1 t) =
                mset (tableRecs d t) + (if idxHas ix (idOf r) then {#} else {#r#})" by blast
  from Cons.IH[OF 1(2-6)] obtain d' ix' added where
    2: "forEachE (insertUnique t) rs d1 = Inr d'" "dbInv d'" "tables d' t \<noteq> None"
       "hashedOn d' t ''_id'' ix'" "idIndexOk d' t ix'" "distinct (map idOf (tableRecs d' t))"
    and ms2: "mset (tableRecs d' t) = mset (tableRecs d1 t) + mset added"
    and sub: "set added \<subseteq> set rs"
    and ids: "idOf ` set (tableRecs d' t) = idOf ` set (tableRecs d1 t) \<union> idOf ` set rs" by blast
  let ?a = "if idxHas ix (idOf r) then [] else [r]"
  have ms: "mset (tableRecs d' t) = mset (tableRecs d t) + mset (?a @ added)"
    using ms1 ms2 by simp
  have keys: "set (idxKeys ix) = idOf ` set (tableRecs d t)"
    using Cons.prems(4) by (simp add: idIndexOk_def)
  have s1: "set (tableRecs d1 t) = set (tableRecs d t) \<union> set ?a"
    using mset_eq_setD[of "tableRecs d1 t" "tableRecs d t @ ?a"] ms1 by auto
  have ids1: "idOf ` set (tableRecs d1 t) = idOf ` set (tableRecs d t) \<union> {idOf r}"
    using s1 keys by (auto simp: idxHas_keys)
  have "forEachE (insertUnique t) (r # rs) d = Inr d'" using 1(1) 2(1) by simp
  moreover have "set (?a @ added) \<subseteq> set (r # rs)" using sub by auto
  moreover have "idOf ` set (tableRecs d' t) = idOf ` set (tableRecs d t) \<union> idOf ` set (r # rs)"
    using ids ids1 by auto
  ultimately show ?case using 2(2-6) ms by blast
qed

lemma tableRecs_empty_pages:
  assumes "tableRecs d t = []" "tables d t = Some pids"
  shows "concat (map (pages d) pids) = []"
  using assms by (simp add: tableRecs_def)

lemma insertUniqueRecordsById_uniq:
  assumes inv: "dbInv d" and tb: "tables d t \<noteq> None" and u: "uniqueById d t"
  shows "\<exists>d' ix added. insertUniqueRecordsById d t rs = Inr d' \<and> dbInv d' \<and>
           tables d' t \<noteq> None \<and> uniqueById d' t \<and> hashedOn d' t ''_id'' ix \<and>
           idIndexOk d' t ix \<and> frameExcept {t} d d' \<and>
           mset (tableRecs d' t) = mset (tableRecs d t) + mset added \<and> set added \<subseteq> set rs \<and>
           idOf ` set (tableRecs d' t) = idOf ` set (tableRecs d t) \<union> idOf ` set rs"
proof -
  from tb obtain pids where tb': "tables d t = Some pids" by auto
  from tableInv_SomeD(6)[OF dbInv_tableInv[OF inv] tb'] obtain h where h: "tableHashes d t = Some h"
    by blast
  have dist: "distinct (map idOf (tableRecs d t))" using u by (simp add: uniqueById_def)
  have "\<exists>hashed d1 ix. isTableHashed d t ''_id'' = Inr hashed \<and>
          (if \<not> hashed then hashTable d t ''_id'' True else Inr d) = Inr d1 \<and> dbInv d1 \<and>
          tables d1 t \<noteq> None \<and> hashedOn d1 t ''_id'' ix \<and> idIndexOk d1 t ix \<and>
          tableRecs d1 t = tableRecs d t \<and> frameExcept {t} d d1"
  proof (cases "h ''_id''")
    case None
    then have empty: "tableRecs d t = []" using u h by (simp add: uniqueById_def)
    from hashTable_ok[OF inv tb', of "''_id''"] obtain d1 h' where
      run: "hashTable d t ''_id'' True =
             Inr (d1\<lparr>tableHashes := (tableHashes d)(t \<mapsto> h'(''_id'' \<mapsto> hashAll ''_id'' (pages d) pids []))\<rparr>)"
      and sd: "sameData d d1"
      and inv': "dbInv (d1\<lparr>tableHashes := (tableHashes d)(t \<mapsto> h'(''_id'' \<mapsto> hashAll ''_id'' (pages d) pids []))\<rparr>)"
      by blast
    have ix: "hashAll ''_id'' (pages d) pids [] = []"
      by (rule hashAll_empty[OF tableRecs_empty_pages[OF empty tb']])
    let ?d1 = "d1\<lparr>tableHashes := (tableHashes d)(t \<mapsto> h'(''_id'' \<mapsto> []))\<rparr>"
    have recs: "tableRecs ?d1 t = tableRecs d t" using tableRecs_sameData[OF sd] by simp
    have fr: "frameExcept {t} d ?d1" using sd unfolding frameExcept_def sameData_def by auto
    have "idIndexOk ?d1 t []" using recs empty by (simp add: idIndexOk_def set_idxKeys)
    moreover have "tables ?d1 t \<noteq> None" using sd tb by (simp add: sameData_def)
    ultimately show ?thesis
      using None h run inv' recs fr unfolding ix
      by (intro exI[of _ False] exI[of _ ?d1] exI[of _ "[]"])
         (simp add: isTableHashed_def hashedOn_def)
  next
    case (Some ix)
    then have "idIndexOk d t ix" using u h by (simp add: uniqueById_def)
    with Some h inv tb show ?thesis
      by (intro exI[of _ True] exI[of _ d] exI[of _ ix]) (simp add: isTableHashed_def hashedOn_def)
  qed
  then obtain hashed d1 ix where
    1: "isTableHashed d t ''_id'' = Inr hashed"
       "(if \<not> hashed then hashTable d t ''_id'' True else Inr d) = Inr d1"
    and inv1: "dbInv d1" and tb1: "tables d1 t \<noteq> None" and hs1: "hashedOn d1 t ''_id'' ix"
    and ok1: "idIndexOk d1 t ix" and recs1: "tableRecs d1 t = tableRecs d t"
    and fr1: "frameExcept {t} d d1" by blast
  have dist1: "distinct (map idOf (tableRecs d1 t))" using dist recs1 by simp
  from forEach_insertUnique_uniq[OF inv1 tb1 hs1 ok1 dist1, of rs] obtain d' ix' added where
    2: "forEachE (insertUnique t) rs d1 = Inr d'" "dbInv d'" "tables d' t \<noteq> None"
       "hashedOn d' t ''_id'' ix'" "idIndexOk d' t ix'" "distinct (map idOf (tableRecs d' t))"
       "mset (tableRecs d' t) = mset (tableRecs d1 t) + mset added" "set added \<subseteq> set rs"
       "idOf ` set (tableRecs d' t) = idOf ` set (tableRecs d1 t) \<union> idOf ` set rs" by blast
  from forEach_insertUnique_inv[OF inv1 tb1 hs1, of rs] 2(1) have fr2: "frameExcept {t} d1 d'"
    by auto
  have run: "insertUniqueRecordsById d t rs = Inr d'"
    using 1 2(1) by (simp add: insertUniqueRecordsById_def)
  have u': "uniqueById d' t" using 2(4,5,6) by (auto simp: uniqueById_def hashedOn_def)
  from run 2 u' recs1 frameExcept_trans[OF fr1 fr2] show ?thesis by auto
qed

section \<open>Reading through the buffer\<close>

lemma fetchLocs_ok:
  assumes "locsValid (pages d) pids ls"
  shows "\<exists>d'. fetchLocs (Some pids) ls d = Inr (map (\<lambda>l. pages d (fst l) ! snd l) ls, d') \<and>
           sameData d d'"
  using assms
proof (induction ls arbitrary: d)
  case Nil
  then show ?case by simp
next
  case (Cons l ls)
  obtain pid i where l: "l = (pid, i)" by (cases l)
  from Cons.prems l have mem: "pid \<in> set pids" and lt: "i < length (pages d pid)"
    and rest: "locsValid (pages d) pids ls" by (auto simp: locsValid_def)
  from ensurePage_ok[OF mem, of d] obtain d1 where
    e: "ensurePage d (Some pids) pid = Inr d1" and sd1: "sameData d d1" and hp: "hasPage d1 pid"
    by blast
  have pg1: "pages d1 = pages d" using sd1 by (simp add: sameData_def)
  from getPageRecord_ok[OF hp, of i] lt pg1 obtain d2 where
    g: "getPageRecord d1 pid i = Inr (pages d pid ! i, d2)" and sd2: "sameData d1 d2" by auto
  have pg2: "pages d2 = pages d" using sd2 pg1 by (simp add: sameData_def)
  from Cons.IH[of d2] rest pg2 obtain d' where
    r: "fetchLocs (Some pids) ls d2 = Inr (map (\<lambda>l. pages d (fst l) ! snd l) ls, d')"
    and sd3: "sameData d2 d'" by auto
  have "fetchLocs (Some pids) (l # ls) d = Inr (map (\<lambda>l. pages d (fst l) ! snd l) (l # ls), d')"
    using l e g r by simp
  with sameData_trans[OF sameData_trans[OF sd1 sd2] sd3] show ?case by blast
qed

lemma fetchKeys_ok:
  assumes "idxValid (pages d) pids ix" "set vs \<subseteq> set (idxKeys ix)"
  shows "\<exists>d' rs. fetchKeys (Some pids) ix vs d = Inr (rs, d') \<and> sameData d d'"
  using assms
proof (induction vs arbitrary: d)
  case Nil
  then show ?case by simp
next
  case (Cons v vs)
  from Cons.prems(2) have "idxHas ix v" by (simp add: idxHas_keys)
  then obtain ls where ls: "idxGet ix v = Some ls" by (auto simp: idxHas_idxGet)
  from fetchLocs_ok[OF idxValid_idxGet[OF Cons.prems(1) ls]] obtain d1 where
    f: "fetchLocs (Some pids) ls d = Inr (map (\<lambda>l. pages d (fst l) ! snd l) ls, d1)"
    and sd1: "sameData d d1" by blast
  have "idxValid (pages d1) pids ix" using Cons.prems(1) sd1 by (simp add: sameData_def)
  from Cons.IH[OF this] Cons.prems(2) obtain d' rs where
    r: "fetchKeys (Some pids) ix vs d1 = Inr (rs, d')" and sd2: "sameData d1 d'" by auto
  from ls f r sameData_trans[OF sd1 sd2] show ?case by auto
qed

lemma dbInv_hashed_table:
  assumes "dbInv d" "hashedOn d t col ix"
  shows "\<exists>pids. tables d t = Some pids \<and> idxValid (pages d) pids ix"
proof (cases "tables d t")
  case None
  with dbInv_tableInv[OF assms(1), of t] assms(2) show ?thesis
    by (simp add: tableInv_def hashedOn_def)
next
  case (Some pids)
  from tableInv_SomeD(6)[OF dbInv_tableInv[OF assms(1)] Some] assms(2) show ?thesis
    using Some by (auto simp: hashedOn_def)
qed

section \<open>Sequences of catalog operations\<close>

lemma applyOp_safe:
  assumes inv: "dbInv d"
  shows "(\<exists>d'. applyOp op d = Inr d' \<and> dbInv d') \<or> applyOp op d = Inl TypeError"
proof (cases op)
  case (AddTable t colNames)
  from addTable_ok[OF inv, of t colNames] show ?thesis unfolding AddTable by auto
next
  case (InsertRecords t rs)
  show ?thesis
  proof (cases "tables d t")
    case None
    then have q: "tablePageSpaces d t = None"
      using dbInv_tableInv[OF inv, of t] by (simp add: tableInv_def)
    show ?thesis
    proof (cases "rs = []")
      case True
      with inv show ?thesis unfolding InsertRecords by (simp add: insertRecords_def)
    next
      case False
      have "getPageToInsert d t = Inl TypeError" using q by (simp add: getPageToInsert_def)
      with False show ?thesis unfolding InsertRecords
        by (subst insertRecordsLoop.simps | simp add: insertRecords_def)+
    qed
  next
    case (Some pids)
    then have "tables d t \<noteq> None" by simp
    from insertRecords_ok[OF inv this, of rs] show ?thesis unfolding InsertRecords by auto
  qed
next
  case (InsertUniqueRecordsById t rs)
  show ?thesis
  proof (cases "tables d t")
    case None
    then have "tableHashes d t = None"
      using dbInv_tableInv[OF inv, of t] by (simp add: tableInv_def)
    then show ?thesis unfolding InsertUniqueRecordsById
      by (simp add: insertUniqueRecordsById_def isTableHashed_def)
  next
    case (Some pids)
    then have "tables d t \<noteq> None" by simp
    from insertUniqueRecordsById_inv[OF inv this, of rs] show ?thesis
      unfolding InsertUniqueRecordsById by auto
  qed
next
  case (ClearTable t)
  show ?thesis
  proof (cases "tables d t")
    case None
    then show ?thesis unfolding ClearTable by (simp add: clearTable_def)
  next
    case (Some pids)
    from clearTable_ok[OF inv Some] show ?thesis unfolding ClearTable by auto
  qed
next
  case (Drop t)
  from dropTable_ok[OF inv, of t] show ?thesis unfolding Drop by auto
qed

lemma runOps_safe:
  assumes "dbInv d"
  shows "(\<exists>d'. runOps steps d = Inr d' \<and> dbInv d') \<or> runOps steps d = Inl TypeError"
  using assms unfolding runOps_def
proof (induction steps arbitrary: d)
  case Nil
  then show ?case by simp
next
  case (Cons op steps)
  from applyOp_safe[OF Cons.prems, of op] show ?case
  proof
    assume "\<exists>d'. applyOp op d = Inr d' \<and> dbInv d'"
    then obtain d1 where 1: "applyOp op d = Inr d1" "dbInv d1" by blast
    from Cons.IH[OF 1(2)] 1(1) show ?thesis by simp
  next
    assume "applyOp op d = Inl TypeError"
    then show ?thesis by simp
  qed
qed

lemma exampleA_inv: "exampleA = Inr d \<Longrightarrow> dbInv d"
  using runOps_safe[OF dbInv_emptyDB, of "[AddTable ''a'' [''c1'', ''c2''],
             InsertUniqueRecordsById ''a''
               [[(''c1'', VStr ''1''), (''c2'', VStr ''2''), (''_id'', VStr ''r1'')],
                [(''c1'', VStr ''2''), (''c2'', VStr ''3''), (''_id'', VStr ''r2'')]]]"]
  unfolding exampleA_def by auto

lemma sum_case_InrE: "(case m of Inl e \<Rightarrow> False | Inr d \<Rightarrow> P d) \<Longrightarrow> \<exists>d. m = Inr d \<and> P d"
  by (cases m) auto

lemma exampleAB_inv: "exampleAB = Inr d \<Longrightarrow> dbInv d"
  using runOps_safe[OF dbInv_emptyDB, of "[AddTable ''a'' [''c1'', ''c2''],
             InsertUniqueRecordsById ''a''
               [[(''c1'', VStr ''1''), (''c2'', VStr ''2''), (''_id'', VStr ''r1'')],
                [(''c1'', VStr ''2''), (''c2'', VStr ''3''), (''_id'', VStr ''r2'')]],
             AddTable ''b'' [''c1'', ''c2''],
             InsertUniqueRecordsById ''b''
               [[(''c1'', VStr ''2''), (''c2'', VStr ''7''), (''_id'', VStr ''s1'')],
                [(''c1'', VNum 2), (''c2'', VStr ''8''), (''_id'', VStr ''s2'')]]]"]
  unfolding exampleAB_def by auto

section \<open>Dropping a table that does not exist\<close>

text \<open>
  C10. \<open>drop(t)\<close> for a name that is not in the catalog returns normally and leaves the
  whole state as it was: the tables, the free-space queues, the column lists, the hash
  indexes and the buffer.
\<close>

theorem drop_missing_table_noop:
  "tables d t = None \<Longrightarrow> dropTable d t = Inr d"
  by (simp add: dropTable_def)

theorem drop_missing_table_noop_witness:
  "tables emptyDB ''ghost'' = None \<and> dropTable emptyDB ''ghost'' = Inr emptyDB"
proof -
  have h: "tables emptyDB ''ghost'' = None" by (simp add: emptyDB_def)
  show ?thesis using h drop_missing_table_noop [OF h] by simp
qed

section \<open>Hash join: what it computes\<close>

lemma mapE_append:
  "mapE f (xs @ ys) = bindE (mapE f xs) (\<lambda>a. bindE (mapE f ys) (\<lambda>b. Inr (a @ b)))"
proof (induction xs)
  case Nil
  then show ?case by (cases "mapE f ys") simp_all
next
  case (Cons x xs)
  then show ?case
    by (cases "f x"; cases "mapE f xs"; cases "mapE f ys") simp_all
qed

lemma mapE_Inr_iff:
  "mapE f xs = Inr ys \<longleftrightarrow> list_all2 (\<lambda>x y. f x = Inr y) xs ys"
proof (induction xs arbitrary: ys)
  case Nil
  then show ?case by auto
next
  case (Cons x xs)
  show ?case
  proof (cases "f x")
    case (Inl e)
    then show ?thesis by (auto simp: list_all2_Cons1)
  next
    case (Inr y)
    then show ?thesis using Cons.IH
      by (cases "mapE f xs") (auto simp: list_all2_Cons1)
  qed
qed

lemma mapE_Inl_mem: "mapE f xs = Inl e \<Longrightarrow> \<exists>x\<in>set xs. f x = Inl e"
proof (induction xs)
  case Nil
  then show ?case by simp
next
  case (Cons x xs)
  then show ?case by (cases "f x"; cases "mapE f xs") auto
qed

lemma mapE_total: "(\<And>x. x \<in> set xs \<Longrightarrow> \<exists>y. f x = Inr y) \<Longrightarrow> \<exists>ys. mapE f xs = Inr ys"
proof (induction xs)
  case Nil
  then show ?case by simp
next
  case (Cons x xs)
  then obtain y ys where "f x = Inr y" "mapE f xs = Inr ys" by (metis list.set_intros)
  then show ?case by simp
qed

lemma mapE_Inr_mem: "mapE f xs = Inr ys \<Longrightarrow> x \<in> set xs \<Longrightarrow> \<exists>y. f x = Inr y"
proof (induction xs arbitrary: ys)
  case Nil
  then show ?case by simp
next
  case (Cons a xs)
  then show ?case by (cases "f a"; cases "mapE f xs") auto
qed

lemma mapE_pure: "(\<And>x. x \<in> set xs \<Longrightarrow> f x = Inr (g x)) \<Longrightarrow> mapE f xs = Inr (map g xs)"
  by (induction xs) simp_all

lemma mapE_mset:
  assumes ms: "mset xs = mset ys" and err: "\<And>x e. f x = Inl e \<Longrightarrow> e = e0"
  shows "(mapE f xs = Inl e0 \<and> mapE f ys = Inl e0) \<or>
         (\<exists>as bs. mapE f xs = Inr as \<and> mapE f ys = Inr bs \<and> mset as = mset bs)"
proof (cases "\<forall>x\<in>set xs. \<exists>y. f x = Inr y")
  case True
  define g where "g x = (case f x of Inr y \<Rightarrow> y | Inl e \<Rightarrow> undefined)" for x
  have sets: "set ys = set xs" using ms by (metis set_mset_mset)
  have fx: "f x = Inr (g x)" if "x \<in> set xs" for x using True that by (auto simp: g_def)
  have fy: "f y = Inr (g y)" if "y \<in> set ys" for y using fx[of y] sets that by blast
  have 1: "mapE f xs = Inr (map g xs)" by (rule mapE_pure) (rule fx)
  have 2: "mapE f ys = Inr (map g ys)" by (rule mapE_pure) (rule fy)
  have 3: "mset (map g xs) = mset (map g ys)" using ms by (metis mset_map)
  from 1 2 3 show ?thesis by blast
next
  case False
  then obtain x e where x: "x \<in> set xs" "f x = Inl e"
    by (metis sum.exhaust)
  have sets: "set ys = set xs" using ms by (metis set_mset_mset)
  have xy: "x \<in> set ys" using x(1) sets by blast
  have "\<not> (\<exists>as. mapE f xs = Inr as)" using mapE_Inr_mem[of f xs _ x] x by auto
  then obtain e1 where e1: "mapE f xs = Inl e1" by (cases "mapE f xs") auto
  have "\<not> (\<exists>as. mapE f ys = Inr as)" using mapE_Inr_mem[of f ys _ x] x xy by auto
  then obtain e2 where e2: "mapE f ys = Inl e2" by (cases "mapE f ys") auto
  from mapE_Inl_mem[OF e1] err have "e1 = e0" by blast
  moreover from mapE_Inl_mem[OF e2] err have "e2 = e0" by blast
  ultimately show ?thesis using e1 e2 by simp
qed

lemma mapE_map: "mapE f (map h xs) = mapE (\<lambda>x. f (h x)) xs"
  by (induction xs) simp_all

lemma projectInto_swap:
  "t1 \<noteq> t2 \<Longrightarrow> projectInto t2 t1 proj rec2 rec1 res = projectInto t1 t2 proj rec1 rec2 res"
  by (induction t1 t2 proj rec1 rec2 res rule: projectInto.induct) auto

lemma projectInto_error: "projectInto t1 t2 proj rec1 rec2 res = Inl e \<Longrightarrow> e = UnexpectedProjection"
  by (induction t1 t2 proj rec1 rec2 res rule: projectInto.induct) (auto split: if_splits)

lemma joinRow_error: "joinRow t1 t2 proj g p = Inl e \<Longrightarrow> e = UnexpectedProjection"
  using projectInto_error
  by (cases p) (auto simp: joinRow_def bindE_eq_Inl)

lemma joinRow_swap:
  "t1 \<noteq> t2 \<Longrightarrow> joinRow t2 t1 proj False (r2, r1) = joinRow t1 t2 proj False (r1, r2)"
  by (simp add: joinRow_def projectInto_swap)

lemma looseEq_sym: "looseEq a b = looseEq b a"
  by (cases a; cases b) auto

lemma withState_Inl [simp]: "withState (Inl e) d = Inl e"
  by (simp add: withState_def)

lemma withState_Inr [simp]: "withState (Inr x) d = Inr (x, d)"
  by (simp add: withState_def)

lemma fetchKeys_recs:
  assumes "idxValid (pages d) pids ix" "set vs \<subseteq> set (idxKeys ix)"
  shows "\<exists>d'. fetchKeys (Some pids) ix vs d = Inr (concat (map (recsAt (pages d) ix) vs), d') \<and>
           sameData d d'"
  using assms
proof (induction vs arbitrary: d)
  case Nil
  then show ?case by simp
next
  case (Cons v vs)
  from Cons.prems(2) have "idxHas ix v" by (simp add: idxHas_keys)
  then obtain ls where ls: "idxGet ix v = Some ls" by (auto simp: idxHas_idxGet)
  from fetchLocs_ok[OF idxValid_idxGet[OF Cons.prems(1) ls]] obtain d1 where
    f: "fetchLocs (Some pids) ls d = Inr (map (\<lambda>l. pages d (fst l) ! snd l) ls, d1)"
    and sd1: "sameData d d1" by blast
  have pg: "pages d1 = pages d" using sd1 by (simp add: sameData_def)
  have "idxValid (pages d1) pids ix" using Cons.prems(1) pg by simp
  from Cons.IH[OF this] Cons.prems(2) pg obtain d' where
    r: "fetchKeys (Some pids) ix vs d1 = Inr (concat (map (recsAt (pages d) ix) vs), d')"
    and sd2: "sameData d1 d'" by auto
  have "fetchKeys (Some pids) ix (v # vs) d =
          Inr (concat (map (recsAt (pages d) ix) (v # vs)), d')"
    using ls f r by (simp add: recsAt_def)
  with sameData_trans[OF sd1 sd2] show ?case by blast
qed

lemma hashJoinLoop_spec:
  assumes "idxValid (pages d) pids1 ix1" "idxValid (pages d) pids2 ix2"
    "set vs \<subseteq> set (idxKeys ix1)"
  shows "\<exists>d'. sameData d d' \<and>
           hashJoinLoop t1 t2 (Some pids1) (Some pids2) ix1 ix2 proj op g vs d =
             withState (mapE (joinRow t1 t2 proj g) (joinPairs (pages d) ix1 ix2 op vs)) d'"
  using assms
proof (induction vs arbitrary: d)
  case Nil
  then show ?case by (intro exI[of _ d]) (simp add: joinPairs_def)
next
  case (Cons v vs)
  from Cons.prems(3) have "idxHas ix1 v" by (simp add: idxHas_keys)
  then obtain ls where ls: "idxGet ix1 v = Some ls" by (auto simp: idxHas_idxGet)
  from fetchLocs_ok[OF idxValid_idxGet[OF Cons.prems(1) ls]] obtain d1 where
    f: "fetchLocs (Some pids1) ls d = Inr (recsAt (pages d) ix1 v, d1)"
    and sd1: "sameData d d1" by (auto simp: recsAt_def ls)
  have pg1: "pages d1 = pages d" using sd1 by (simp add: sameData_def)
  let ?vs2 = "filter (\<lambda>val2. opMatch op v val2) (idxKeys ix2)"
  have "idxValid (pages d1) pids2 ix2" using Cons.prems(2) pg1 by simp
  moreover have "set ?vs2 \<subseteq> set (idxKeys ix2)" by auto
  ultimately obtain d2 where
    k: "fetchKeys (Some pids2) ix2 ?vs2 d1 = Inr (concat (map (recsAt (pages d) ix2) ?vs2), d2)"
    and sd2: "sameData d1 d2" using fetchKeys_recs[of d1 pids2 ix2 ?vs2] pg1 by auto
  have pg2: "pages d2 = pages d" using sd2 pg1 by (simp add: sameData_def)
  let ?grp = "List.product (recsAt (pages d) ix1 v) (concat (map (recsAt (pages d) ix2) ?vs2))"
  have jp: "joinPairs (pages d) ix1 ix2 op (v # vs) = ?grp @ joinPairs (pages d) ix1 ix2 op vs"
    by (simp add: joinPairs_def)
  from Cons.IH[of d2] Cons.prems pg2 obtain d' where sd3: "sameData d2 d'"
    and r: "hashJoinLoop t1 t2 (Some pids1) (Some pids2) ix1 ix2 proj op g vs d2 =
             withState (mapE (joinRow t1 t2 proj g) (joinPairs (pages d) ix1 ix2 op vs)) d'"
    by auto
  have sd: "sameData d d'" using sameData_trans[OF sameData_trans[OF sd1 sd2] sd3] .
  have "hashJoinLoop t1 t2 (Some pids1) (Some pids2) ix1 ix2 proj op g (v # vs) d =
          withState (mapE (joinRow t1 t2 proj g) (joinPairs (pages d) ix1 ix2 op (v # vs))) d'"
    using ls f k r unfolding jp mapE_append
    by (cases "mapE (joinRow t1 t2 proj g) ?grp";
        cases "mapE (joinRow t1 t2 proj g) (joinPairs (pages d) ix1 ix2 op vs)") simp_all
  with sd show ?case by blast
qed
lemma ensureHashed_spec:
  assumes inv: "dbInv d" and tb: "tables d t = Some pids"
  shows "\<exists>d1. ensureHashed d t c = Inr d1 \<and> dbInv d1 \<and> tables d1 = tables d \<and>
           pages d1 = pages d \<and> hashedOn d1 t c (ixFor d t c) \<and>
           (\<forall>t' c'. ixFor d1 t' c' = ixFor d t' c') \<and> frameExcept {t} d d1 \<and>
           tablePageSpaces d1 = tablePageSpaces d \<and> tableCols d1 = tableCols d \<and>
           nextId d1 = nextId d \<and> (\<forall>t' c' ix. hashedOn d t' c' ix \<longrightarrow> hashedOn d1 t' c' ix)"
proof -
  from tableInv_SomeD(6)[OF dbInv_tableInv[OF inv] tb] obtain h where h: "tableHashes d t = Some h"
    by blast
  show ?thesis
  proof (cases "h c")
    case None
    from hashTable_ok[OF inv tb, of c] h obtain d0 where
      run: "hashTable d t c True =
             Inr (d0\<lparr>tableHashes := (tableHashes d)(t \<mapsto> h(c \<mapsto> hashAll c (pages d) pids []))\<rparr>)"
      and sd: "sameData d d0"
      and inv': "dbInv (d0\<lparr>tableHashes := (tableHashes d)(t \<mapsto> h(c \<mapsto> hashAll c (pages d) pids []))\<rparr>)"
      by auto
    let ?d1 = "d0\<lparr>tableHashes := (tableHashes d)(t \<mapsto> h(c \<mapsto> hashAll c (pages d) pids []))\<rparr>"
    have eqs: "tables d0 = tables d" "pages d0 = pages d" "tablePageSpaces d0 = tablePageSpaces d"
      "tableCols d0 = tableCols d" "nextId d0 = nextId d"
      using sd by (simp_all add: sameData_def)
    have fr: "frameExcept {t} d ?d1" using eqs unfolding frameExcept_def by auto
    have ixd: "ixFor d t c = hashAll c (pages d) pids []" using h None tb by (simp add: ixFor_def)
    have ix1: "ixFor ?d1 t' c' = ixFor d t' c'" for t' c'
      using h None tb eqs by (auto simp: ixFor_def split: option.splits)
    have keep: "hashedOn ?d1 t' c' ix" if "hashedOn d t' c' ix" for t' c' ix
      using that h None by (auto simp: hashedOn_def)
    have "ensureHashed d t c = Inr ?d1"
      using h None run by (simp add: ensureHashed_def isTableHashed_def)
    with inv' eqs fr ixd ix1 keep show ?thesis
      by (intro exI[of _ ?d1]) (simp add: hashedOn_def)
  next
    case (Some ix)
    then have "ensureHashed d t c = Inr d" using h by (simp add: ensureHashed_def isTableHashed_def)
    moreover have "ixFor d t c = ix" using h Some by (simp add: ixFor_def)
    ultimately show ?thesis using inv h Some by (intro exI[of _ d]) (simp add: hashedOn_def)
  qed
qed

lemma hashJoin_spec:
  assumes inv: "dbInv d" and tb1: "tables d t1 = Some pids1" and tb2: "tables d t2 = Some pids2"
  shows "\<exists>d'. hashJoin d t1 c1 t2 c2 proj op g =
             withState (mapE (joinRow t1 t2 proj g)
               (joinPairs (pages d) (ixFor d t1 c1) (ixFor d t2 c2) op (idxKeys (ixFor d t1 c1)))) d' \<and>
           dbInv d' \<and> tables d' = tables d \<and> pages d' = pages d \<and>
           tablePageSpaces d' = tablePageSpaces d \<and> tableCols d' = tableCols d \<and>
           nextId d' = nextId d \<and> frameExcept {t1, t2} d d'"
proof -
  from ensureHashed_spec[OF inv tb1, of c1] obtain d1 where
    e1: "ensureHashed d t1 c1 = Inr d1" and inv1: "dbInv d1" and t1: "tables d1 = tables d"
    and p1: "pages d1 = pages d" and h1: "hashedOn d1 t1 c1 (ixFor d t1 c1)"
    and i1: "\<And>t' c'. ixFor d1 t' c' = ixFor d t' c'" and fr1: "frameExcept {t1} d d1"
    and r1: "tablePageSpaces d1 = tablePageSpaces d" "tableCols d1 = tableCols d"
      "nextId d1 = nextId d" by blast
  have tb2': "tables d1 t2 = Some pids2" using tb2 t1 by simp
  from ensureHashed_spec[OF inv1 tb2', of c2] obtain d2 where
    e2: "ensureHashed d1 t2 c2 = Inr d2" and inv2: "dbInv d2" and t2: "tables d2 = tables d1"
    and p2: "pages d2 = pages d1" and h2: "hashedOn d2 t2 c2 (ixFor d1 t2 c2)"
    and i2: "\<And>t' c'. ixFor d2 t' c' = ixFor d1 t' c'" and fr2: "frameExcept {t2} d1 d2"
    and r2: "tablePageSpaces d2 = tablePageSpaces d1" "tableCols d2 = tableCols d1"
      "nextId d2 = nextId d1"
    and keep: "\<And>t' c' ix. hashedOn d1 t' c' ix \<Longrightarrow> hashedOn d2 t' c' ix" by blast
  have h2': "hashedOn d2 t2 c2 (ixFor d t2 c2)" using h2 i1 by simp
  have h1': "hashedOn d2 t1 c1 (ixFor d t1 c1)" by (rule keep[OF h1])
  from dbInv_hashed_table[OF inv2 h1'] tb1 t1 t2 have iv1: "idxValid (pages d2) pids1 (ixFor d t1 c1)"
    by simp
  from dbInv_hashed_table[OF inv2 h2'] tb2 t1 t2 have iv2: "idxValid (pages d2) pids2 (ixFor d t2 c2)"
    by simp
  from hashJoinLoop_spec[OF iv1 iv2, of "idxKeys (ixFor d t1 c1)" t1 t2 proj op g] obtain d' where
    sd: "sameData d2 d'"
    and loop: "hashJoinLoop t1 t2 (Some pids1) (Some pids2) (ixFor d t1 c1) (ixFor d t2 c2) proj op g
                 (idxKeys (ixFor d t1 c1)) d2 =
               withState (mapE (joinRow t1 t2 proj g)
                 (joinPairs (pages d2) (ixFor d t1 c1) (ixFor d t2 c2) op (idxKeys (ixFor d t1 c1)))) d'"
    by auto
  have run: "hashJoin d t1 c1 t2 c2 proj op g =
      withState (mapE (joinRow t1 t2 proj g)
        (joinPairs (pages d) (ixFor d t1 c1) (ixFor d t2 c2) op (idxKeys (ixFor d t1 c1)))) d'"
    using e1 e2 h1' h2' loop tb1 tb2 t1 t2 p1 p2
    by (auto simp: hashJoin_def hashedOn_def)
  have inv': "dbInv d'" using inv2 dbInv_sameData[OF sd] by simp
  have fr: "frameExcept {t1, t2} d d'"
    using frameExcept_trans[OF frameExcept_mono[OF fr1, of "{t1, t2}"]
        frameExcept_trans[OF frameExcept_mono[OF fr2, of "{t1, t2}"]
          frameExcept_sameData[OF sd, of "{t1, t2}"]]] by simp
  from run inv' fr sd t1 t2 p1 p2 r1 r2 show ?thesis
    by (intro exI[of _ d']) (simp add: sameData_def)
qed

section \<open>Hash join: the two orders read the same pairs\<close>

lemma product_Nil_right [simp]: "List.product as [] = []"
  by (induction as) simp_all

lemma mset_product_append:
  "mset (List.product as (bs @ cs)) = mset (List.product as bs) + mset (List.product as cs)"
  by (induction as) simp_all

lemma mset_product_concat:
  "mset (List.product as (concat bss)) = (\<Sum>bs\<leftarrow>bss. mset (List.product as bs))"
  by (induction bss) (simp_all add: mset_product_append)

lemma mset_product_Cons:
  "mset (List.product as (b # bs)) = mset (map (\<lambda>a. (a, b)) as) + mset (List.product as bs)"
  by (induction as) simp_all

lemma mset_product_swap:
  "mset (map prod.swap (List.product bs as)) = mset (List.product as bs)"
  by (induction bs) (simp_all add: mset_product_Cons comp_def)

lemma sum_list_mset_filter:
  "(\<Sum>x\<leftarrow>filter P xs. (f x :: 'a multiset)) = (\<Sum>x\<leftarrow>xs. if P x then f x else {#})"
  by (induction xs) simp_all

lemma sum_list_mset_swap:
  "(\<Sum>x\<leftarrow>xs. \<Sum>y\<leftarrow>ys. (f x y :: 'a multiset)) = (\<Sum>y\<leftarrow>ys. \<Sum>x\<leftarrow>xs. f x y)"
proof (induction xs)
  case Nil
  then show ?case by (induction ys) simp_all
next
  case (Cons x xs)
  have "(\<Sum>y\<leftarrow>ys. f x y + (\<Sum>x\<leftarrow>xs. f x y)) = (\<Sum>y\<leftarrow>ys. f x y) + (\<Sum>y\<leftarrow>ys. \<Sum>x\<leftarrow>xs. f x y)"
    by (induction ys) (simp_all add: ac_simps)
  with Cons show ?case by simp
qed

lemma image_mset_sum_list:
  "image_mset h (\<Sum>x\<leftarrow>xs. g x) = (\<Sum>x\<leftarrow>xs. image_mset h (g x))"
  by (induction xs) simp_all

lemma mset_joinPairs:
  "mset (joinPairs pgs ix1 ix2 op vs) =
     (\<Sum>v1\<leftarrow>vs. \<Sum>v2\<leftarrow>idxKeys ix2.
        if opMatch op v1 v2 then mset (List.product (recsAt pgs ix1 v1) (recsAt pgs ix2 v2)) else {#})"
  by (simp add: joinPairs_def mset_concat comp_def mset_product_concat sum_list_mset_filter)

lemma opMatch_eq_sym: "opMatch ''='' a b = opMatch ''='' b a"
  by (simp add: opMatch_def looseEq_sym)

lemma joinPairs_swap:
  "mset (map prod.swap (joinPairs pgs ix2 ix1 ''='' (idxKeys ix2))) =
     mset (joinPairs pgs ix1 ix2 ''='' (idxKeys ix1))"
proof -
  have "mset (map prod.swap (joinPairs pgs ix2 ix1 ''='' (idxKeys ix2))) =
        image_mset prod.swap (mset (joinPairs pgs ix2 ix1 ''='' (idxKeys ix2)))" by simp
  also have "\<dots> = (\<Sum>v2\<leftarrow>idxKeys ix2. \<Sum>v1\<leftarrow>idxKeys ix1.
        if opMatch ''='' v2 v1
        then image_mset prod.swap (mset (List.product (recsAt pgs ix2 v2) (recsAt pgs ix1 v1)))
        else {#})"
    unfolding mset_joinPairs image_mset_sum_list
    by (intro arg_cong[where f = sum_list] map_cong refl) (simp add: if_distrib cong: if_cong)
  also have "\<dots> = (\<Sum>v2\<leftarrow>idxKeys ix2. \<Sum>v1\<leftarrow>idxKeys ix1.
        if opMatch ''='' v1 v2
        then mset (List.product (recsAt pgs ix1 v1) (recsAt pgs ix2 v2)) else {#})"
  proof (intro arg_cong[where f = sum_list] map_cong refl)
    fix v2 v1
    have "image_mset prod.swap (mset (List.product (recsAt pgs ix2 v2) (recsAt pgs ix1 v1))) =
          mset (List.product (recsAt pgs ix1 v1) (recsAt pgs ix2 v2))"
      using mset_product_swap[of "recsAt pgs ix2 v2" "recsAt pgs ix1 v1"] by simp
    then show "(if opMatch ''='' v2 v1
        then image_mset prod.swap (mset (List.product (recsAt pgs ix2 v2) (recsAt pgs ix1 v1)))
        else {#}) =
       (if opMatch ''='' v1 v2
        then mset (List.product (recsAt pgs ix1 v1) (recsAt pgs ix2 v2)) else {#})"
      using opMatch_eq_sym[of v1 v2] by simp
  qed
  also have "\<dots> = mset (joinPairs pgs ix1 ix2 ''='' (idxKeys ix1))"
    unfolding mset_joinPairs by (rule sum_list_mset_swap)
  finally show ?thesis .
qed

section \<open>Operations that return\<close>

lemma keeps_refl: "dbInv d \<Longrightarrow> keeps R d d"
  by (simp add: keeps_def)

lemma keeps_trans: "keeps R d d' \<Longrightarrow> keeps R d' d'' \<Longrightarrow> keeps R d d''"
  unfolding keeps_def by (auto intro: subset_mset.order_trans)

lemma keeps_dbInv: "keeps R d d' \<Longrightarrow> dbInv d'"
  by (simp add: keeps_def)

lemma keeps_sameData: "dbInv d \<Longrightarrow> sameData d d' \<Longrightarrow> keeps R d d'"
  using dbInv_sameData[of d d'] tableRecs_sameData[of d d' R]
  by (simp add: keeps_def) (simp add: sameData_def)

lemma tableRecs_frame:
  "frameExcept T d d' \<Longrightarrow> R \<notin> T \<Longrightarrow> tableRecs d' R = tableRecs d R"
proof (cases "tables d R")
  case None
  assume "frameExcept T d d'" "R \<notin> T"
  with None show ?thesis by (simp add: frameExcept_def tableRecs_def)
next
  case (Some pids)
  assume fr: "frameExcept T d d'" and nt: "R \<notin> T"
  then have tb: "tables d' R = Some pids" and pg: "\<And>pid. pid \<in> set pids \<Longrightarrow> pages d' pid = pages d pid"
    using Some by (auto simp: frameExcept_def)
  have eq: "map (pages d') pids = map (pages d) pids" using pg by (intro map_cong) auto
  show ?thesis unfolding tableRecs_def tb Some option.case eq ..
qed

lemma keeps_frame: "dbInv d' \<Longrightarrow> frameExcept T d d' \<Longrightarrow> R \<notin> T \<Longrightarrow> keeps R d d'"
  using tableRecs_frame[of T d d' R] by (simp add: keeps_def) (simp add: frameExcept_def)

lemma keeps_growsBy: "dbInv d' \<Longrightarrow> growsBy t M d d' \<Longrightarrow> keeps R d d'"
proof (cases "R = t")
  case True
  assume "dbInv d'" "growsBy t M d d'"
  then show ?thesis using True by (simp add: keeps_def growsBy_def)
next
  case False
  assume "dbInv d'" "growsBy t M d d'"
  then show ?thesis using False keeps_frame[of d' "{t}" d R] by (simp add: growsBy_def stepOn_def)
qed

lemma keeps_same_pages:
  "dbInv d' \<Longrightarrow> tables d' = tables d \<Longrightarrow> pages d' = pages d \<Longrightarrow> keeps R d d'"
  by (simp add: keeps_def tableRecs_def cong: option.case_cong)

lemma dbInv_missing:
  "dbInv d \<Longrightarrow> tables d t = None \<Longrightarrow> tablePageSpaces d t = None \<and> tableHashes d t = None"
  using dbInv_tableInv[of d t] by (simp add: tableInv_def)

lemma ensurePage_same: "ensurePage d tb pid = Inr d' \<Longrightarrow> sameData d d'"
  by (auto simp: ensurePage_def split: if_splits option.splits)

lemma cacheGet_same: "cacheGet d pid = Inr (p, d') \<Longrightarrow> sameData d d' \<and> p = pages d pid"
  by (auto simp: cacheGet_def split: if_splits)

lemma getPageContents_same: "getPageContents d pid = Inr (rs, d') \<Longrightarrow> sameData d d'"
  by (auto simp: getPageContents_def bindE_eq_Inr dest: cacheGet_same)

lemma getPageRecord_same: "getPageRecord d pid i = Inr (r, d') \<Longrightarrow> sameData d d'"
  by (auto simp: getPageRecord_def bindE_eq_Inr dest: cacheGet_same)

lemma fetchLocs_same: "fetchLocs tb ls d = Inr (rs, d') \<Longrightarrow> sameData d d'"
proof (induction ls arbitrary: d rs)
  case Nil
  then show ?case by simp
next
  case (Cons l ls)
  obtain pid i where l: "l = (pid, i)" by (cases l)
  from Cons.prems obtain d1 r d2 rest where
    1: "ensurePage d tb pid = Inr d1" and 2: "getPageRecord d1 pid i = Inr (r, d2)"
    and 3: "fetchLocs tb ls d2 = Inr (rest, d')"
    unfolding l by (auto simp: bindE_eq_Inr)
  from ensurePage_same[OF 1] getPageRecord_same[OF 2] Cons.IH[OF 3] show ?case
    by (blast intro: sameData_trans)
qed

lemma fetchKeys_same: "fetchKeys tb ix vs d = Inr (rs, d') \<Longrightarrow> sameData d d'"
proof (induction vs arbitrary: d rs)
  case Nil
  then show ?case by simp
next
  case (Cons v vs)
  from Cons.prems obtain ls r1 d1 rest where
    1: "fetchLocs tb ls d = Inr (r1, d1)" and 2: "fetchKeys tb ix vs d1 = Inr (rest, d')"
    by (auto simp: bindE_eq_Inr split: option.splits)
  from fetchLocs_same[OF 1] Cons.IH[OF 2] show ?case by (blast intro: sameData_trans)
qed

lemma getRecsFromHash_same: "getRecsFromHash d t c op v = Inr (rs, d') \<Longrightarrow> sameData d d'"
  unfolding getRecsFromHash_def
  by (auto simp: bindE_eq_Inr split: if_splits option.splits dest: fetchKeys_same fetchLocs_same)

lemma isTableHashed_table:
  "dbInv d \<Longrightarrow> isTableHashed d t c = Inr b \<Longrightarrow> tables d t \<noteq> None"
  using dbInv_missing[of d t] by (auto simp: isTableHashed_def split: option.splits)

lemma addTable_keeps:
  assumes "dbInv d" "addTable d t colNames = Inr (b, d')"
  shows "keeps R d d'"
proof (cases "tables d t")
  case None
  from addTable_new[OF assms(1) None, of colNames] assms(2)
  have inv: "dbInv d'" and fr: "frameExcept {t} d d'" by auto
  show ?thesis
  proof (cases "R = t")
    case True
    with None inv show ?thesis by (simp add: keeps_def)
  next
    case False
    with inv fr show ?thesis by (auto intro: keeps_frame)
  qed
next
  case (Some pids)
  with assms show ?thesis by (simp add: addTable_existing keeps_refl)
qed

lemma clearTable_keeps:
  assumes "dbInv d" "clearTable d t = Inr d'" "t \<noteq> R"
  shows "keeps R d d'"
proof -
  from assms(2) obtain pids where tb: "tables d t = Some pids"
    by (auto simp: clearTable_def split: option.splits)
  from clearTable_ok[OF assms(1) tb] assms(2) have "dbInv d'" "frameExcept {t} d d'" by auto
  with assms(3) show ?thesis by (auto intro: keeps_frame)
qed

lemma dropTable_keeps:
  assumes "dbInv d" "dropTable d t = Inr d'" "t \<noteq> R"
  shows "keeps R d d'"
proof -
  from dropTable_ok[OF assms(1), of t] assms(2) have "dbInv d'" "frameExcept {t} d d'" by auto
  with assms(3) show ?thesis by (auto intro: keeps_frame)
qed

lemma hashTable_same:
  assumes "dbInv d" "hashTable d t c True = Inr d'"
  shows "dbInv d' \<and> tables d' = tables d \<and> pages d' = pages d"
proof -
  from assms(2) obtain pids where tb: "tables d t = Some pids"
    by (auto simp: hashTable_def split: option.splits)
  from hashTable_ok[OF assms(1) tb, of c] assms(2) show ?thesis
    by (auto simp: sameData_def)
qed

lemma hashTable_keeps: "dbInv d \<Longrightarrow> hashTable d t c True = Inr d' \<Longrightarrow> keeps R d d'"
  using hashTable_same[of d t c d'] by (simp add: keeps_same_pages)

lemma ensureHashed_same:
  assumes "dbInv d" "ensureHashed d t c = Inr d'"
  shows "dbInv d' \<and> tables d' = tables d \<and> pages d' = pages d"
proof -
  from assms(2) obtain b where "isTableHashed d t c = Inr b"
    by (auto simp: ensureHashed_def bindE_eq_Inr)
  with assms(1) obtain pids where tb: "tables d t = Some pids"
    using isTableHashed_table[of d t c b] by auto
  from ensureHashed_spec[OF assms(1) tb, of c] assms(2) show ?thesis by auto
qed

lemma ensureHashed_keeps: "dbInv d \<Longrightarrow> ensureHashed d t c = Inr d' \<Longrightarrow> keeps R d d'"
  using ensureHashed_same[of d t c d'] by (simp add: keeps_same_pages)

lemma insertUnique_keeps:
  assumes inv: "dbInv d" and run: "insertUnique t r d = Inr d'"
  shows "keeps R d d'"
proof -
  from run obtain h ix where h: "tableHashes d t = Some h" "h ''_id'' = Some ix"
    by (auto simp: insertUnique_def split: option.splits)
  then have hs: "hashedOn d t ''_id'' ix" by (simp add: hashedOn_def)
  from dbInv_hashed_table[OF inv hs] obtain pids where tb: "tables d t = Some pids" by auto
  show ?thesis
  proof (cases "idxHas ix (getField r ''_id'')")
    case True
    from insertUnique_skip[OF hs True] run inv show ?thesis by (simp add: keeps_refl)
  next
    case False
    from insertUnique_accept[OF inv tb hs False] run obtain d4 u where
      d': "d' = d4\<lparr>tableHashes := u\<rparr>" and inv': "dbInv d'" and gr: "growsBy t {#r#} d d4"
      and inv4: "dbInv d4"
      by auto
    have "keeps R d d4" using keeps_growsBy[OF inv4 gr] .
    moreover have "keeps R d4 d'" using inv' d' by (simp add: keeps_same_pages)
    ultimately show ?thesis by (rule keeps_trans)
  qed
qed

lemma forEachE_keeps:
  assumes step: "\<And>x d d'. dbInv d \<Longrightarrow> x \<in> set xs \<Longrightarrow> f x d = Inr d' \<Longrightarrow> keeps R d d'"
    and "dbInv d" "forEachE f xs d = Inr d'"
  shows "keeps R d d'"
  using assms
proof (induction xs arbitrary: d)
  case Nil
  then show ?case by (simp add: keeps_refl)
next
  case (Cons x xs)
  from Cons.prems(3) obtain d1 where 1: "f x d = Inr d1" and 2: "forEachE f xs d1 = Inr d'"
    by (auto simp: bindE_eq_Inr)
  have k1: "keeps R d d1" using Cons.prems(1)[OF Cons.prems(2) _ 1] by simp
  have "keeps R d1 d'"
  proof (rule Cons.IH[OF _ keeps_dbInv[OF k1] 2])
    fix y e e'
    assume "dbInv e" "y \<in> set xs" "f y e = Inr e'"
    then show "keeps R e e'" using Cons.prems(1)[of e y e'] by simp
  qed
  with k1 show ?case by (rule keeps_trans)
qed

lemma insertUniqueRecordsById_keeps:
  assumes inv: "dbInv d" and run: "insertUniqueRecordsById d t rs = Inr d'"
  shows "keeps R d d'"
proof -
  from run obtain d1 where 1: "ensureHashed d t ''_id'' = Inr d1"
    and 2: "forEachE (insertUnique t) rs d1 = Inr d'"
    by (auto simp: insertUniqueRecordsById_def ensureHashed_def bindE_eq_Inr)
  have k1: "keeps R d d1" using ensureHashed_keeps[OF inv 1] .
  have "keeps R d1 d'"
    using forEachE_keeps[of rs "insertUnique t" R d1 d'] insertUnique_keeps keeps_dbInv[OF k1] 2
    by blast
  with k1 show ?thesis by (rule keeps_trans)
qed

lemma insertRecords_keeps:
  assumes inv: "dbInv d" and run: "insertRecords d t rs = Inr d'"
  shows "keeps R d d'"
proof (cases "rs = []")
  case True
  with run inv show ?thesis by (simp add: insertRecords_def keeps_refl)
next
  case False
  with run have "tablePageSpaces d t \<noteq> None"
    by (auto simp: insertRecords_def getPageToInsert_def bindE_eq_Inr split: option.splits)
  with dbInv_missing[OF inv, of t] have tb: "tables d t \<noteq> None" by auto
  from insertRecords_ok[OF inv tb, of rs] run obtain stored where
    "dbInv d'" "growsBy t (mset stored) d d'" by auto
  then show ?thesis by (rule keeps_growsBy)
qed

lemma hashJoin_same:
  assumes inv: "dbInv d" and run: "hashJoin d t1 c1 t2 c2 proj op g = Inr (out, d')"
  shows "dbInv d' \<and> tables d' = tables d \<and> pages d' = pages d"
proof -
  from run obtain d1 d2 where 1: "ensureHashed d t1 c1 = Inr d1"
    and 2: "ensureHashed d1 t2 c2 = Inr d2"
    by (auto simp: hashJoin_def bindE_eq_Inr)
  from 1 obtain b1 where "isTableHashed d t1 c1 = Inr b1"
    by (auto simp: ensureHashed_def bindE_eq_Inr)
  with inv obtain pids1 where tb1: "tables d t1 = Some pids1"
    using isTableHashed_table[of d t1 c1 b1] by auto
  from ensureHashed_same[OF inv 1] have s1: "dbInv d1" "tables d1 = tables d" by auto
  from 2 obtain b2 where "isTableHashed d1 t2 c2 = Inr b2"
    by (auto simp: ensureHashed_def bindE_eq_Inr)
  with s1 obtain pids2 where tb2: "tables d t2 = Some pids2"
    using isTableHashed_table[of d1 t2 c2 b2] by auto
  from hashJoin_spec[OF inv tb1 tb2, of c1 c2 proj op g] obtain d'' m where
    eq: "hashJoin d t1 c1 t2 c2 proj op g = withState m d''"
    and f: "dbInv d''" "tables d'' = tables d" "pages d'' = pages d"
    by blast
  from eq run have "d' = d''" by (cases m) (auto simp: withState_Inl withState_Inr)
  with f show ?thesis by simp
qed

lemma hashJoin_keeps:
  "dbInv d \<Longrightarrow> hashJoin d t1 c1 t2 c2 proj op g = Inr (out, d') \<Longrightarrow> keeps R d d'"
  using hashJoin_same[of d t1 c1 t2 c2 proj op g out d'] by (simp add: keeps_same_pages)

lemma forPages_keeps:
  assumes step: "\<And>x d d'. dbInv d \<Longrightarrow> f x d = Inr d' \<Longrightarrow> keeps R d d'"
    and "dbInv d" "forPages tb pids f d = Inr d'"
  shows "keeps R d d'"
  using assms(2,3)
proof (induction pids arbitrary: d)
  case Nil
  then show ?case by (simp add: keeps_refl)
next
  case (Cons pid pids)
  from Cons.prems(2) obtain d1 rs d2 d3 where 1: "ensurePage d tb pid = Inr d1"
    and 2: "getPageContents d1 pid = Inr (rs, d2)" and 3: "forEachE f rs d2 = Inr d3"
    and 4: "forPages tb pids f d3 = Inr d'"
    by (auto simp: bindE_eq_Inr)
  have s: "sameData d d2"
    using ensurePage_same[OF 1] getPageContents_same[OF 2] by (rule sameData_trans)
  have k2: "keeps R d d2" using keeps_sameData[OF Cons.prems(1) s] .
  have k3: "keeps R d2 d3"
    using forEachE_keeps[of rs f R d2 d3] step keeps_dbInv[OF k2] 3 by blast
  have k4: "keeps R d3 d'" using Cons.IH[OF keeps_dbInv[OF k3] 4] .
  from k2 k3 k4 show ?case by (blast intro: keeps_trans)
qed

lemma forAllRecords_keeps:
  assumes "\<And>x d d'. dbInv d \<Longrightarrow> f x d = Inr d' \<Longrightarrow> keeps R d d'"
    and "dbInv d" "forAllRecords t f d = Inr d'"
  shows "keeps R d d'"
  using assms(3) forPages_keeps[of f R d _ _ d', OF assms(1) assms(2)]
  by (auto simp: forAllRecords_def split: option.splits)

section \<open>The evaluator keeps the result table\<close>

lemma reserved_idString: "reservedName (idString n)"
  unfolding reservedName_def by blast

lemma reserved_compositeId: "reservedName (compositeId p)"
  unfolding reservedName_def by blast

lemma plain_name_not_reserved:
  "s \<noteq> [] \<Longrightarrow> hd s \<noteq> CHR ''~'' \<Longrightarrow> hd s \<noteq> CHR ''['' \<Longrightarrow> \<not> reservedName s"
  by (auto simp: reservedName_def idString_def compositeId_def)

lemma freshName_keeps:
  assumes "dbInv d" "freshName d = (nm, d0)"
  shows "keeps R d d0 \<and> reservedName nm"
proof -
  from assms(2) have d0: "d0 = d\<lparr>nextId := Suc (nextId d)\<rparr>" and nm: "nm = idString (nextId d)"
    by (auto simp: freshName_def)
  have "dbInv d0" using dbInvH_nextId[of d "[]" "{}"] assms(1) by (simp add: dbInv_def d0)
  then show ?thesis using d0 nm by (simp add: keeps_same_pages reserved_idString)
qed

lemma copyUnique_keeps: "dbInv d \<Longrightarrow> copyUnique t r d = Inr d' \<Longrightarrow> keeps R d d'"
  by (simp add: copyUnique_def insertUniqueRecordsById_keeps)

lemma emitRecord_keeps:
  assumes "dbInv d" "emitRecord W R' r d = Inr d'"
  shows "keeps R d d'"
proof -
  from assms(2) obtain d1 where 1: "insertUniqueRecordsById d W [r] = Inr d1"
    and 2: "insertUniqueRecordsById d1 R' [r] = Inr d'"
    by (auto simp: emitRecord_def bindE_eq_Inr)
  have k1: "keeps R d d1" using insertUniqueRecordsById_keeps[OF assms(1) 1] .
  have "keeps R d1 d'" using insertUniqueRecordsById_keeps[OF keeps_dbInv[OF k1] 2] .
  with k1 show ?thesis by (rule keeps_trans)
qed

lemma selectAll_keeps:
  assumes inv: "dbInv d" and run: "selectAll tm W R' d = Inr d'" and ne: "W \<noteq> R"
  shows "keeps R d d'"
proof -
  from run obtain tableName filters d1 where
    1: "clearTable d W = Inr d1"
    and 2: "forAllRecords tableName
              (\<lambda>record d2.
                 if filterOf filters record then
                   emitRecord W R' (addRecordAsId (deleteIds record)) d2
                 else Inr d2) d1 = Inr d'"
    by (auto simp: selectAll_def bindE_eq_Inr split: list.splits)
  have k1: "keeps R d d1" using clearTable_keeps[OF inv 1 ne] .
  have "keeps R d1 d'"
  proof (rule forAllRecords_keeps[OF _ keeps_dbInv[OF k1] 2])
    fix x e e'
    assume "dbInv e"
      "(if filterOf filters x then emitRecord W R' (addRecordAsId (deleteIds x)) e else Inr e) = Inr e'"
    then show "keeps R e e'"
      by (auto split: if_splits intro: emitRecord_keeps keeps_refl)
  qed
  with k1 show ?thesis by (rule keeps_trans)
qed

lemma mergeTemps_keeps:
  assumes inv: "dbInv d" and run: "mergeTemps temps target d = Inr d'"
  shows "keeps R d d'"
proof (cases temps)
  case Nil
  with run show ?thesis by (simp add: mergeTemps_def)
next
  case (Cons t1 rest)
  show ?thesis
  proof (cases rest)
    case Nil
    with Cons run have "forAllRecords t1 (copyUnique target) d = Inr d'"
      by (simp add: mergeTemps_def)
    then show ?thesis
      using forAllRecords_keeps[of "copyUnique target" R d t1 d'] inv copyUnique_keeps by blast
  next
    case (Cons t2 more)
    with \<open>temps = t1 # rest\<close> run have
      2: "forAllRecords t1
            (\<lambda>rec d1.
               bindE (everyHasValue d1 rest (getField rec ''_id'')) (\<lambda>b.
                 if b then copyUnique target rec d1 else Inr d1)) d = Inr d'"
      by (simp add: mergeTemps_def)
    show ?thesis
    proof (rule forAllRecords_keeps[OF _ inv 2])
      fix x e e'
      assume "dbInv e"
        "bindE (everyHasValue e rest (getField x ''_id''))
           (\<lambda>b. if b then copyUnique target x e else Inr e) = Inr e'"
      then show "keeps R e e'"
        by (auto simp: bindE_eq_Inr split: if_splits intro: copyUnique_keeps keeps_refl)
    qed
  qed
qed

lemma dropAll_keeps:
  assumes "dbInv d" "dropAll names d = Inr d'" "\<forall>t\<in>set names. t \<noteq> R"
  shows "keeps R d d'"
proof (rule forEachE_keeps[OF _ assms(1) assms(2)[unfolded dropAll_def]])
  fix x e e'
  assume "dbInv e" "x \<in> set names" "dropTable e x = Inr e'"
  with assms(3) show "keeps R e e'" by (auto intro: dropTable_keeps)
qed

lemma reserved_neq: "reservedName t \<Longrightarrow> \<not> reservedName R \<Longrightarrow> t \<noteq> R"
  by auto

lemma simpleOpTable_keeps:
  assumes inv: "dbInv d" and run: "simpleOpTable tName op d = Inr (nm, d')"
  shows "keeps R d d' \<and> reservedName nm"
proof -
  obtain nm0 d0 where f: "freshName d = (nm0, d0)" by (cases "freshName d")
  from run f obtain keys b d1 d2 recs d3 where
    1: "addTable d0 nm0 keys = Inr (b, d1)"
    and 2: "ensureHashed d1 tName (lhsName op) = Inr d2"
    and 3: "getRecsFromHash d2 tName (lhsName op) (operator op) (rhsConst op) = Inr (recs, d3)"
    and 4: "forEachE (copyUnique nm0) recs d3 = Inr d'" and nm: "nm = nm0"
    by (auto simp: simpleOpTable_def bindE_eq_Inr)
  from freshName_keeps[OF inv f] have k0: "keeps R d d0" and r: "reservedName nm0" by auto
  have k1: "keeps R d0 d1" using addTable_keeps[OF keeps_dbInv[OF k0] 1] .
  have k2: "keeps R d1 d2" using ensureHashed_keeps[OF keeps_dbInv[OF k1] 2] .
  have k3: "keeps R d2 d3"
    using keeps_sameData[OF keeps_dbInv[OF k2] getRecsFromHash_same[OF 3]] .
  have k4: "keeps R d3 d'"
    using forEachE_keeps[of recs "copyUnique nm0" R d3 d'] keeps_dbInv[OF k3] 4 copyUnique_keeps
    by blast
  from k0 k1 k2 k3 k4 r nm show ?thesis by (blast intro: keeps_trans)
qed

lemma simpleOpTables_keeps:
  assumes "dbInv d" "simpleOpTables tName os d = Inr (nms, d')"
  shows "keeps R d d' \<and> (\<forall>nm\<in>set nms. reservedName nm)"
  using assms
proof (induction os arbitrary: d nms)
  case Nil
  then show ?case by (auto simp: keeps_refl)
next
  case (Cons op os)
  from Cons.prems(2) obtain nm d1 rest where 1: "simpleOpTable tName op d = Inr (nm, d1)"
    and 2: "simpleOpTables tName os d1 = Inr (rest, d')" and nms: "nms = nm # rest"
    by (auto simp: bindE_eq_Inr)
  from simpleOpTable_keeps[OF Cons.prems(1) 1] have k1: "keeps R d d1" and r: "reservedName nm"
    by auto
  from Cons.IH[OF keeps_dbInv[OF k1] 2] have "keeps R d1 d'" "\<forall>nm\<in>set rest. reservedName nm"
    by auto
  with k1 r nms show ?case by (auto intro: keeps_trans)
qed

lemma simplifyTable_keeps:
  assumes inv: "dbInv d" and run: "simplifyTable tName os d = Inr (nm, d')"
    and nr: "\<not> reservedName R"
  shows "keeps R d d'"
proof -
  obtain nm0 d0 where f: "freshName d = (nm0, d0)" by (cases "freshName d")
  from run f obtain keys b d1 temps d2 d3 where
    1: "addTable d0 nm0 keys = Inr (b, d1)"
    and 2: "simpleOpTables tName os d1 = Inr (temps, d2)"
    and 3: "mergeTemps temps nm0 d2 = Inr d3"
    and 4: "dropAll temps d3 = Inr d'"
    by (auto simp: simplifyTable_def bindE_eq_Inr)
  from freshName_keeps[OF inv f] have k0: "keeps R d d0" by auto
  have k1: "keeps R d0 d1" using addTable_keeps[OF keeps_dbInv[OF k0] 1] .
  from simpleOpTables_keeps[OF keeps_dbInv[OF k1] 2]
  have k2: "keeps R d1 d2" and rs: "\<forall>nm\<in>set temps. reservedName nm" by auto
  have k3: "keeps R d2 d3" using mergeTemps_keeps[OF keeps_dbInv[OF k2] 3] .
  have k4: "keeps R d3 d'"
    using dropAll_keeps[OF keeps_dbInv[OF k3] 4] rs nr by auto
  from k0 k1 k2 k3 k4 show ?thesis by (blast intro: keeps_trans)
qed

lemma simplifyTables_keeps:
  assumes "dbInv d" "simplifyTables simple nm d = Inr (nm', d')" "\<not> reservedName R"
  shows "keeps R d d'"
  using assms
proof (induction simple arbitrary: d nm)
  case Nil
  then show ?case by (auto simp: keeps_refl)
next
  case (Cons e simple)
  obtain tName os where e: "e = (tName, os)" by (cases e)
  from Cons.prems(2) obtain sid d1 where 1: "simplifyTable tName os d = Inr (sid, d1)"
    and 2: "simplifyTables simple (nm(tName \<mapsto> sid)) d1 = Inr (nm', d')"
    unfolding e by (auto simp: bindE_eq_Inr)
  have k1: "keeps R d d1" using simplifyTable_keeps[OF Cons.prems(1) 1 Cons.prems(3)] .
  have "keeps R d1 d'" using Cons.IH[OF keeps_dbInv[OF k1] 2 Cons.prems(3)] .
  with k1 show ?case by (rule keeps_trans)
qed

lemma pairOpTable_keeps:
  assumes inv: "dbInv d" and run: "pairOpTable g proj nm pairOp d = Inr (t, d')"
  shows "keeps R d d' \<and> reservedName t"
proof -
  obtain nm0 d0 where f: "freshName d = (nm0, d0)" by (cases "freshName d")
  from run obtain rt rn where rc: "rhsColumn pairOp = Some (rt, rn)"
    by (cases "rhsColumn pairOp") (auto simp: pairOpTable_def)
  from run f rc obtain colNames b d1 where
    1: "addTable d0 nm0 colNames = Inr (b, d1)"
    and rest: "(case nm (lhsTable pairOp) of
                  None \<Rightarrow> Inl TypeError
                | Some src1 \<Rightarrow>
                    (case nm rt of
                       None \<Rightarrow> Inl TypeError
                     | Some src2 \<Rightarrow>
                         bindE (hashJoin d1 src1 (lhsName pairOp) src2 rn
                                  (filterProj proj (lhsTable pairOp) rt)
                                  (operator pairOp) True) (\<lambda>(joined, d2).
                           bindE (forEachE (insertJoined src1 src2 nm0) joined d2) (\<lambda>d3.
                             bindE (hashTable d3 nm0 ''_id'' True) (\<lambda>d4.
                               Inr (nm0, d4)))))) = Inr (t, d')"
    by (auto simp: pairOpTable_def bindE_eq_Inr)
  from rest obtain src1 where s1: "nm (lhsTable pairOp) = Some src1"
    by (cases "nm (lhsTable pairOp)") auto
  from rest s1 obtain src2 where s2: "nm rt = Some src2" by (cases "nm rt") auto
  from rest s1 s2 obtain c1 c2 tp joined d2 d3 where
    2: "hashJoin d1 src1 c1 src2 c2 tp (operator pairOp) True = Inr (joined, d2)"
    and 3: "forEachE (insertJoined src1 src2 nm0) joined d2 = Inr d3"
    and 4: "hashTable d3 nm0 ''_id'' True = Inr d'" and t: "t = nm0"
    by (auto simp: bindE_eq_Inr)
  from freshName_keeps[OF inv f] have k0: "keeps R d d0" and r: "reservedName nm0" by auto
  have k1: "keeps R d0 d1" using addTable_keeps[OF keeps_dbInv[OF k0] 1] .
  have k2: "keeps R d1 d2" using hashJoin_keeps[OF keeps_dbInv[OF k1] 2] .
  have k3: "keeps R d2 d3"
  proof (rule forEachE_keeps[OF _ keeps_dbInv[OF k2] 3])
    fix x e e'
    assume "dbInv e" "insertJoined src1 src2 nm0 x e = Inr e'"
    then show "keeps R e e'"
      by (auto simp: insertJoined_def split: if_splits intro: insertRecords_keeps keeps_refl)
  qed
  have k4: "keeps R d3 d'" using hashTable_keeps[OF keeps_dbInv[OF k3] 4] .
  from k0 k1 k2 k3 k4 r t show ?thesis by (blast intro: keeps_trans)
qed

lemma pairOpTables_keeps:
  assumes "dbInv d" "pairOpTables g proj nm os d = Inr (ts, d')"
  shows "keeps R d d' \<and> (\<forall>t\<in>set ts. reservedName t)"
  using assms
proof (induction os arbitrary: d ts)
  case Nil
  then show ?case by (auto simp: keeps_refl)
next
  case (Cons op os)
  from Cons.prems(2) obtain t d1 rest where 1: "pairOpTable g proj nm op d = Inr (t, d1)"
    and 2: "pairOpTables g proj nm os d1 = Inr (rest, d')" and ts: "ts = t # rest"
    by (auto simp: bindE_eq_Inr)
  from pairOpTable_keeps[OF Cons.prems(1) 1] have k1: "keeps R d d1" and r: "reservedName t"
    by auto
  from Cons.IH[OF keeps_dbInv[OF k1] 2] have "keeps R d1 d'" "\<forall>t\<in>set rest. reservedName t"
    by auto
  with k1 r ts show ?case by (auto intro: keeps_trans)
qed

lemma compositeTable_keeps:
  assumes inv: "dbInv d" and run: "compositeTable g proj nm entry d = Inr d'"
    and nr: "\<not> reservedName R"
  shows "keeps R d d'"
proof -
  obtain pair pairOps where e: "entry = (pair, pairOps)" by (cases entry)
  from run obtain temps d1 where
    1: "pairOpTables g proj nm pairOps d = Inr (temps, d1)"
    and rest: "(case pairOps of
                  [] \<Rightarrow> Inl TypeError
                | op0 # others \<Rightarrow>
                    (case rhsColumn op0 of
                       None \<Rightarrow> Inl TypeError
                     | Some (t2, n2) \<Rightarrow>
                         bindE (spread (g (Some (lhsTable op0)))) (\<lambda>cs1.
                           bindE (spread (g (Some t2))) (\<lambda>cs2.
                             bindE (addTable d1 (compositeId pair) (map columnText (cs1 @ cs2)))
                               (\<lambda>(b, d2).
                                  bindE (mergeTemps temps (compositeId pair) d2) (\<lambda>d3.
                                    bindE (hashTable d3 (compositeId pair) (''_id'' @ lhsTable op0) True)
                                      (\<lambda>d4.
                                         bindE (hashTable d4 (compositeId pair) (''_id'' @ t2) True)
                                           (\<lambda>d5. dropAll temps d5)))))))) = Inr d'"
    unfolding e by (auto simp: compositeTable_def bindE_eq_Inr)
  from rest obtain op0 others where po: "pairOps = op0 # others" by (cases pairOps) auto
  from rest po obtain t2 n2 where rc: "rhsColumn op0 = Some (t2, n2)"
    by (cases "rhsColumn op0") auto
  from rest po rc obtain colNames b d2 d3 c1 d4 c2 d5 where
    2: "addTable d1 (compositeId pair) colNames = Inr (b, d2)"
    and 3: "mergeTemps temps (compositeId pair) d2 = Inr d3"
    and 4: "hashTable d3 (compositeId pair) c1 True = Inr d4"
    and 5: "hashTable d4 (compositeId pair) c2 True = Inr d5"
    and 6: "dropAll temps d5 = Inr d'"
    by (auto simp: bindE_eq_Inr)
  from pairOpTables_keeps[OF inv 1] have k1: "keeps R d d1"
    and rs: "\<forall>t\<in>set temps. reservedName t" by auto
  have k2: "keeps R d1 d2" using addTable_keeps[OF keeps_dbInv[OF k1] 2] .
  have k3: "keeps R d2 d3" using mergeTemps_keeps[OF keeps_dbInv[OF k2] 3] .
  have k4: "keeps R d3 d4" using hashTable_keeps[OF keeps_dbInv[OF k3] 4] .
  have k5: "keeps R d4 d5" using hashTable_keeps[OF keeps_dbInv[OF k4] 5] .
  have k6: "keeps R d5 d'" using dropAll_keeps[OF keeps_dbInv[OF k5] 6] rs nr by auto
  from k1 k2 k3 k4 k5 k6 show ?thesis by (blast intro: keeps_trans)
qed

section \<open>Join trees and the result of a term\<close>

lemma everyE_childTest:
  "everyE (childTest d parentTables parentRec) (c # cs) = Inr b \<Longrightarrow> \<not> b"
  by (auto simp: childTest_def bindE_eq_Inr)

lemma parentStep_nothing:
  assumes "cs \<noteq> []" "parentStep columns parentTables cs parentRec s = Inr s'"
  shows "s' = s"
proof -
  obtain c cs' where cs: "cs = c # cs'" using assms(1) by (cases cs) auto
  obtain results d where s: "s = (results, d)" by (cases s)
  from assms(2) obtain keep where
    k: "everyE (childTest d parentTables parentRec) (c # cs') = Inr keep"
    and r: "(if keep then
               bindE (composeChildren parentTables parentRec (c # cs') [parentRec] d)
                 (\<lambda>(recs, d1).
                    Inr (results @
                           map (keepKeys ([''_id'' @ fst parentTables, ''_id'' @ snd parentTables] @
                                            map nameKey columns)) recs, d1))
             else Inr (results, d)) = Inr s'"
    unfolding s cs parentStep_def by (auto simp: bindE_eq_Inr)
  from everyE_childTest[OF k] r s show ?thesis by simp
qed

lemma foldE_nothing:
  assumes "\<And>x s s'. f x s = Inr s' \<Longrightarrow> s' = s" "foldE f xs s = Inr s'"
  shows "s' = s"
  using assms(2)
proof (induction xs arbitrary: s)
  case Nil
  then show ?case by simp
next
  case (Cons x xs)
  from Cons.prems obtain s1 where 1: "f x s = Inr s1" and 2: "foldE f xs s1 = Inr s'"
    by (auto simp: bindE_eq_Inr)
  from assms(1)[OF 1] Cons.IH[OF 2] show ?case by simp
qed

lemma collectPages_nothing:
  assumes "cs \<noteq> []"
    "collectPages tb pids (parentStep columns parentTables cs) (results, d) = Inr (results', d')"
  shows "results' = results \<and> sameData d d'"
  using assms(2)
proof (induction pids arbitrary: d)
  case Nil
  then show ?case by simp
next
  case (Cons pid pids)
  from Cons.prems obtain d1 rs d2 s3 where 1: "ensurePage d tb pid = Inr d1"
    and 2: "getPageContents d1 pid = Inr (rs, d2)"
    and 3: "foldE (parentStep columns parentTables cs) rs (results, d2) = Inr s3"
    and 4: "collectPages tb pids (parentStep columns parentTables cs) s3 = Inr (results', d')"
    by (auto simp: bindE_eq_Inr)
  have s3: "s3 = (results, d2)"
    using foldE_nothing[of "parentStep columns parentTables cs" rs "(results, d2)" s3]
      parentStep_nothing[OF assms(1)] 3 by blast
  from Cons.IH[OF 4[unfolded s3]] have "results' = results" "sameData d2 d'" by auto
  with ensurePage_same[OF 1] getPageContents_same[OF 2] show ?case
    by (blast intro: sameData_trans)
qed

lemma collectRecords_nothing:
  assumes "cs \<noteq> []"
    "collectRecords t (parentStep columns parentTables cs) (results, d) = Inr (results', d')"
  shows "results' = results \<and> sameData d d'"
  using assms(2) collectPages_nothing[OF assms(1), of _ _ columns parentTables results d results' d']
  by (auto simp: collectRecords_def split: option.splits)

lemma tableRecs_same_pages:
  "tables d' = tables d \<Longrightarrow> pages d' = pages d \<Longrightarrow> tableRecs d' t = tableRecs d t"
  by (simp add: tableRecs_def cong: option.case_cong)

lemma repopulate_empty:
  assumes inv: "dbInv d2" and nr: "\<not> reservedName R"
    and 3: "clearTable d2 (compositeId parentId) = Inr d3"
    and 5: "forEachE (\<lambda>t d5. hashTable d5 (compositeId parentId) (''_id'' @ t) True)
              [fst parentId, snd parentId] d3 = Inr d6"
  shows "keeps R d2 d6 \<and> tableRecs d6 (compositeId parentId) = []"
proof -
  from 3 obtain pids where tb: "tables d2 (compositeId parentId) = Some pids"
    by (auto simp: clearTable_def split: option.splits)
  from clearTable_ok[OF inv tb] 3 have e3: "tableRecs d3 (compositeId parentId) = []" by auto
  have k3: "keeps R d2 d3"
    using clearTable_keeps[OF inv 3 reserved_neq[OF reserved_compositeId nr]] .
  from 5 obtain d5 where h1: "hashTable d3 (compositeId parentId) (''_id'' @ fst parentId) True = Inr d5"
    and h2: "hashTable d5 (compositeId parentId) (''_id'' @ snd parentId) True = Inr d6"
    by (auto simp: bindE_eq_Inr)
  from hashTable_same[OF keeps_dbInv[OF k3] h1] have
    s5: "dbInv d5" "tables d5 = tables d3" "pages d5 = pages d3" by auto
  from hashTable_same[OF s5(1) h2] have
    s6: "dbInv d6" "tables d6 = tables d5" "pages d6 = pages d5" by auto
  have "tableRecs d6 (compositeId parentId) = []"
    using tableRecs_same_pages[of d6 d3 "compositeId parentId"] s5 s6 e3 by simp
  moreover have "keeps R d3 d6" using s5 s6 by (simp add: keeps_same_pages)
  ultimately show ?thesis using k3 by (blast intro: keeps_trans)
qed

lemma getCommonTreeVals_keeps:
  "dbInv d \<Longrightarrow> getCommonTreeVals columns tr d = Inr (p, d') \<Longrightarrow> \<not> reservedName R \<Longrightarrow>
     keeps R d d' \<and>
     (\<forall>pid cs. tr = Tree pid cs \<longrightarrow> p = pid \<and> (cs \<noteq> [] \<longrightarrow> tableRecs d' (compositeId pid) = []))"
  "dbInv d \<Longrightarrow> commonOfChildren columns trs d = Inr (ps, d') \<Longrightarrow> \<not> reservedName R \<Longrightarrow>
     keeps R d d' \<and> length ps = length trs"
proof (induction columns tr d and columns trs d arbitrary: p d' and ps d'
    rule: getCommonTreeVals_commonOfChildren.induct)
  case (1 columns parentId children d)
  show ?case
  proof (cases "children = []")
    case True
    with 1 show ?thesis by (simp add: keeps_refl)
  next
    case False
    from 1(3) False obtain childrenTables d1 results d2 d3 d4 d6 where
      a: "commonOfChildren columns children d = Inr (childrenTables, d1)"
      and b: "collectRecords (compositeId parentId)
                (parentStep columns parentId childrenTables) ([], d1) = Inr (results, d2)"
      and c: "clearTable d2 (compositeId parentId) = Inr d3"
      and e: "insertRecords d3 (compositeId parentId) results = Inr d4"
      and f: "forEachE (\<lambda>t d5. hashTable d5 (compositeId parentId) (''_id'' @ t) True)
                [fst parentId, snd parentId] d4 = Inr d6"
      and p: "p = parentId" and d': "d' = d6"
      by (auto simp: bindE_eq_Inr)
    from 1(1)[OF False 1(2) a 1(4)] have k1: "keeps R d d1"
      and len: "length childrenTables = length children" by auto
    from len False have ne: "childrenTables \<noteq> []" by auto
    from collectRecords_nothing[OF ne b] have res: "results = []" and sd: "sameData d1 d2" by auto
    have k2: "keeps R d1 d2" using keeps_sameData[OF keeps_dbInv[OF k1] sd] .
    from e res have d4: "d4 = d3" by (simp add: insertRecords_def)
    from repopulate_empty[OF keeps_dbInv[OF k2] 1(4) c f[unfolded d4]]
    have "keeps R d2 d6" "tableRecs d6 (compositeId parentId) = []" by auto
    with k1 k2 p d' show ?thesis by (auto intro: keeps_trans)
  qed
next
  case (2 columns d)
  then show ?case by (auto simp: keeps_refl)
next
  case (3 columns child others d)
  from 3(4) obtain cName d1 rest where a: "getCommonTreeVals columns child d = Inr (cName, d1)"
    and b: "commonOfChildren columns others d1 = Inr (rest, d')" and ps: "ps = cName # rest"
    by (auto simp: bindE_eq_Inr)
  from 3(1)[OF 3(3) a 3(5)] have k1: "keeps R d d1" by simp
  from 3(2)[OF a refl keeps_dbInv[OF k1] b 3(5)] have "keeps R d1 d'" "length rest = length others"
    by auto
  with k1 ps show ?case by (auto intro: keeps_trans)
qed

lemma treeTables_keeps:
  assumes "dbInv d" "treeTables columns trees its d = Inr (its', d')" "\<not> reservedName R"
  shows "keeps R d d'"
  using assms
proof (induction trees arbitrary: its d)
  case Nil
  then show ?case by (auto simp: keeps_refl)
next
  case (Cons tr trees)
  from Cons.prems(2) obtain tid d1 where 1: "getCommonTreeVals columns tr d = Inr (tid, d1)"
    and 2: "treeTables columns trees (its @ [compositeId tid]) d1 = Inr (its', d')"
    by (auto simp: bindE_eq_Inr)
  from getCommonTreeVals_keeps(1)[OF Cons.prems(1) 1 Cons.prems(3)] have k1: "keeps R d d1" by simp
  have "keeps R d1 d'" using Cons.IH[OF keeps_dbInv[OF k1] 2 Cons.prems(3)] .
  with k1 show ?case by (rule keeps_trans)
qed

lemma moveIntoFinal_keeps:
  assumes inv: "dbInv d" and run: "moveIntoFinal columns table d = Inr (nm, d')"
  shows "keeps R d d' \<and> reservedName nm"
proof -
  obtain nm0 d0 where f: "freshName d = (nm0, d0)" by (cases "freshName d")
  from run f obtain colNames b d1 where
    1: "addTable d0 nm0 colNames = Inr (b, d1)"
    and 2: "forAllRecords table
              (\<lambda>finalRec. copyUnique nm0 (addRecordAsId (deleteIds finalRec))) d1 = Inr d'"
    and nm: "nm = nm0"
    by (auto simp: moveIntoFinal_def bindE_eq_Inr)
  from freshName_keeps[OF inv f] have k0: "keeps R d d0" and r: "reservedName nm0" by auto
  have k1: "keeps R d0 d1" using addTable_keeps[OF keeps_dbInv[OF k0] 1] .
  have k2: "keeps R d1 d'"
  proof (rule forAllRecords_keeps[OF _ keeps_dbInv[OF k1] 2])
    fix x e e'
    assume "dbInv e" "copyUnique nm0 (addRecordAsId (deleteIds x)) e = Inr e'"
    then show "keeps R e e'" by (rule copyUnique_keeps)
  qed
  from k0 k1 k2 r nm show ?thesis by (blast intro: keeps_trans)
qed

lemma getNonIdCols_undefined: "getNonIdCols d t = Inr c \<Longrightarrow> c = None"
  by (auto simp: getNonIdCols_def bindE_eq_Inr)

lemma blockJoinTables_raises: "\<exists>e. blockJoinTables t1 rest d = Inl e"
proof (cases rest)
  case Nil
  then show ?thesis by (cases "getNonIdCols d t1") auto
next
  case (Cons t2 more)
  show ?thesis
  proof (cases "getNonIdCols d t1")
    case (Inl e)
    with Cons show ?thesis by simp
  next
    case (Inr c1)
    then have c1: "c1 = None" by (rule getNonIdCols_undefined)
    show ?thesis
    proof (cases "getNonIdCols d t2")
      case (Inl e)
      with Cons Inr show ?thesis by simp
    next
      case (Inr c2)
      with Cons \<open>getNonIdCols d t1 = Inr c1\<close> c1 show ?thesis by (simp add: spread_def)
    qed
  qed
qed

lemma blockJoinIndependentTables_keeps:
  assumes inv: "dbInv d" and run: "blockJoinIndependentTables columns its d = Inr (nm, d')"
  shows "keeps R d d' \<and> reservedName nm"
proof -
  show ?thesis
  proof (cases its)
    case Nil
    with run show ?thesis by (simp add: blockJoinIndependentTables_def)
  next
    case (Cons t1 rest)
    show ?thesis
    proof (cases rest)
      case Nil
      with Cons run have "moveIntoFinal columns t1 d = Inr (nm, d')"
        by (simp add: blockJoinIndependentTables_def)
      with moveIntoFinal_keeps[OF inv] show ?thesis by blast
    next
      case (Cons t2 more)
      with \<open>its = t1 # rest\<close> run have "blockJoinTables t1 (t2 # more) d = Inr (nm, d')"
        by (simp add: blockJoinIndependentTables_def)
      with blockJoinTables_raises[of t1 "t2 # more" d] show ?thesis by auto
    qed
  qed
qed

lemma emitFinal_keeps:
  assumes inv: "dbInv d" and run: "emitFinal W R' final pairs d = Inr d'"
    and ne: "W \<noteq> R" and nr: "\<not> reservedName R" and rf: "reservedName final"
  shows "keeps R d d'"
proof -
  from run obtain d1 d2 d3 where 1: "clearTable d W = Inr d1"
    and 2: "forAllRecords final (emitRecord W R') d1 = Inr d2"
    and 3: "dropTable d2 final = Inr d3"
    and 4: "dropAll (map compositeId pairs) d3 = Inr d'"
    by (auto simp: emitFinal_def bindE_eq_Inr)
  have k1: "keeps R d d1" using clearTable_keeps[OF inv 1 ne] .
  have k2: "keeps R d1 d2"
    using forAllRecords_keeps[of "emitRecord W R'" R d1 final d2] keeps_dbInv[OF k1] 2
      emitRecord_keeps by blast
  have k3: "keeps R d2 d3" using dropTable_keeps[OF keeps_dbInv[OF k2] 3 reserved_neq[OF rf nr]] .
  have k4: "keeps R d3 d'"
  proof (rule dropAll_keeps[OF keeps_dbInv[OF k3] 4])
    show "\<forall>t\<in>set (map compositeId pairs). t \<noteq> R"
      using reserved_neq[OF reserved_compositeId nr] by auto
  qed
  from k1 k2 k3 k4 show ?thesis by (blast intro: keeps_trans)
qed

lemma compositeJoins_keeps:
  assumes inv: "dbInv d" and run: "compositeJoins tm W g sortedOps d = Inr d'"
    and nr: "\<not> reservedName R"
  shows "keeps R d d'"
proof -
  obtain simple composite noOps where so: "sortedOps = (simple, composite, noOps)"
    by (cases sortedOps) auto
  show ?thesis
    using run unfolding so compositeJoins_def prod.case
  proof (clarsimp simp: bindE_eq_Inr, goal_cases)
    case (1 tnm d1 keys proj)
    have k1: "keeps R d d1" using simplifyTables_keeps[OF inv 1(1) nr] .
    have k2: "keeps R d1 d'"
    proof (rule forEachE_keeps[OF _ keeps_dbInv[OF k1] 1(4)])
      fix x e e'
      assume "dbInv e" "compositeTable g proj tnm x e = Inr e'"
      then show "keeps R e e'" using compositeTable_keeps nr by blast
    qed
    from k1 k2 show ?case by (rule keeps_trans)
  qed
qed

lemma execute_keeps:
  assumes inv: "dbInv d" and run: "execute tm W R' g sortedOps d = Inr d'"
    and ne: "W \<noteq> R" and nr: "\<not> reservedName R"
  shows "keeps R d d'"
proof -
  obtain simple composite noOps where so: "sortedOps = (simple, composite, noOps)"
    by (cases sortedOps) auto
  show ?thesis
    using run unfolding so execute_def prod.case
  proof (clarsimp simp: bindE_eq_Inr, goal_cases)
    case (1 d2 jm its d3 final d4)
    have k2: "keeps R d d2" using compositeJoins_keeps[OF inv 1(1) nr] .
    have k3: "keeps R d2 d3" using treeTables_keeps[OF keeps_dbInv[OF k2] 1(3) nr] .
    from blockJoinIndependentTables_keeps[OF keeps_dbInv[OF k3] 1(4)]
    have k4: "keeps R d3 d4" and rf: "reservedName final" by auto
    have k5: "keeps R d4 d'" using emitFinal_keeps[OF keeps_dbInv[OF k4] 1(5) ne nr rf] .
    from k2 k3 k4 k5 show ?case by (blast intro: keeps_trans)
  qed
qed

lemma sum_list_spaces:
  assumes "distinct (map fst q)" "\<forall>e\<in>set q. snd e = spacesLeft (pgs (fst e))"
  shows "(\<Sum>e\<leftarrow>q. int (snd e)) = (\<Sum>pid\<leftarrow>map fst q. int (spacesLeft (pgs pid)))"
  using assms by (induction q) auto

lemma sum_list_perm_set:
  assumes "distinct xs" "distinct ys" "set xs = set ys"
  shows "sum_list (map f xs) = sum_list (map (f :: nat \<Rightarrow> int) ys)"
proof -
  have "mset xs = mset ys" using assms by (simp add: set_eq_iff_mset_eq_distinct)
  then have "mset (map f xs) = mset (map f ys)" by simp
  then show ?thesis by (metis sum_mset_sum_list)
qed

lemma getNumberOfEntries_length:
  assumes inv: "dbInv d" and tb: "tables d t = Some pids"
  shows "getNumberOfEntries d t = Inr (int (length (tableRecs d t)))"
proof -
  from dbInv_tableInv[OF inv, of t] tb obtain q where q: "tablePageSpaces d t = Some q"
    and qi: "queueInv (pages d) (set pids) q" and dp: "distinct pids"
    and cap: "\<forall>pid\<in>set pids. length (pages d pid) \<le> maxNoOfRecsPerFile"
    by (auto simp: tableInv_def split: option.splits)
  from qi have dq: "distinct (map fst q)" and sq: "set (map fst q) = set pids"
    and vq: "\<forall>e\<in>set q. snd e = spacesLeft (pages d (fst e))"
    by (auto simp: queueInv_def)
  have "(\<Sum>e\<leftarrow>q. int (snd e)) = (\<Sum>pid\<leftarrow>map fst q. int (spacesLeft (pages d pid)))"
    using sum_list_spaces[OF dq vq] .
  also have "\<dots> = (\<Sum>pid\<leftarrow>pids. int (spacesLeft (pages d pid)))"
    using sum_list_perm_set[OF dq dp sq] .
  finally have s: "(\<Sum>e\<leftarrow>q. int (snd e)) = (\<Sum>pid\<leftarrow>pids. int (spacesLeft (pages d pid)))" .
  have "int (maxNoOfRecsPerFile * length pids) - (\<Sum>pid\<leftarrow>pids. int (spacesLeft (pages d pid)))
          = int (length (concat (map (pages d) pids)))"
    using cap
  proof (induction pids)
    case Nil
    then show ?case by simp
  next
    case (Cons pid pids)
    then have "length (pages d pid) \<le> maxNoOfRecsPerFile" by simp
    then have "int (spacesLeft (pages d pid)) = int maxNoOfRecsPerFile - int (length (pages d pid))"
      by (simp add: spacesLeft_def)
    with Cons show ?case by (simp add: algebra_simps)
  qed
  with s q tb show ?thesis by (simp add: getNumberOfEntries_def tableRecs_def)
qed

lemma executeTerm_keeps:
  assumes inv: "dbInv d" and run: "executeTerm tm W R d = Inr (delta, d')"
    and ne: "W \<noteq> R" and nr: "\<not> reservedName R"
  shows "keeps R d d' \<and> tables d R \<noteq> None \<and>
         delta = int (length (tableRecs d' R)) - int (length (tableRecs d R)) \<and> 0 \<le> delta"
proof -
  from run obtain n0 d1 n1 where
    0: "getNumberOfEntries d R = Inr n0"
    and 1: "(if length (cols tm) = 1 then selectAll tm W R d
             else bindE (groupCols (cols tm) Map.empty) (\<lambda>groupedCols.
                    execute tm W R groupedCols (sortOps tm) d)) = Inr d1"
    and 2: "getNumberOfEntries d1 R = Inr n1" and dl: "delta = n1 - n0" and d': "d' = d1"
    by (auto simp: executeTerm_def bindE_eq_Inr)
  from 0 obtain pids where tb: "tables d R = Some pids"
    by (auto simp: getNumberOfEntries_def split: option.splits)
  have k: "keeps R d d1"
  proof (cases "length (cols tm) = 1")
    case True
    with 1 show ?thesis using selectAll_keeps[OF inv _ ne] by simp
  next
    case False
    with 1 obtain g where "execute tm W R g (sortOps tm) d = Inr d1"
      by (auto simp: bindE_eq_Inr)
    then show ?thesis using execute_keeps[OF inv _ ne nr] by blast
  qed
  from k tb obtain pids1 where tb1: "tables d1 R = Some pids1"
    and sub: "mset (tableRecs d R) \<subseteq># mset (tableRecs d1 R)"
    by (auto simp: keeps_def)
  from getNumberOfEntries_length[OF inv tb] 0 have n0: "n0 = int (length (tableRecs d R))" by simp
  from getNumberOfEntries_length[OF keeps_dbInv[OF k] tb1] 2
  have n1: "n1 = int (length (tableRecs d1 R))" by simp
  from sub have "length (tableRecs d R) \<le> length (tableRecs d1 R)"
    using size_mset_mono[OF sub] by simp
  with k tb n0 n1 dl d' show ?thesis by simp
qed

section \<open>The page-full error is unreachable\<close>

text \<open>
  C6. From a well-formed state (the empty database is one), no sequence of
  \<open>addTable\<close>, \<open>insertRecords\<close>, \<open>insertUniqueRecordsById\<close>, \<open>clearTable\<close> and \<open>drop\<close>
  ends in the page-full error of the buffer's \<open>insertRecord\<close>: the page taken from the
  free-space queue has a free slot whenever a record is written to it.
\<close>

theorem page_full_unreachable:
  "dbInv d \<Longrightarrow> runOps steps d \<noteq> Inl PageFull"
  using runOps_safe[of d steps] by auto

theorem page_full_unreachable_witness:
  "dbInv emptyDB \<and>
   runOps [AddTable ''a'' [''c1''],
           InsertRecords ''a'' (replicate 250 [(''c1'', VNum 1)]),
           InsertUniqueRecordsById ''a'' [[(''_id'', VStr ''x''), (''c1'', VNum 2)]],
           ClearTable ''a'',
           InsertRecords ''a'' [[(''c1'', VNum 3)]],
           Drop ''a''] emptyDB \<noteq> Inl PageFull \<and>
   (case runOps [AddTable ''a'' [''c1''],
           InsertRecords ''a'' (replicate 3 [(''c1'', VNum 1)]),
           InsertUniqueRecordsById ''a'' [[(''_id'', VStr ''x''), (''c1'', VNum 2)]]] emptyDB of
      Inl e \<Rightarrow> False
    | Inr d \<Rightarrow> getNumberOfEntries d ''a'' = Inr 4)"
proof -
  have ran: "case runOps [AddTable ''a'' [''c1''],
           InsertRecords ''a'' (replicate 3 [(''c1'', VNum 1)]),
           InsertUniqueRecordsById ''a'' [[(''_id'', VStr ''x''), (''c1'', VNum 2)]]] emptyDB of
      Inl e \<Rightarrow> False
    | Inr d \<Rightarrow> getNumberOfEntries d ''a'' = Inr 4"
    by code_simp
  show ?thesis
    using page_full_unreachable [OF dbInv_emptyDB] dbInv_emptyDB ran by blast
qed

section \<open>Unique-by-id for a table filled by insertUniqueRecordsById\<close>

lemma insertBatches_uniq:
  assumes "dbInv d" "tables d t \<noteq> None" "uniqueById d t"
  shows "\<exists>d'. insertBatches t batches d = Inr d' \<and> dbInv d' \<and> tables d' t \<noteq> None \<and>
           uniqueById d' t \<and>
           (batches \<noteq> [] \<longrightarrow> (\<exists>ix. hashedOn d' t ''_id'' ix \<and> idIndexOk d' t ix)) \<and>
           set (tableRecs d' t) \<subseteq> set (tableRecs d t) \<union> set (concat batches) \<and>
           idOf ` set (tableRecs d' t) =
             idOf ` set (tableRecs d t) \<union> idOf ` set (concat batches)"
  using assms unfolding insertBatches_def
proof (induction batches arbitrary: d)
  case Nil
  then show ?case by simp
next
  case (Cons rs batches)
  from insertUniqueRecordsById_uniq[OF Cons.prems, of rs] obtain d1 ix added where
    1: "insertUniqueRecordsById d t rs = Inr d1" "dbInv d1" "tables d1 t \<noteq> None"
       "uniqueById d1 t" and hs1: "hashedOn d1 t ''_id'' ix" "idIndexOk d1 t ix"
    and ms: "mset (tableRecs d1 t) = mset (tableRecs d t) + mset added"
    and sub: "set added \<subseteq> set rs"
    and ids: "idOf ` set (tableRecs d1 t) = idOf ` set (tableRecs d t) \<union> idOf ` set rs"
    by blast
  have s1: "set (tableRecs d1 t) \<subseteq> set (tableRecs d t) \<union> set rs"
    using mset_eq_setD[of "tableRecs d1 t" "tableRecs d t @ added"] ms sub by auto
  from Cons.IH[OF 1(2,3,4)] obtain d' where
    2: "forEachE (\<lambda>rs d'. insertUniqueRecordsById d' t rs) batches d1 = Inr d'" "dbInv d'"
       "tables d' t \<noteq> None" "uniqueById d' t"
    and hs: "batches \<noteq> [] \<longrightarrow> (\<exists>ix. hashedOn d' t ''_id'' ix \<and> idIndexOk d' t ix)"
    and s2: "set (tableRecs d' t) \<subseteq> set (tableRecs d1 t) \<union> set (concat batches)"
    and ids2: "idOf ` set (tableRecs d' t) =
                 idOf ` set (tableRecs d1 t) \<union> idOf ` set (concat batches)" by blast
  have hs': "\<exists>ix. hashedOn d' t ''_id'' ix \<and> idIndexOk d' t ix"
  proof (cases "batches = []")
    case True
    with 2(1) have "d' = d1" by simp
    with hs1 show ?thesis by blast
  next
    case False
    with hs show ?thesis by simp
  qed
  have "forEachE (\<lambda>rs d'. insertUniqueRecordsById d' t rs) (rs # batches) d = Inr d'"
    using 1(1) 2(1) by simp
  moreover have "set (tableRecs d' t) \<subseteq> set (tableRecs d t) \<union> set (concat (rs # batches))"
    using s1 s2 by auto
  moreover have "idOf ` set (tableRecs d' t) =
                   idOf ` set (tableRecs d t) \<union> idOf ` set (concat (rs # batches))"
    using ids ids2 by auto
  ultimately show ?case using 2(2,3,4) hs' by simp
qed

text \<open>
  C5. A table is created in a well-formed state and then filled by any number of calls
  of \<open>insertUniqueRecordsById\<close>, with any batches. Every call returns, and afterwards
  the \<open>_id\<close> values of the stored records are pairwise distinct; the \<open>_id\<close> index
  exists as soon as one call was made, its keys are exactly the stored \<open>_id\<close> values
  and each key has the one locator \<open>(pageId, slot)\<close> of its record; the stored records
  are input records, one for each \<open>_id\<close> value of the input (so a record whose
  \<open>_id\<close> was already present, in an earlier batch or in the same one, was skipped).
\<close>

theorem unique_by_id:
  assumes "dbInv d" and "tables d t = None" and "addTable d t colNames = Inr (b, d0)"
  shows "\<exists>d'. insertBatches t batches d0 = Inr d' \<and> dbInv d' \<and>
           distinct (map idOf (tableRecs d' t)) \<and>
           (batches \<noteq> [] \<longrightarrow> (\<exists>ix. hashedOn d' t ''_id'' ix \<and> idIndexOk d' t ix)) \<and>
           set (tableRecs d' t) \<subseteq> set (concat batches) \<and>
           idOf ` set (tableRecs d' t) = idOf ` set (concat batches)"
proof -
  from addTable_new[OF assms(1,2), of colNames] assms(3) have
    inv0: "dbInv d0" and tb0: "tables d0 t \<noteq> None" and recs0: "tableRecs d0 t = []"
    and h0: "tableHashes d0 t = Some Map.empty" by auto
  have u0: "uniqueById d0 t" using recs0 h0 by (simp add: uniqueById_def)
  from insertBatches_uniq[OF inv0 tb0 u0, of batches] recs0 show ?thesis
    by (auto simp: uniqueById_def)
qed

theorem unique_by_id_witness:
  "dbInv emptyDB \<and> tables emptyDB ''r'' = None \<and>
   (\<exists>d0. addTable emptyDB ''r'' [''c1''] = Inr (True, d0) \<and>
     (\<exists>d'. insertBatches ''r''
              [[[(''_id'', VStr ''x''), (''c1'', VNum 1)], [(''_id'', VStr ''x''), (''c1'', VNum 2)]],
               [[(''_id'', VStr ''y''), (''c1'', VNum 3)], [(''_id'', VStr ''x''), (''c1'', VNum 4)]]]
              d0 = Inr d' \<and>
            distinct (map idOf (tableRecs d' ''r'')) \<and>
            tableRecs d' ''r'' =
              [[(''_id'', VStr ''x''), (''c1'', VNum 1)], [(''_id'', VStr ''y''), (''c1'', VNum 3)]]))"
proof -
  have t: "tables emptyDB ''r'' = None" by (simp add: emptyDB_def)
  from addTable_new[OF dbInv_emptyDB t, of "[''c1'']"] obtain d0 where
    a: "addTable emptyDB ''r'' [''c1''] = Inr (True, d0)" by blast
  let ?bs = "[[[(''_id'', VStr ''x''), (''c1'', VNum 1)], [(''_id'', VStr ''x''), (''c1'', VNum 2)]],
               [[(''_id'', VStr ''y''), (''c1'', VNum 3)], [(''_id'', VStr ''x''), (''c1'', VNum 4)]]]"
  from unique_by_id [OF dbInv_emptyDB t a, of ?bs] obtain d' where
    r: "insertBatches ''r'' ?bs d0 = Inr d'" and dist: "distinct (map idOf (tableRecs d' ''r''))"
    by blast
  have ev: "case addTable emptyDB ''r'' [''c1''] of
              Inl e \<Rightarrow> False
            | Inr (b, d0) \<Rightarrow>
                (case insertBatches ''r'' ?bs d0 of
                   Inl e \<Rightarrow> False
                 | Inr d' \<Rightarrow> tableRecs d' ''r'' =
                     [[(''_id'', VStr ''x''), (''c1'', VNum 1)], [(''_id'', VStr ''y''), (''c1'', VNum 3)]])"
    by code_simp
  have recs: "tableRecs d' ''r'' =
      [[(''_id'', VStr ''x''), (''c1'', VNum 1)], [(''_id'', VStr ''y''), (''c1'', VNum 3)]]"
    using ev a r by simp
  show ?thesis using dbInv_emptyDB t a r dist recs by blast
qed

section \<open>Errors of the hash lookups\<close>

lemma getRecsFromHash_hashed:
  assumes inv: "dbInv d" and hs: "hashedOn d t c ix"
  shows "(op = ''='' \<longrightarrow> \<not> idxHas ix rhsVal \<longrightarrow> getRecsFromHash d t c op rhsVal = Inr ([], d))"
    and "(op = ''>'' \<longrightarrow> (\<forall>k\<in>set (idxKeys ix). \<not> jsGt k rhsVal) \<longrightarrow>
            getRecsFromHash d t c op rhsVal = Inr ([], d))"
    and "(op = ''='' \<or> op = ''>'') \<longrightarrow> (\<exists>rs d'. getRecsFromHash d t c op rhsVal = Inr (rs, d'))"
    and "op \<noteq> ''='' \<longrightarrow> op \<noteq> ''>'' \<longrightarrow> getRecsFromHash d t c op rhsVal = Inl UnexpectedOperator"
proof -
  from hs obtain h where h: "tableHashes d t = Some h" "h c = Some ix" by (auto simp: hashedOn_def)
  from dbInv_hashed_table[OF inv hs] obtain pids where
    tb: "tables d t = Some pids" and iv: "idxValid (pages d) pids ix" by blast
  have unf: "getRecsFromHash d t c op rhsVal =
      (if op = ''='' then
         (if \<not> idxHas ix rhsVal then Inr ([], d) else fetchKeys (Some pids) ix [rhsVal] d)
       else if op = ''>'' then
         fetchKeys (Some pids) ix (filter (\<lambda>key. jsGt key rhsVal) (idxKeys ix)) d
       else Inl UnexpectedOperator)"
    using h tb by (simp add: getRecsFromHash_def isTableHashed_def)
  show "(op = ''='' \<longrightarrow> \<not> idxHas ix rhsVal \<longrightarrow> getRecsFromHash d t c op rhsVal = Inr ([], d))"
    using unf by auto
  show "(op = ''>'' \<longrightarrow> (\<forall>k\<in>set (idxKeys ix). \<not> jsGt k rhsVal) \<longrightarrow>
            getRecsFromHash d t c op rhsVal = Inr ([], d))"
  proof (intro impI)
    assume "op = ''>''" and none: "\<forall>k\<in>set (idxKeys ix). \<not> jsGt k rhsVal"
    then have "filter (\<lambda>key. jsGt key rhsVal) (idxKeys ix) = []" by (simp add: filter_empty_conv)
    with unf \<open>op = ''>''\<close> show "getRecsFromHash d t c op rhsVal = Inr ([], d)" by simp
  qed
  show "(op = ''='' \<or> op = ''>'') \<longrightarrow> (\<exists>rs d'. getRecsFromHash d t c op rhsVal = Inr (rs, d'))"
  proof
    assume "op = ''='' \<or> op = ''>''"
    then show "\<exists>rs d'. getRecsFromHash d t c op rhsVal = Inr (rs, d')"
    proof
      assume eq: "op = ''=''"
      show ?thesis
      proof (cases "idxHas ix rhsVal")
        case True
        then have "set [rhsVal] \<subseteq> set (idxKeys ix)" by (simp add: idxHas_keys)
        from fetchKeys_ok[OF iv this] unf eq True show ?thesis by auto
      next
        case False
        with unf eq show ?thesis by simp
      qed
    next
      assume gt: "op = ''>''"
      have "set (filter (\<lambda>key. jsGt key rhsVal) (idxKeys ix)) \<subseteq> set (idxKeys ix)" by auto
      from fetchKeys_ok[OF iv this] unf gt show ?thesis by auto
    qed
  qed
  show "op \<noteq> ''='' \<longrightarrow> op \<noteq> ''>'' \<longrightarrow> getRecsFromHash d t c op rhsVal = Inl UnexpectedOperator"
    using unf by simp
qed

lemma lookups_not_hashed:
  assumes "\<nexists>ix. hashedOn d t c ix"
  shows "\<exists>e. getRecsFromHash d t c op rhsVal = Inl e" and "\<exists>e. hasValue d t c v = Inl e"
  using assms
  by (auto simp: getRecsFromHash_def hasValue_def isTableHashed_def hashedOn_def
      split: option.splits)

lemma hasValue_hashed:
  assumes "hashedOn d t c ix"
  shows "hasValue d t c v = Inr (idxHas ix v)"
  using assms by (auto simp: hasValue_def isTableHashed_def hashedOn_def)

text \<open>
  C7. In a well-formed state, \<open>getRecsFromHash\<close> ends in an error exactly when the
  table has no hash index on the column or the operator is neither \<open>=\<close> nor \<open>>\<close>, and
  \<open>hasValue\<close> exactly when the table has no hash index on the column. With the index
  in place, a value that the index does not hold gives the empty stream (for \<open>=\<close> a key
  that is missing, for \<open>>\<close> no greater key) and \<open>false\<close>. The stream is the list of
  what the generator yields; the generator raises its errors when it is first pulled.
\<close>

theorem hash_lookup_errors:
  assumes "dbInv d"
  shows "((\<exists>e. getRecsFromHash d t c op rhsVal = Inl e) \<longleftrightarrow>
            ((\<nexists>ix. hashedOn d t c ix) \<or> (op \<noteq> ''='' \<and> op \<noteq> ''>''))) \<and>
         ((\<exists>e. hasValue d t c v = Inl e) \<longleftrightarrow> (\<nexists>ix. hashedOn d t c ix)) \<and>
         (\<forall>ix. hashedOn d t c ix \<and> \<not> idxHas ix rhsVal \<longrightarrow>
            getRecsFromHash d t c ''='' rhsVal = Inr ([], d)) \<and>
         (\<forall>ix. hashedOn d t c ix \<and> (\<forall>k\<in>set (idxKeys ix). \<not> jsGt k rhsVal) \<longrightarrow>
            getRecsFromHash d t c ''>'' rhsVal = Inr ([], d)) \<and>
         (\<forall>ix. hashedOn d t c ix \<and> \<not> idxHas ix v \<longrightarrow> hasValue d t c v = Inr False)"
proof (cases "\<exists>ix. hashedOn d t c ix")
  case False
  with lookups_not_hashed(1)[of d t c op rhsVal] lookups_not_hashed(2)[of d t c v]
  show ?thesis by auto
next
  case True
  then obtain ix where hs: "hashedOn d t c ix" by blast
  have uniq: "ix' = ix" if "hashedOn d t c ix'" for ix'
    using that hs by (auto simp: hashedOn_def)
  note G = getRecsFromHash_hashed[OF assms hs]
  have 1: "(\<exists>e. getRecsFromHash d t c op rhsVal = Inl e) \<longleftrightarrow> (op \<noteq> ''='' \<and> op \<noteq> ''>'')"
    using G(3)[of op rhsVal] G(4)[of op rhsVal] by auto
  have 2: "\<not> (\<exists>e. hasValue d t c v = Inl e)" using hasValue_hashed[OF hs] by simp
  have 3: "\<not> idxHas ix rhsVal \<longrightarrow> getRecsFromHash d t c ''='' rhsVal = Inr ([], d)"
    using G(1)[of "''=''" rhsVal] by simp
  have 4: "(\<forall>k\<in>set (idxKeys ix). \<not> jsGt k rhsVal) \<longrightarrow> getRecsFromHash d t c ''>'' rhsVal = Inr ([], d)"
    using G(2)[of "''>''" rhsVal] by simp
  have 5: "\<not> idxHas ix v \<longrightarrow> hasValue d t c v = Inr False" using hasValue_hashed[OF hs] by simp
  from True 1 2 3 4 5 uniq show ?thesis by blast
qed

theorem hash_lookup_errors_witness:
  "\<exists>d ix. exampleA = Inr d \<and> dbInv d \<and> hashedOn d ''a'' ''_id'' ix \<and>
     \<not> idxHas ix (VStr ''r3'') \<and> (\<forall>k\<in>set (idxKeys ix). \<not> jsGt k (VStr ''r3'')) \<and>
     getRecsFromHash d ''a'' ''_id'' ''='' (VStr ''r3'') = Inr ([], d) \<and>
     getRecsFromHash d ''a'' ''_id'' ''>'' (VStr ''r3'') = Inr ([], d) \<and>
     hasValue d ''a'' ''_id'' (VStr ''r3'') = Inr False \<and>
     (\<exists>e. getRecsFromHash d ''a'' ''_id'' ''<'' (VStr ''r1'') = Inl e) \<and>
     (\<exists>e. getRecsFromHash d ''a'' ''c1'' ''='' (VStr ''1'') = Inl e) \<and>
     (\<exists>e. hasValue d ''a'' ''c1'' (VStr ''1'') = Inl e) \<and>
     (\<nexists>e. getRecsFromHash d ''a'' ''_id'' ''='' (VStr ''r1'') = Inl e)"
proof -
  have ev: "case exampleA of
              Inl e \<Rightarrow> False
            | Inr d \<Rightarrow>
                (case tableHashes d ''a'' of
                   None \<Rightarrow> False
                 | Some h \<Rightarrow>
                     h ''c1'' = None \<and>
                     (case h ''_id'' of
                        None \<Rightarrow> False
                      | Some ix \<Rightarrow> \<not> idxHas ix (VStr ''r3'') \<and>
                          list_all (\<lambda>k. \<not> jsGt k (VStr ''r3'')) (idxKeys ix)))"
    by code_simp
  then have "\<exists>d h ix. exampleA = Inr d \<and> tableHashes d ''a'' = Some h \<and> h ''c1'' = None \<and>
      h ''_id'' = Some ix \<and> \<not> idxHas ix (VStr ''r3'') \<and>
      list_all (\<lambda>k. \<not> jsGt k (VStr ''r3'')) (idxKeys ix)"
    by (simp split: sum.splits option.splits, blast)
  then obtain d h ix where d: "exampleA = Inr d" and h: "tableHashes d ''a'' = Some h"
    and c1: "h ''c1'' = None" and ix: "h ''_id'' = Some ix" and a: "\<not> idxHas ix (VStr ''r3'')"
    and b: "list_all (\<lambda>k. \<not> jsGt k (VStr ''r3'')) (idxKeys ix)"
    by blast
  have inv: "dbInv d" by (rule exampleA_inv[OF d])
  have hs: "hashedOn d ''a'' ''_id'' ix" using h ix by (simp add: hashedOn_def)
  have nh: "\<nexists>ix. hashedOn d ''a'' ''c1'' ix" using h c1 by (simp add: hashedOn_def)
  have b': "\<forall>k\<in>set (idxKeys ix). \<not> jsGt k (VStr ''r3'')" using b by (simp add: list_all_iff)
  note T1 = hash_lookup_errors [OF inv, of "''a''" "''_id''" "''=''" "VStr ''r3''" "VStr ''r3''"]
  note T2 = hash_lookup_errors [OF inv, of "''a''" "''_id''" "''<''" "VStr ''r1''" "VStr ''r1''"]
  note T3 = hash_lookup_errors [OF inv, of "''a''" "''c1''" "''=''" "VStr ''1''" "VStr ''1''"]
  note T4 = hash_lookup_errors [OF inv, of "''a''" "''_id''" "''=''" "VStr ''r1''" "VStr ''r1''"]
  have e1: "getRecsFromHash d ''a'' ''_id'' ''='' (VStr ''r3'') = Inr ([], d)"
    using T1 hs a by blast
  have e2: "getRecsFromHash d ''a'' ''_id'' ''>'' (VStr ''r3'') = Inr ([], d)"
    using T1 hs b' by blast
  have e3: "hasValue d ''a'' ''_id'' (VStr ''r3'') = Inr False" using T1 hs a by blast
  have e4: "\<exists>e. getRecsFromHash d ''a'' ''_id'' ''<'' (VStr ''r1'') = Inl e"
    using T2 by simp
  have e5: "\<exists>e. getRecsFromHash d ''a'' ''c1'' ''='' (VStr ''1'') = Inl e" using T3 nh by blast
  have e6: "\<exists>e. hasValue d ''a'' ''c1'' (VStr ''1'') = Inl e" using T3 nh by blast
  have e7: "\<nexists>e. getRecsFromHash d ''a'' ''_id'' ''='' (VStr ''r1'') = Inl e"
    using T4 hs by auto
  from d inv hs a b' e1 e2 e3 e4 e5 e6 e7 show ?thesis by blast
qed

section \<open>Hash join on equality is commutative for two different tables\<close>

text \<open>
  C9, as stated, fails when both operands are the same table: the projection names its
  sources by table name, and with \<open>t1 = t2\<close> the \<open>switch\<close> takes every column from the
  record of the first operand. On table \<open>a\<close> = \<open>{(1,2), (2,3)}\<close>, joining \<open>a.c1 = a.c2\<close>
  and projecting \<open>a.c1\<close> gives \<open>2\<close> in one order and \<open>1\<close> in the other.
\<close>

theorem hashJoin_self_join_counterexample:
  "outputsOf (bindE exampleA (\<lambda>d.
      hashJoin d ''a'' ''c1'' ''a'' ''c2'' [(''o'', ''a'', ''c1'')] ''='' False)) =
     Some [[(''o'', VStr ''2'')]] \<and>
   outputsOf (bindE exampleA (\<lambda>d.
      hashJoin d ''a'' ''c2'' ''a'' ''c1'' [(''o'', ''a'', ''c1'')] ''='' False)) =
     Some [[(''o'', VStr ''1'')]] \<and>
   mset [[(''o'', VStr ''2'')]] \<noteq> mset [[(''o'', VStr ''1'')]]"
proof -
  have 1: "outputsOf (bindE exampleA (\<lambda>d.
      hashJoin d ''a'' ''c1'' ''a'' ''c2'' [(''o'', ''a'', ''c1'')] ''='' False)) =
     Some [[(''o'', VStr ''2'')]]" by code_simp
  have 2: "outputsOf (bindE exampleA (\<lambda>d.
      hashJoin d ''a'' ''c2'' ''a'' ''c1'' [(''o'', ''a'', ''c1'')] ''='' False)) =
     Some [[(''o'', VStr ''1'')]]" by code_simp
  from 1 2 show ?thesis by simp
qed

text \<open>
  C9, amended. In a well-formed state, for two different tables \<open>A\<close> and \<open>B\<close>, the
  joins \<open>hashJoin(A, x, B, y, proj, '=')\<close> and \<open>hashJoin(B, y, A, x, proj, '=')\<close> with
  the same projection either both raise the projection error or yield the same
  multiset of records.
\<close>

theorem hashJoin_commutes_distinct_tables:
  assumes "dbInv d" and "tables d A \<noteq> None" and "tables d B \<noteq> None" and "A \<noteq> B"
  shows "(hashJoin d A x B y proj ''='' False = Inl UnexpectedProjection \<and>
          hashJoin d B y A x proj ''='' False = Inl UnexpectedProjection) \<or>
         (\<exists>o1 d1 o2 d2. hashJoin d A x B y proj ''='' False = Inr (o1, d1) \<and>
            hashJoin d B y A x proj ''='' False = Inr (o2, d2) \<and> mset o1 = mset o2)"
proof -
  from assms(2,3) obtain pa pb where ta: "tables d A = Some pa" and tb: "tables d B = Some pb"
    by auto
  let ?P1 = "joinPairs (pages d) (ixFor d A x) (ixFor d B y) ''='' (idxKeys (ixFor d A x))"
  let ?P2 = "joinPairs (pages d) (ixFor d B y) (ixFor d A x) ''='' (idxKeys (ixFor d B y))"
  let ?F = "joinRow A B proj False"
  from hashJoin_spec[OF assms(1) ta tb, of x y proj "''=''" False] obtain d1 where
    j1: "hashJoin d A x B y proj ''='' False = withState (mapE ?F ?P1) d1" by blast
  from hashJoin_spec[OF assms(1) tb ta, of y x proj "''=''" False] obtain d2 where
    j2: "hashJoin d B y A x proj ''='' False = withState (mapE (joinRow B A proj False) ?P2) d2"
    by blast
  have "mapE (joinRow B A proj False) ?P2 = mapE (\<lambda>p. ?F (prod.swap p)) ?P2"
    by (intro arg_cong[where f = "\<lambda>f. mapE f ?P2"] ext)
       (auto simp: joinRow_swap[OF assms(4)] split: prod.splits)
  then have m2: "mapE (joinRow B A proj False) ?P2 = mapE ?F (map prod.swap ?P2)"
    by (simp add: mapE_map)
  have ms: "mset ?P1 = mset (map prod.swap ?P2)" using joinPairs_swap[of "pages d"] by simp
  from mapE_mset[OF ms, of ?F UnexpectedProjection] joinRow_error
  have "(mapE ?F ?P1 = Inl UnexpectedProjection \<and> mapE ?F (map prod.swap ?P2) = Inl UnexpectedProjection) \<or>
        (\<exists>as bs. mapE ?F ?P1 = Inr as \<and> mapE ?F (map prod.swap ?P2) = Inr bs \<and> mset as = mset bs)"
    by blast
  then show ?thesis
  proof
    assume "mapE ?F ?P1 = Inl UnexpectedProjection \<and>
            mapE ?F (map prod.swap ?P2) = Inl UnexpectedProjection"
    with j1 j2 m2 show ?thesis by simp
  next
    assume "\<exists>as bs. mapE ?F ?P1 = Inr as \<and> mapE ?F (map prod.swap ?P2) = Inr bs \<and>
              mset as = mset bs"
    then obtain as bs where "mapE ?F ?P1 = Inr as" "mapE ?F (map prod.swap ?P2) = Inr bs"
      "mset as = mset bs" by blast
    with j1 j2 m2 show ?thesis by simp
  qed
qed

theorem hashJoin_commutes_distinct_tables_witness:
  "\<exists>d. exampleAB = Inr d \<and> dbInv d \<and> tables d ''a'' \<noteq> None \<and> tables d ''b'' \<noteq> None \<and>
     ''a'' \<noteq> ''b'' \<and>
     (\<exists>o1 d1 o2 d2.
        hashJoin d ''a'' ''c2'' ''b'' ''c1'' [(''x'', ''a'', ''c1''), (''y'', ''b'', ''c2'')] ''=''
          False = Inr (o1, d1) \<and>
        hashJoin d ''b'' ''c1'' ''a'' ''c2'' [(''x'', ''a'', ''c1''), (''y'', ''b'', ''c2'')] ''=''
          False = Inr (o2, d2) \<and>
        mset o1 = mset o2 \<and>
        o1 = [[(''x'', VStr ''1''), (''y'', VStr ''8'')], [(''x'', VStr ''1''), (''y'', VStr ''7'')]])"
proof -
  let ?p = "[(''x'', ''a'', ''c1''), (''y'', ''b'', ''c2'')]"
  have ev: "case exampleAB of
              Inl e \<Rightarrow> False
            | Inr d \<Rightarrow> tables d ''a'' \<noteq> None \<and> tables d ''b'' \<noteq> None \<and>
                outputsOf (hashJoin d ''a'' ''c2'' ''b'' ''c1'' ?p ''='' False) =
                  Some [[(''x'', VStr ''1''), (''y'', VStr ''8'')],
                        [(''x'', VStr ''1''), (''y'', VStr ''7'')]]"
    by code_simp
  from sum_case_InrE[OF this] obtain d where d: "exampleAB = Inr d" and ta: "tables d ''a'' \<noteq> None"
    and tb: "tables d ''b'' \<noteq> None"
    and out: "outputsOf (hashJoin d ''a'' ''c2'' ''b'' ''c1'' ?p ''='' False) =
                  Some [[(''x'', VStr ''1''), (''y'', VStr ''8'')],
                        [(''x'', VStr ''1''), (''y'', VStr ''7'')]]"
    by blast
  have inv: "dbInv d" by (rule exampleAB_inv[OF d])
  have ne: "''a'' \<noteq> ''b''" by simp
  from hashJoin_commutes_distinct_tables [OF inv ta tb ne, of "''c2''" "''c1''" ?p] out
  obtain o1 d1 o2 d2 where
    "hashJoin d ''a'' ''c2'' ''b'' ''c1'' ?p ''='' False = Inr (o1, d1)"
    "hashJoin d ''b'' ''c1'' ''a'' ''c2'' ?p ''='' False = Inr (o2, d2)" "mset o1 = mset o2"
    by (auto simp: outputsOf_def)
  with out d inv ta tb show ?thesis by (auto simp: outputsOf_def)
qed

section \<open>Block join\<close>

text \<open>
  C4. \<open>blockJoin\<close> yields no record at all: for every pair of tables and every
  projection its first pull raises a type error, because it asks the class for
  \<open>getAllRecords\<close>. The claim promises one output for each pair of \<open>t1 \<times> t2\<close>.
\<close>

theorem blockJoin_raises:
  "blockJoin d tableName1 tableName2 proj shouldGenPairId = Inl TypeError"
  by (simp add: blockJoin_def blockJoinVia_def receiverGetAllRecords_def)

text \<open>
  With the scans taken from the instance the loop still does not enumerate the product:
  on \<open>a \<times> b\<close> with two records each it yields two records, those of the first record
  of \<open>a\<close>, since the one inner scan of the block is used up by the first outer record.
\<close>

lemma blockJoin_instance_scan_example:
  "outputsOf (bindE exampleAB (\<lambda>d.
      blockJoinVia AnInstance d ''a'' ''b'' [(''x'', ''a'', ''c1''), (''y'', ''b'', ''c2'')] False)) =
     Some [[(''x'', VStr ''1''), (''y'', VStr ''7'')], [(''x'', VStr ''1''), (''y'', VStr ''8'')]]"
  by code_simp

section \<open>Records are not always passed by value\<close>

text \<open>The paths that copy: a record read by slot and a record stored by \<open>insertRecords\<close>.\<close>

lemma refDirectAccess_fresh:
  assumes "refDirectAccess h p i = Inr (a, h')" and "\<forall>b\<in>set p. b < nextRef h"
  shows "a \<notin> set p" and "contents (assignProperty h' a k v) p = contents h p"
  using assms
  by (auto simp: refDirectAccess_def newObject_def assignProperty_def contents_def
      refGetAllRecords_def refIterator_def split: if_splits)

lemma refInsertRecords_copies:
  assumes "refInsertRecords h p newId a = Inr (p', h')" and "a < nextRef h"
  shows "a \<notin> set (drop (length p) p')"
    and "\<forall>b\<in>set p. b < nextRef h \<Longrightarrow> a \<notin> set p \<Longrightarrow>
           contents (assignProperty h' a k v) p' = contents h' p'"
  using assms
  by (auto simp: refInsertRecords_def newObject_def assignProperty_def contents_def
      refGetAllRecords_def refIterator_def refPageInsertRecord_def Let_def
      split: if_splits prod.splits)

text \<open>
  C8. The claim fails on two of its paths. A record object stored by
  \<open>insertUniqueRecordsById\<close> is the caller's object, so an assignment by the caller
  after the insert changes what the table holds; and \<open>getAllRecords\<close> (and with it
  \<open>filterRecords\<close>) yields the stored object, so an assignment to a yielded record
  changes what the next scan reads. The caller's object is \<open>{_id: ''r1'', c1: 1}\<close>;
  \<open>c1\<close> is set to 99 after the insert, and \<open>c1\<close> of the yielded record to 7.
\<close>

theorem stored_and_yielded_records_alias:
  "(case newObject emptyHeap [(''_id'', VStr ''r1''), (''c1'', VNum 1)] of
      (a, h1) \<Rightarrow>
        (case refInsertUnique h1 [] a of
           Inl e \<Rightarrow> False
         | Inr (p, h2) \<Rightarrow>
             contents h2 p = [[(''_id'', VStr ''r1''), (''c1'', VNum 1)]] \<and>
             contents (assignProperty h2 a ''c1'' (VNum 99)) p =
               [[(''_id'', VStr ''r1''), (''c1'', VNum 99)]] \<and>
             (case refGetAllRecords p of
                [] \<Rightarrow> False
              | y # ys \<Rightarrow>
                  contents (assignProperty h2 y ''c1'' (VNum 7)) p =
                    [[(''_id'', VStr ''r1''), (''c1'', VNum 7)]])))"
  by (simp add: newObject_def emptyHeap_def refInsertUnique_def refPageInsertRecord_def
      maxNoOfRecsPerFile_def contents_def refGetAllRecords_def refIterator_def
      assignProperty_def)

section \<open>The guard of the composite join\<close>



section \<open>Common values of a join tree: the parent table\<close>

lemma runOps_inv: "dbInv d \<Longrightarrow> runOps steps d = Inr d' \<Longrightarrow> dbInv d'"
  using runOps_safe[of d steps] by auto

lemma pairTables_inv:
  assumes "pairTables = Inr d"
  shows "dbInv d"
proof -
  from assms obtain d0 d1 d2 where
    0: "runOps [AddTable (compositeId (''a'', ''b'')) [''a.c1'', ''b.c2''],
                InsertUniqueRecordsById (compositeId (''a'', ''b''))
                  [[(''c1'', VStr ''1''), (''c2'', VStr ''7''), (''_id'', VStr ''r1|s1''),
                    (''_ida'', VStr ''r1''), (''_idb'', VStr ''s1'')]],
                AddTable (compositeId (''a'', ''a'')) [''a.c1'', ''a.c1''],
                InsertUniqueRecordsById (compositeId (''a'', ''a''))
                  [[(''c1'', VStr ''1''), (''_id'', VStr ''r1|r1''), (''_ida'', VStr ''r1'')]]]
          emptyDB = Inr d0"
    and 1: "hashTable d0 (compositeId (''a'', ''b'')) ''_ida'' True = Inr d1"
    and 2: "hashTable d1 (compositeId (''a'', ''b'')) ''_idb'' True = Inr d2"
    and 3: "hashTable d2 (compositeId (''a'', ''a'')) ''_ida'' True = Inr d"
    unfolding pairTables_def bindE_eq_Inr by blast
  have i0: "dbInv d0" using runOps_inv[OF dbInv_emptyDB 0] .
  have i1: "dbInv d1" using hashTable_same[OF i0 1] by simp
  have i2: "dbInv d2" using hashTable_same[OF i1 2] by simp
  show ?thesis using hashTable_same[OF i2 3] by simp
qed

text \<open>
  The pair tables and the join tree of \<open>treeQuery\<close>, as its first term makes them on
  the tables of \<open>exampleTiny\<close>.
\<close>

lemma treeQuery_pair_tables:
  "case firstJoins exampleTiny treeQuery of
     Inl e \<Rightarrow> False
   | Inr d \<Rightarrow>
       tableRecs d (compositeId (''a'', ''b'')) =
         [[(''c1'', VStr ''1''), (''c2'', VStr ''7''), (''_id'', VStr ''r1|s1''),
           (''_ida'', VStr ''r1''), (''_idb'', VStr ''s1'')]] \<and>
       tableRecs d (compositeId (''a'', ''a'')) =
         [[(''c1'', VStr ''1''), (''_id'', VStr ''r1|r1''), (''_ida'', VStr ''r1'')]] \<and>
       hasValue d (compositeId (''a'', ''a'')) ''_ida'' (VStr ''r1'') = Inr True \<and>
       hasValue d (compositeId (''a'', ''b'')) ''_ida'' (VStr ''r1'') = Inr True \<and>
       hasValue d (compositeId (''a'', ''b'')) ''_idb'' (VStr ''s1'') = Inr True"
  by code_simp

lemma treeQuery_tree:
  "bindE (buildJoinMap (fromTables (nonrecTerm treeQuery))
            (map fst (fst (snd (sortOps (nonrecTerm treeQuery)))))) (\<lambda>joinMap.
     Inr (fst (constructChildren joinMap (map fst (fst (snd (sortOps (nonrecTerm treeQuery)))))
                 (map fst (fst (snd (sortOps (nonrecTerm treeQuery)))))))) =
   Inr [pairTree]"
  by code_simp

text \<open>
  C1: for a node with at least one child a parent row is kept if and only if every
  child's index on the shared \<open>_id\<close> column contains the row's value, and the parent
  table is overwritten with the composed rows. In the code the callback of
  \<open>childrenTables.every\<close> evaluates \<open>DB.hasValue\<close> and has no \<open>return\<close>, so the test
  fails for every parent row, whatever the children hold: whenever
  \<open>getCommonTreeVals\<close> returns for a node with at least one child, in a well-formed
  state, the table of the node is empty.
\<close>

theorem common_values_empty_the_parent:
  assumes "dbInv d"
    and "getCommonTreeVals columns (Tree parentId (child # others)) d = Inr (p, d')"
  shows "p = parentId \<and> dbInv d' \<and> tableRecs d' (compositeId parentId) = []"
proof -
  have "[] \<noteq> compositeId q" for q by (simp add: compositeId_def)
  moreover have "[] \<noteq> idString n" for n by (simp add: idString_def)
  ultimately have nr: "\<not> reservedName []" by (auto simp: reservedName_def)
  from getCommonTreeVals_keeps(1)[OF assms nr] show ?thesis by (simp add: keeps_def)
qed

theorem common_values_empty_the_parent_witness:
  "\<exists>d p d'. pairTables = Inr d \<and> dbInv d \<and>
     (case tableRecs d (compositeId (''a'', ''b'')) of
        [] \<Rightarrow> False
      | pr # others \<Rightarrow>
          others = [] \<and>
          hasValue d (compositeId (''a'', ''a'')) ''_ida'' (getField pr ''_ida'') = Inr True) \<and>
     getCommonTreeVals [Col ''a'' ''c1'', Col ''b'' ''c2''] pairTree d = Inr (p, d') \<and>
     p = (''a'', ''b'') \<and> dbInv d' \<and> tableRecs d' (compositeId (''a'', ''b'')) = []"
proof -
  have ev: "case pairTables of
              Inl e \<Rightarrow> False
            | Inr d \<Rightarrow>
                (case tableRecs d (compositeId (''a'', ''b'')) of
                   [] \<Rightarrow> False
                 | pr # others \<Rightarrow>
                     others = [] \<and>
                     hasValue d (compositeId (''a'', ''a'')) ''_ida'' (getField pr ''_ida'') = Inr True) \<and>
                (case getCommonTreeVals [Col ''a'' ''c1'', Col ''b'' ''c2''] pairTree d of
                   Inl e \<Rightarrow> False
                 | Inr x \<Rightarrow> True)"
    by code_simp
  from sum_case_InrE[OF ev] obtain d where d: "pairTables = Inr d"
    and pre: "case tableRecs d (compositeId (''a'', ''b'')) of
        [] \<Rightarrow> False
      | pr # others \<Rightarrow>
          others = [] \<and>
          hasValue d (compositeId (''a'', ''a'')) ''_ida'' (getField pr ''_ida'') = Inr True"
    and c: "case getCommonTreeVals [Col ''a'' ''c1'', Col ''b'' ''c2''] pairTree d of
              Inl e \<Rightarrow> False | Inr x \<Rightarrow> True"
    by blast
  from sum_case_InrE[OF c] obtain x where
    "getCommonTreeVals [Col ''a'' ''c1'', Col ''b'' ''c2''] pairTree d = Inr x"
    by blast
  then obtain p d' where
    run: "getCommonTreeVals [Col ''a'' ''c1'', Col ''b'' ''c2''] pairTree d = Inr (p, d')"
    by (cases x) auto
  have inv: "dbInv d" using pairTables_inv[OF d] .
  from common_values_empty_the_parent[OF inv run[unfolded pairTree_def]]
  have "p = (''a'', ''b'')" "dbInv d'" "tableRecs d' (compositeId (''a'', ''b'')) = []" by auto
  with d inv pre run show ?thesis by blast
qed

section \<open>The rounds of the driver\<close>

lemma makeTables_inv:
  assumes "dbInv d0" "makeTables q d0 = Inr (w, d)"
  shows "dbInv d \<and> w = declName (withDecl q)"
proof -
  from assms(2) obtain b1 d1 keys b2 where
    1: "addTable d0 (declName (withDecl q)) (declColumns (withDecl q)) = Inr (b1, d1)"
    and 2: "addTable d1 (resultTableName q) keys = Inr (b2, d)" and w: "w = declName (withDecl q)"
    by (auto simp: makeTables_def createRecursiveTable_def bindE_eq_Inr)
  have i1: "dbInv d1" using addTable_keeps[OF assms(1) 1, of "[]"] by (rule keeps_dbInv)
  have "dbInv d" using addTable_keeps[OF i1 2, of "[]"] by (rule keeps_dbInv)
  with w show ?thesis by simp
qed

lemma startQuery_inv:
  assumes inv: "dbInv d0" and run: "startQuery q d0 = Inr (w, d)"
    and ne: "declName (withDecl q) \<noteq> resultTableName q"
    and nr: "\<not> reservedName (resultTableName q)"
  shows "dbInv d \<and> w = declName (withDecl q)"
proof -
  from run obtain w2 d2 n where 1: "makeTables q d0 = Inr (w2, d2)"
    and 2: "executeTerm (nonrecTerm q) w2 (resultTableName q) d2 = Inr (n, d)" and w: "w = w2"
    by (auto simp: startQuery_def bindE_eq_Inr)
  from makeTables_inv[OF inv 1] have i2: "dbInv d2" and w2: "w2 = declName (withDecl q)" by auto
  from executeTerm_keeps[OF i2 2[unfolded w2] ne nr] have "dbInv d" by (simp add: keeps_def)
  with w w2 show ?thesis by simp
qed

lemma round_grows:
  assumes inv: "dbInv e" and ne: "W \<noteq> R" and nr: "\<not> reservedName R"
    and run: "executeTerm tm W R e = Inr (recordsInserted, e1)"
  shows "dbInv e1 \<and> tables e1 R \<noteq> None \<and> 0 \<le> recordsInserted \<and>
         getNumberOfEntries e R = Inr (int (length (tableRecs e R))) \<and>
         getNumberOfEntries e1 R = Inr (int (length (tableRecs e R)) + recordsInserted) \<and>
         int (length (tableRecs e1 R)) = int (length (tableRecs e R)) + recordsInserted"
proof -
  from executeTerm_keeps[OF inv run ne nr] have k: "keeps R e e1" and tb: "tables e R \<noteq> None"
    and dl: "recordsInserted = int (length (tableRecs e1 R)) - int (length (tableRecs e R))"
    and pos: "0 \<le> recordsInserted" by auto
  from k tb have i1: "dbInv e1" and tb1: "tables e1 R \<noteq> None" by (auto simp: keeps_def)
  from tb obtain pids where "tables e R = Some pids" by auto
  from getNumberOfEntries_length[OF inv this]
  have n0: "getNumberOfEntries e R = Inr (int (length (tableRecs e R)))" .
  from tb1 obtain pids1 where "tables e1 R = Some pids1" by auto
  from getNumberOfEntries_length[OF i1 this]
  have n1: "getNumberOfEntries e1 R = Inr (int (length (tableRecs e1 R)))" .
  from i1 tb1 pos n0 n1 dl show ?thesis by simp
qed

lemma round_continues:
  assumes "executeTerm tm W R e = Inr (recordsInserted, e1)" "0 \<le> recordsInserted"
  shows "recursiveRounds (Suc k) tm W R e =
           (if recordsInserted = 0 then Some (Inr e1) else recursiveRounds k tm W R e1)"
  using assms by simp

lemma rounds_end:
  assumes "dbInv e" "W \<noteq> R" "\<not> reservedName R" "recursiveRounds k tm W R e = Some (Inr en)"
  shows "dbInv en \<and> length (tableRecs e R) \<le> length (tableRecs en R) \<and>
         (\<exists>el. dbInv el \<and> executeTerm tm W R el = Inr (0, en))"
  using assms
proof (induction k arbitrary: e)
  case 0
  then show ?case by simp
next
  case (Suc k)
  show ?case
  proof (cases "executeTerm tm W R e")
    case (Inl err)
    with Suc.prems(4) show ?thesis by simp
  next
    case (Inr x)
    obtain n e1 where x: "x = (n, e1)" by (cases x)
    note run = Inr[unfolded x]
    from round_grows[OF Suc.prems(1,2,3) run] have i1: "dbInv e1" and pos: "0 \<le> n"
      and len: "int (length (tableRecs e1 R)) = int (length (tableRecs e R)) + n" by auto
    show ?thesis
    proof (cases "n = 0")
      case True
      with Suc.prems(4) run have "en = e1" by simp
      with True run i1 len Suc.prems(1) show ?thesis by auto
    next
      case False
      with pos Suc.prems(4) run have "recursiveRounds k tm W R e1 = Some (Inr en)" by simp
      from Suc.IH[OF i1 Suc.prems(2,3) this] len pos show ?thesis by auto
    qed
  qed
qed

lemma exampleTiny_inv: "exampleTiny = Inr d \<Longrightarrow> dbInv d"
  using runOps_safe[OF dbInv_emptyDB, of "[AddTable ''a'' [''c1'', ''c2''],
             InsertUniqueRecordsById ''a''
               [[(''c1'', VStr ''1''), (''c2'', VStr ''2''), (''_id'', VStr ''r1'')]],
             AddTable ''b'' [''c1'', ''c2''],
             InsertUniqueRecordsById ''b''
               [[(''c1'', VStr ''2''), (''c2'', VStr ''7''), (''_id'', VStr ''s1'')]]]"]
  unfolding exampleTiny_def by auto

text \<open>
  C3, as claimed: for every query execution the number of entries of the result table
  does not decrease from one round of the loop to the next, and the loop ends exactly
  when a round returns 0. The query
  \<open>WITH RECURSIVE t(c1, c2) AS (SELECT * FROM a UNION SELECT * FROM t)
  SELECT * INTO t FROM t\<close> has its working table as its result table. On the table
  \<open>a\<close> with two records the loop is entered with two entries in \<open>t\<close>; the first
  round clears \<open>t\<close> as its working table, finds nothing to scan and returns
  \<open>- 2\<close>, the result table has no entry left, and the loop ends with this round.
\<close>

theorem aliased_result_table_shrinks:
  "firstRound exampleA aliasedQuery = Inr (2, - 2, 0, True)"
  by code_simp

text \<open>
  C3, as the code has it: take a query whose result table is not its working table
  and does not bear a name that the evaluator gives to a table of its own, started
  in a well-formed state. Then the loop is entered in a well-formed state. Every
  round that starts in a well-formed state and returns, returns the number by which
  the result table has grown, which is not negative, in a well-formed state, and it
  is the last round exactly when that number is 0. And whenever the loop ends, the
  result table has at least the entries it had when the loop was entered, and the
  last round returned 0.
\<close>

theorem fixpoint_rounds_grow:
  assumes "dbInv d0"
    and "declName (withDecl q) \<noteq> resultTableName q"
    and "\<not> reservedName (resultTableName q)"
    and "startQuery q d0 = Inr (recTableName, d)"
  shows "dbInv d \<and> recTableName = declName (withDecl q) \<and>
         (\<forall>e recordsInserted e1.
            dbInv e \<longrightarrow>
            executeTerm (recTerm q) recTableName (resultTableName q) e = Inr (recordsInserted, e1) \<longrightarrow>
            dbInv e1 \<and> 0 \<le> recordsInserted \<and>
            getNumberOfEntries e (resultTableName q) =
              Inr (int (length (tableRecs e (resultTableName q)))) \<and>
            getNumberOfEntries e1 (resultTableName q) =
              Inr (int (length (tableRecs e (resultTableName q))) + recordsInserted) \<and>
            (\<forall>k. recursiveRounds (Suc k) (recTerm q) recTableName (resultTableName q) e =
                   (if recordsInserted = 0 then Some (Inr e1)
                    else recursiveRounds k (recTerm q) recTableName (resultTableName q) e1))) \<and>
         (\<forall>k dn.
            recursiveRounds k (recTerm q) recTableName (resultTableName q) d = Some (Inr dn) \<longrightarrow>
            dbInv dn \<and>
            length (tableRecs d (resultTableName q)) \<le> length (tableRecs dn (resultTableName q)) \<and>
            (\<exists>el. dbInv el \<and>
               executeTerm (recTerm q) recTableName (resultTableName q) el = Inr (0, dn)))"
proof -
  from startQuery_inv[OF assms(1,4,2,3)] have inv: "dbInv d"
    and w: "recTableName = declName (withDecl q)" by auto
  have ne: "recTableName \<noteq> resultTableName q" using w assms(2) by simp
  have per: "dbInv e1 \<and> 0 \<le> n \<and>
      getNumberOfEntries e (resultTableName q) =
        Inr (int (length (tableRecs e (resultTableName q)))) \<and>
      getNumberOfEntries e1 (resultTableName q) =
        Inr (int (length (tableRecs e (resultTableName q))) + n) \<and>
      (\<forall>k. recursiveRounds (Suc k) (recTerm q) recTableName (resultTableName q) e =
             (if n = 0 then Some (Inr e1)
              else recursiveRounds k (recTerm q) recTableName (resultTableName q) e1))"
    if "dbInv e" "executeTerm (recTerm q) recTableName (resultTableName q) e = Inr (n, e1)"
    for e n e1
  proof -
    from round_grows[OF that(1) ne assms(3) that(2)] have g: "dbInv e1" "0 \<le> n"
      "getNumberOfEntries e (resultTableName q) =
         Inr (int (length (tableRecs e (resultTableName q))))"
      "getNumberOfEntries e1 (resultTableName q) =
         Inr (int (length (tableRecs e (resultTableName q))) + n)"
      by auto
    from round_continues[OF that(2) g(2)] g show ?thesis by blast
  qed
  have fin: "dbInv dn \<and>
      length (tableRecs d (resultTableName q)) \<le> length (tableRecs dn (resultTableName q)) \<and>
      (\<exists>el. dbInv el \<and> executeTerm (recTerm q) recTableName (resultTableName q) el = Inr (0, dn))"
    if "recursiveRounds k (recTerm q) recTableName (resultTableName q) d = Some (Inr dn)" for k dn
    using rounds_end[OF inv ne assms(3) that] .
  from inv w per fin show ?thesis by blast
qed

theorem fixpoint_rounds_grow_witness:
  "\<exists>d0 d d1 d2.
     exampleTiny = Inr d0 \<and> dbInv d0 \<and> startQuery unionQuery d0 = Inr (''t'', d) \<and> dbInv d \<and>
     executeTerm (selectStar ''b'') ''t'' ''n'' d = Inr (1, d1) \<and>
     executeTerm (selectStar ''b'') ''t'' ''n'' d1 = Inr (0, d2) \<and>
     getNumberOfEntries d ''n'' = Inr 1 \<and> getNumberOfEntries d1 ''n'' = Inr 2 \<and>
     getNumberOfEntries d2 ''n'' = Inr 2 \<and>
     recursiveRounds 1 (selectStar ''b'') ''t'' ''n'' d = None \<and>
     recursiveRounds 2 (selectStar ''b'') ''t'' ''n'' d = Some (Inr d2)"
proof -
  have ev: "case exampleTiny of
              Inl e \<Rightarrow> False
            | Inr d0 \<Rightarrow>
                (case startQuery unionQuery d0 of
                   Inl e \<Rightarrow> False
                 | Inr (w, d) \<Rightarrow>
                     w = ''t'' \<and> length (tableRecs d ''n'') = 1 \<and>
                     (case executeTerm (selectStar ''b'') ''t'' ''n'' d of
                        Inl e \<Rightarrow> False
                      | Inr (n1, d1) \<Rightarrow>
                          n1 = 1 \<and>
                          (case executeTerm (selectStar ''b'') ''t'' ''n'' d1 of
                             Inl e \<Rightarrow> False
                           | Inr (n2, d2) \<Rightarrow> n2 = 0)))"
    by code_simp
  from sum_case_InrE[OF ev] obtain d0 where d0: "exampleTiny = Inr d0"
    and c1: "case startQuery unionQuery d0 of
                   Inl e \<Rightarrow> False
                 | Inr (w, d) \<Rightarrow>
                     w = ''t'' \<and> length (tableRecs d ''n'') = 1 \<and>
                     (case executeTerm (selectStar ''b'') ''t'' ''n'' d of
                        Inl e \<Rightarrow> False
                      | Inr (n1, d1) \<Rightarrow>
                          n1 = 1 \<and>
                          (case executeTerm (selectStar ''b'') ''t'' ''n'' d1 of
                             Inl e \<Rightarrow> False
                           | Inr (n2, d2) \<Rightarrow> n2 = 0))"
    by blast
  from sum_case_InrE[OF c1] obtain d where s: "startQuery unionQuery d0 = Inr (''t'', d)"
    and len: "length (tableRecs d ''n'') = 1"
    and c2: "case executeTerm (selectStar ''b'') ''t'' ''n'' d of
               Inl e \<Rightarrow> False
             | Inr (n1, d1) \<Rightarrow>
                 n1 = 1 \<and>
                 (case executeTerm (selectStar ''b'') ''t'' ''n'' d1 of
                    Inl e \<Rightarrow> False
                  | Inr (n2, d2) \<Rightarrow> n2 = 0)"
    by auto
  from sum_case_InrE[OF c2] obtain d1 where r1: "executeTerm (selectStar ''b'') ''t'' ''n'' d = Inr (1, d1)"
    and c3: "case executeTerm (selectStar ''b'') ''t'' ''n'' d1 of
               Inl e \<Rightarrow> False | Inr (n2, d2) \<Rightarrow> n2 = 0"
    by auto
  from sum_case_InrE[OF c3] obtain d2 where r2: "executeTerm (selectStar ''b'') ''t'' ''n'' d1 = Inr (0, d2)"
    by auto
  have i0: "dbInv d0" using exampleTiny_inv[OF d0] .
  have ne: "declName (withDecl unionQuery) \<noteq> resultTableName unionQuery"
    by (simp add: unionQuery_def)
  have nr: "\<not> reservedName (resultTableName unionQuery)"
    by (rule plain_name_not_reserved) (simp_all add: unionQuery_def)
  have names: "recTerm unionQuery = selectStar ''b''" "resultTableName unionQuery = ''n''"
    by (simp_all add: unionQuery_def)
  note T = fixpoint_rounds_grow [OF i0 ne nr s, unfolded names]
  from T have inv: "dbInv d" by blast
  from T inv r1 have g1: "dbInv d1"
    "getNumberOfEntries d ''n'' = Inr (int (length (tableRecs d ''n'')))"
    "getNumberOfEntries d1 ''n'' = Inr (int (length (tableRecs d ''n'')) + 1)"
    "recursiveRounds (Suc 0) (selectStar ''b'') ''t'' ''n'' d =
       recursiveRounds 0 (selectStar ''b'') ''t'' ''n'' d1"
    "recursiveRounds (Suc (Suc 0)) (selectStar ''b'') ''t'' ''n'' d =
       recursiveRounds (Suc 0) (selectStar ''b'') ''t'' ''n'' d1"
    by (metis one_neq_zero)+
  from T g1(1) r2 have g2:
    "getNumberOfEntries d2 ''n'' = Inr (int (length (tableRecs d1 ''n'')) + 0)"
    "getNumberOfEntries d1 ''n'' = Inr (int (length (tableRecs d1 ''n'')))"
    "recursiveRounds (Suc 0) (selectStar ''b'') ''t'' ''n'' d1 = Some (Inr d2)"
    by metis+
  have n0: "getNumberOfEntries d ''n'' = Inr 1" using g1(2) len by simp
  have n1: "getNumberOfEntries d1 ''n'' = Inr 2" using g1(3) len by simp
  have n2: "getNumberOfEntries d2 ''n'' = Inr 2" using g2(1,2) n1 by simp
  have k1: "recursiveRounds 1 (selectStar ''b'') ''t'' ''n'' d = None" using g1(4) by simp
  have k2: "recursiveRounds 2 (selectStar ''b'') ''t'' ''n'' d = Some (Inr d2)"
    using g1(5) g2(3) by (simp add: numeral_2_eq_2)
  from d0 i0 s inv r1 r2 n0 n1 n2 k1 k2 show ?thesis by blast
qed

end
